(* ===== verification/Go_Prelude.thy ===== *)
theory Go_Prelude
  imports Main "HOL-Library.Char_ord" "HOL-Library.List_Lexorder" "HOL-Library.AList"
    "HOL-Library.Word"
begin

text \<open>
  The parts of the Go language and its library that every component of the gateway uses:
  results with an error value, maps with an iteration order, the dynamic values that a JSON
  document decodes to, 64-bit integers and the conversion of a \<open>float64\<close> to \<open>int\<close>.

  \<^item> A function that returns a value and an \<open>error\<close> returns \<open>'e + 'a\<close>; \<open>Inl\<close> is a non-nil error.
  \<^item> A Go map is an association list whose keys are distinct. The list order is the order in
    which \<open>range\<close> visits the keys, which Go leaves open: a statement about every such list is a
    statement about every iteration order.
  \<^item> A \<open>map[K]struct{}\<close> that the code only tests, extends and clears is a set.
\<close>

named_theorems go_defs \<open>definitions of small operations, unfolded by the component proofs\<close>

section \<open>Results\<close>

type_synonym ('e, 'a) result = "'e + 'a"

definition res_bind :: "('e, 'a) result \<Rightarrow> ('a \<Rightarrow> ('e, 'b) result) \<Rightarrow> ('e, 'b) result" where
  "res_bind r f = (case r of Inl e \<Rightarrow> Inl e | Inr v \<Rightarrow> f v)"

lemma res_bind_simps [simp]:
  "res_bind (Inl e) f = Inl e"
  "res_bind (Inr v) f = f v"
  by (simp_all add: res_bind_def)

lemma res_bind_Inr_iff: "res_bind r f = Inr w \<longleftrightarrow> (\<exists>v. r = Inr v \<and> f v = Inr w)"
  by (cases r) auto

lemma res_bind_Inl_iff:
  "res_bind r f = Inl e \<longleftrightarrow> r = Inl e \<or> (\<exists>v. r = Inr v \<and> f v = Inl e)"
  by (cases r) auto

lemma res_bind_InrE:
  assumes "res_bind r f = Inr w"
  obtains v where "r = Inr v" and "f v = Inr w"
  using assms by (auto simp: res_bind_Inr_iff)

section \<open>Maps with an iteration order\<close>

type_synonym ('k, 'v) gomap = "('k \<times> 'v) list"

abbreviation mkeys :: "('k, 'v) gomap \<Rightarrow> 'k list" where
  "mkeys m \<equiv> map fst m"

definition gomap :: "('k, 'v) gomap \<Rightarrow> bool" where
  "gomap m \<longleftrightarrow> distinct (mkeys m)"

text \<open>\<open>m[k]\<close> for a map of integers: the zero value when the key is absent.\<close>

definition mget0 :: "('k, int) gomap \<Rightarrow> 'k \<Rightarrow> int" where
  "mget0 m k = (case map_of m k of None \<Rightarrow> 0 | Some v \<Rightarrow> v)"

abbreviation mput :: "'k \<Rightarrow> 'v \<Rightarrow> ('k, 'v) gomap \<Rightarrow> ('k, 'v) gomap" where
  "mput k v m \<equiv> AList.update k v m"

abbreviation mdel :: "'k \<Rightarrow> ('k, 'v) gomap \<Rightarrow> ('k, 'v) gomap" where
  "mdel k m \<equiv> AList.delete k m"

lemma gomap_Nil [simp]: "gomap []"
  by (simp add: gomap_def)

lemma gomap_mput [simp]: "gomap m \<Longrightarrow> gomap (mput k v m)"
  by (simp add: gomap_def distinct_update)

lemma gomap_mdel [simp]: "gomap m \<Longrightarrow> gomap (mdel k m)"
  by (simp add: gomap_def distinct_delete)

lemma gomap_filter [simp]: "gomap m \<Longrightarrow> gomap (filter P m)"
  by (simp add: gomap_def distinct_map_filter)

lemma map_of_mput [simp]: "map_of (mput k v m) = (map_of m)(k \<mapsto> v)"
  by (simp add: update_conv')

lemma map_of_mdel [simp]: "map_of (mdel k m) = (map_of m)(k := None)"
  by (simp add: delete_conv')

lemma gomap_map_of_iff: "gomap m \<Longrightarrow> map_of m k = Some v \<longleftrightarrow> (k, v) \<in> set m"
  by (simp add: gomap_def)

text \<open>The key set of a map is kept in one normal form, the domain of its lookup function.\<close>

lemma image_fst_dom [simp]: "fst ` set m = dom (map_of m)"
  by (simp add: dom_map_of_conv_image_fst)

lemma map_of_eq_NoneI: "gomap (m @ (k, v) # m') \<Longrightarrow> map_of m k = None"
  by (auto simp: gomap_def domIff)

lemma mget0_Some: "map_of m k = Some v \<Longrightarrow> mget0 m k = v"
  by (simp add: mget0_def)

lemma dom_map_of_Nil_iff: "dom (map_of m) = {} \<longleftrightarrow> m = []"
  by (simp add: dom_map_of_conv_image_fst del: image_fst_dom)

lemma mget0_mem: "gomap m \<Longrightarrow> (k, v) \<in> set m \<Longrightarrow> mget0 m k = v"
  by (simp add: mget0_def gomap_def)

text \<open>Two enumerations of one map sort to the same key list.\<close>

lemma sort_mkeys_cong:
  fixes m m' :: "('k::linorder, 'v) gomap"
  assumes "gomap m" and "gomap m'" and "map_of m = map_of m'"
  shows "sort (mkeys m) = sort (mkeys m')"
proof -
  have "set (mkeys m) = set (mkeys m')"
    using assms(3) by simp
  then show ?thesis
    using assms(1,2)
    by (auto simp: gomap_def intro!: sorted_distinct_set_unique)
qed

section \<open>64-bit integers and dynamic values\<close>

type_synonym u64 = "64 word"

type_synonym byte = "8 word"

definition max_int64 :: int where
  "max_int64 = 2 ^ 63 - 1"

text \<open>Reduction of a mathematical integer to a Go \<open>int64\<close> (two's complement).\<close>

definition wrap64 :: "int \<Rightarrow> int" where
  "wrap64 x = (x + 2 ^ 63) mod 2 ^ 64 - 2 ^ 63"

lemma wrap64_id: "- (2 ^ 63) \<le> x \<Longrightarrow> x \<le> max_int64 \<Longrightarrow> wrap64 x = x"
  by (simp add: wrap64_def max_int64_def)

lemma wrap64_range: "- (2 ^ 63) \<le> wrap64 x \<and> wrap64 x \<le> max_int64"
  by (simp add: wrap64_def max_int64_def)

text \<open>A \<open>time.Duration\<close> is a count of nanoseconds.\<close>

abbreviation second :: int where
  "second \<equiv> 1000000000"

text \<open>
  A \<open>float64\<close> is NaN, an infinity or \<open>m * 2 ^ e\<close>. The conversion \<open>int(x)\<close> truncates; a value
  that does not fit gives the integer \<open>-2 ^ 63\<close>, as on amd64.
\<close>

datatype float64 = Finite int int | Infinite bool | NaN

definition go_trunc :: "int \<Rightarrow> int \<Rightarrow> int" where
  "go_trunc m e = (if 0 \<le> e then m * 2 ^ nat e else sgn m * (\<bar>m\<bar> div 2 ^ nat (- e)))"

fun int_of_float :: "float64 \<Rightarrow> int" where
  "int_of_float (Finite m e) =
     (let t = go_trunc m e in if - (2 ^ 63) \<le> t \<and> t \<le> max_int64 then t else - (2 ^ 63))"
| "int_of_float _ = - (2 ^ 63)"

text \<open>\<open>float64(n) == x\<close>, for an \<open>n\<close> that \<open>float64\<close> represents exactly.\<close>

fun float_is_int :: "int \<Rightarrow> float64 \<Rightarrow> bool" where
  "float_is_int n (Finite m e) = (if 0 \<le> e then n = m * 2 ^ nat e else n * 2 ^ nat (- e) = m)"
| "float_is_int n _ = False"

text \<open>
  The dynamic values the configuration code switches on: the decoded JSON kinds, the integer
  kinds of Go, and \<open>[]int\<close>. The \<open>uint64\<close> and \<open>uint\<close> kinds carry their unsigned value.
\<close>

datatype goany =
    ANil
  | ABool bool
  | AString string
  | AInt int
  | AUint int
  | AUint64 int
  | AFloat float64
  | AList "goany list"
  | AInts "int list"
  | AMap "(string \<times> goany) list"
  | AOther

section \<open>Strings\<close>

text \<open>
  \<open>strings.ToLower\<close> on the ASCII letters. The code compares its results with ASCII words whose
  letters no other Unicode character maps to, so the case folding of other characters does not
  change a comparison.
\<close>

definition lower_char :: "char \<Rightarrow> char" where
  "lower_char c =
     (let n = (of_char c :: nat) in if 65 \<le> n \<and> n \<le> 90 then char_of (n + 32) else c)"

definition ToLower :: "string \<Rightarrow> string" where
  "ToLower s = map lower_char s"

end
