(* ===== verification/Load_Balance.thy ===== *)
theory Load_Balance
  imports Go_Prelude
begin

text \<open>
  Target selection of the upstream proxy: \<open>pkg/proxy/loadbalance.go\<close> and
  \<open>pkg/proxy/priority.go\<close>. A round-robin balancer wraps the third-party type
  \<open>weighted.SW\<close>, whose operations are the record \<open>sw_ops\<close>, an argument of every definition
  that reaches it; \<open>sw_laws\<close> states what the package documents of them. A priority balancer keeps
  one round-robin selector for each priority and, for one request, avoids the targets the request
  has already tried.
\<close>

section \<open>The weighted package\<close>

record 'w sw_ops =
  sw_new :: "'w"
  sw_add :: "'w \<Rightarrow> string \<Rightarrow> int \<Rightarrow> 'w"
  sw_next :: "'w \<Rightarrow> string option \<times> 'w"

text \<open>
  The documented behaviour: a new selector is empty, \<open>Add\<close> with a positive weight adds an item,
  \<open>Next\<close> returns nil on an empty selector and otherwise one of its items, and keeps the items.
\<close>

definition sw_laws :: "'w sw_ops \<Rightarrow> ('w \<Rightarrow> string set) \<Rightarrow> bool" where
  "sw_laws ops items \<longleftrightarrow>
     items (sw_new ops) = {}
   \<and> (\<forall>w s n. 0 < n \<longrightarrow> items (sw_add ops w s n) = insert s (items w))
   \<and> (\<forall>w. items w = {} \<longrightarrow> fst (sw_next ops w) = None)
   \<and> (\<forall>w. items w \<noteq> {} \<longrightarrow> (\<exists>s\<in>items w. fst (sw_next ops w) = Some s))
   \<and> (\<forall>w. items (snd (sw_next ops w)) = items w)"

section \<open>Round robin\<close>

definition NewRRLoadBalance :: "'w sw_ops \<Rightarrow> string list \<Rightarrow> 'w" where
  "NewRRLoadBalance ops servers = foldl (\<lambda>w server. sw_add ops w server 1) (sw_new ops) servers"

definition rr_Next :: "'w sw_ops \<Rightarrow> 'w \<Rightarrow> string \<times> 'w" where
  "rr_Next ops w =
     (let (value, w') = sw_next ops w
      in (case value of None \<Rightarrow> '''' | Some s \<Rightarrow> s, w'))"

definition NewWeightedRRLoadBalance :: "'w sw_ops \<Rightarrow> (string, int) gomap \<Rightarrow> 'w" where
  "NewWeightedRRLoadBalance ops servers =
     foldl (\<lambda>w server. sw_add ops w server (mget0 servers server)) (sw_new ops)
       (sort (mkeys servers))"

section \<open>Priority groups\<close>

record 'w priorityGroup =
  pg_priority :: int
  pg_targets :: "string list"
  pg_weights :: "(string, int) gomap"
  pg_selector :: "'w"

definition group_weights :: "(int, (string, int) gomap) gomap \<Rightarrow> int \<Rightarrow> (string, int) gomap" where
  "group_weights weights priority = (case map_of weights priority of None \<Rightarrow> [] | Some g \<Rightarrow> g)"

text \<open>The body of the first loop of \<open>newPriorityGroups\<close>.\<close>

definition group_add ::
  "(string, int) gomap \<Rightarrow> (int, (string, int) gomap) gomap \<Rightarrow> string \<times> int
     \<Rightarrow> (int, (string, int) gomap) gomap" where
  "group_add priorities weights tw =
     (let (target, weight) = tw
      in if weight \<le> 0 then weights
         else let priority = mget0 priorities target
              in mput priority (mput target weight (group_weights weights priority)) weights)"

definition make_group ::
  "'w sw_ops \<Rightarrow> (int, (string, int) gomap) gomap \<Rightarrow> int \<Rightarrow> 'w priorityGroup" where
  "make_group ops weights priority =
     (let groupWeights = group_weights weights priority
      in \<lparr>pg_priority = priority, pg_targets = sort (mkeys groupWeights),
          pg_weights = groupWeights, pg_selector = NewWeightedRRLoadBalance ops groupWeights\<rparr>)"

definition newPriorityGroups ::
  "'w sw_ops \<Rightarrow> (string, int) gomap \<Rightarrow> (string, int) gomap \<Rightarrow> 'w priorityGroup list" where
  "newPriorityGroups ops servers priorities =
     (if servers = [] then []
      else let weights = foldl (group_add priorities) [] servers
           in map (make_group ops weights) (rev (sort (mkeys weights))))"

section \<open>Selection inside one group\<close>

definition group_select :: "'w sw_ops \<Rightarrow> 'w priorityGroup \<Rightarrow> string \<times> 'w priorityGroup" where
  "group_select ops g = (let (t, w) = rr_Next ops (pg_selector g) in (t, g\<lparr>pg_selector := w\<rparr>))"

text \<open>
  The scan of \<open>nextUntried\<close>: the state is \<open>(best, bestWeight, eligible)\<close>; an absent filter
  (\<open>nil\<close>) selects everything.
\<close>

fun untried_scan ::
  "(string, int) gomap \<Rightarrow> string set \<Rightarrow> (string \<Rightarrow> bool) option \<Rightarrow> string list
     \<Rightarrow> string \<times> int \<times> nat \<Rightarrow> string \<times> int \<times> nat" where
  "untried_scan weights tried selectable [] acc = acc"
| "untried_scan weights tried selectable (target # targets) (best, bestWeight, eligible) =
     (let weight = mget0 weights target
      in if weight \<le> 0 then untried_scan weights tried selectable targets (best, bestWeight, eligible)
         else if target \<in> tried
           then untried_scan weights tried selectable targets (best, bestWeight, eligible)
         else if (case selectable of None \<Rightarrow> False | Some p \<Rightarrow> \<not> p target)
           then untried_scan weights tried selectable targets (best, bestWeight, eligible)
         else if bestWeight < weight
           then untried_scan weights tried selectable targets (target, weight, Suc eligible)
         else untried_scan weights tried selectable targets (best, bestWeight, Suc eligible))"

definition group_nextUntried ::
  "'w sw_ops \<Rightarrow> string set \<Rightarrow> (string \<Rightarrow> bool) option \<Rightarrow> 'w priorityGroup
     \<Rightarrow> string \<times> 'w priorityGroup" where
  "group_nextUntried ops tried selectable g =
     (if pg_targets g = [] then ('''', g)
      else if tried = {} \<and> Option.is_none selectable then group_select ops g
      else let (best, bestWeight, eligible) =
                 untried_scan (pg_weights g) tried selectable (pg_targets g) ('''', 0, 0)
           in if eligible = length (pg_targets g) then group_select ops g else (best, g))"

text \<open>The loop over the groups that both priority-aware balancers run.\<close>

fun groups_nextUntried ::
  "'w sw_ops \<Rightarrow> string set \<Rightarrow> (string \<Rightarrow> bool) option \<Rightarrow> 'w priorityGroup list
     \<Rightarrow> string \<times> 'w priorityGroup list" where
  "groups_nextUntried ops tried selectable [] = ('''', [])"
| "groups_nextUntried ops tried selectable (g # gs) =
     (let (t, g') = group_nextUntried ops tried selectable g
      in if t \<noteq> '''' then (t, g' # gs)
         else let (t', gs') = groups_nextUntried ops tried selectable gs in (t', g' # gs'))"

section \<open>The priority balancer\<close>

record priorityRequestState =
  prs_last :: string
  prs_tried :: "string set"

text \<open>\<open>None\<close> is a request without the context value, or no request at all.\<close>

definition priorityStateForRequest :: "priorityRequestState option \<Rightarrow> priorityRequestState" where
  "priorityStateForRequest ctx =
     (case ctx of None \<Rightarrow> \<lparr>prs_last = '''', prs_tried = {}\<rparr> | Some state \<Rightarrow> state)"

definition finishPreviousAttempt :: "priorityRequestState \<Rightarrow> priorityRequestState" where
  "finishPreviousAttempt state =
     (if prs_last state = '''' then state
      else state\<lparr>prs_tried := insert (prs_last state) (prs_tried state), prs_last := ''''\<rparr>)"

definition plb_Next :: "'w sw_ops \<Rightarrow> 'w priorityGroup list \<Rightarrow> string \<times> 'w priorityGroup list" where
  "plb_Next ops groups =
     (case groups of [] \<Rightarrow> ('''', [])
      | g # gs \<Rightarrow> (let (t, g') = group_select ops g in (t, g' # gs)))"

definition plb_NextForRequest ::
  "'w sw_ops \<Rightarrow> 'w priorityGroup list \<Rightarrow> priorityRequestState option
     \<Rightarrow> string \<times> 'w priorityGroup list \<times> priorityRequestState" where
  "plb_NextForRequest ops groups ctx =
     (let state = finishPreviousAttempt (priorityStateForRequest ctx);
          (target, groups1) = groups_nextUntried ops (prs_tried state) None groups
      in if target \<noteq> '''' then (target, groups1, state\<lparr>prs_last := target\<rparr>)
         else let state1 = state\<lparr>prs_tried := {}\<rparr>;
                  (target1, groups2) = groups_nextUntried ops (prs_tried state1) None groups1
              in (target1, groups2, state1\<lparr>prs_last := target1\<rparr>))"

definition recordPriorityTargetAttempt ::
  "priorityRequestState option \<Rightarrow> string \<Rightarrow> priorityRequestState option" where
  "recordPriorityTargetAttempt ctx target =
     (if target = '''' then ctx
      else let state = finishPreviousAttempt (priorityStateForRequest ctx)
           in Some (state\<lparr>prs_tried := insert target (prs_tried state)\<rparr>))"

text \<open>The attempts of one request: \<open>n\<close> selections in a row on one request context.\<close>

fun plb_attempts ::
  "'w sw_ops \<Rightarrow> nat \<Rightarrow> 'w priorityGroup list \<Rightarrow> priorityRequestState option
     \<Rightarrow> string list \<times> 'w priorityGroup list \<times> priorityRequestState option" where
  "plb_attempts ops 0 groups ctx = ([], groups, ctx)"
| "plb_attempts ops (Suc n) groups ctx =
     (let (t, groups', state) = plb_NextForRequest ops groups ctx;
          (ts, groups'', ctx') = plb_attempts ops n groups' (Some state)
      in (t # ts, groups'', ctx'))"

section \<open>Laws of the selectors\<close>

lemma sw_lawsD:
  assumes "sw_laws ops items"
  shows "items (sw_new ops) = {}"
    and "0 < n \<Longrightarrow> items (sw_add ops w s n) = insert s (items w)"
    and "items w = {} \<Longrightarrow> fst (sw_next ops w) = None"
    and "items w \<noteq> {} \<Longrightarrow> \<exists>s\<in>items w. fst (sw_next ops w) = Some s"
    and "items (snd (sw_next ops w)) = items w"
  using assms by (simp_all add: sw_laws_def)

lemma rr_Next_items:
  assumes "sw_laws ops items" and "rr_Next ops w = (t, w')"
  shows "items w' = items w"
  using sw_lawsD(5)[OF assms(1), of w] assms(2)
  by (auto simp: rr_Next_def split: prod.splits)

lemma rr_Next_mem:
  assumes "sw_laws ops items" and "rr_Next ops w = (t, w')" and "items w \<noteq> {}"
  shows "t \<in> items w"
  using sw_lawsD(4)[OF assms(1,3)] assms(2)
  by (auto simp: rr_Next_def split: prod.splits)

lemma rr_Next_empty:
  assumes "sw_laws ops items" and "rr_Next ops w = (t, w')" and "items w = {}"
  shows "t = ''''"
  using sw_lawsD(3)[OF assms(1,3)] assms(2)
  by (auto simp: rr_Next_def split: prod.splits)

lemma foldl_sw_add_items:
  assumes "sw_laws ops items" and "\<forall>s\<in>set ss. 0 < f s"
  shows "items (foldl (\<lambda>w s. sw_add ops w s (f s)) w ss) = items w \<union> set ss"
  using assms(2)
proof (induction ss arbitrary: w)
  case (Cons s ss)
  then have "0 < f s" by simp
  then have "items (sw_add ops w s (f s)) = insert s (items w)"
    by (rule sw_lawsD(2)[OF assms(1)])
  with Cons show ?case by auto
qed simp

lemma NewRRLoadBalance_items:
  assumes "sw_laws ops items"
  shows "items (NewRRLoadBalance ops servers) = set servers"
  using foldl_sw_add_items[OF assms, of servers "\<lambda>_. 1" "sw_new ops"] sw_lawsD(1)[OF assms]
  by (simp add: NewRRLoadBalance_def)

lemma NewWeightedRRLoadBalance_items:
  assumes "sw_laws ops items" and "\<forall>t\<in>dom (map_of servers). 0 < mget0 servers t"
  shows "items (NewWeightedRRLoadBalance ops servers) = dom (map_of servers)"
  using foldl_sw_add_items[OF assms(1), of "sort (mkeys servers)" "mget0 servers" "sw_new ops"]
    sw_lawsD(1)[OF assms(1)] assms(2)
  by (simp add: NewWeightedRRLoadBalance_def)

section \<open>The groups of a pool\<close>

text \<open>The weight of a server in the group of one priority; weights that are not positive drop out.\<close>

definition pool_weight ::
  "(string, int) gomap \<Rightarrow> (string, int) gomap \<Rightarrow> int \<Rightarrow> string \<Rightarrow> int option" where
  "pool_weight servers priorities p t =
     (case map_of servers t of
        Some w \<Rightarrow> if 0 < w \<and> mget0 priorities t = p then Some w else None
      | None \<Rightarrow> None)"

definition grouped ::
  "(string, int) gomap \<Rightarrow> (string, int) gomap \<Rightarrow> (int, (string, int) gomap) gomap \<Rightarrow> bool" where
  "grouped priorities servers ws \<longleftrightarrow>
     gomap ws \<and> (\<forall>p. map_of (group_weights ws p) = pool_weight servers priorities p)
   \<and> (\<forall>p. gomap (group_weights ws p)) \<and> (\<forall>p g. map_of ws p = Some g \<longrightarrow> g \<noteq> [])"

lemma group_weights_mput:
  "group_weights (mput q g ws) p = (if p = q then g else group_weights ws p)"
  by (simp add: group_weights_def)

lemma pool_weight_snoc:
  assumes "gomap (servers @ [(t, w)])"
  shows "pool_weight (servers @ [(t, w)]) priorities p =
    (if 0 < w \<and> mget0 priorities t = p then (pool_weight servers priorities p)(t \<mapsto> w)
     else pool_weight servers priorities p)"
proof -
  have "map_of servers t = None"
    using assms by (rule map_of_eq_NoneI)
  then show ?thesis
    by (auto simp: pool_weight_def map_add_def fun_eq_iff split: option.splits)
qed

lemma mput_not_Nil [simp]: "mput k v m \<noteq> []"
  by (cases m) (auto split: prod.splits)

lemma grouped_step:
  assumes "gomap (servers @ [(t, w)])" and "grouped priorities servers ws"
  shows "grouped priorities (servers @ [(t, w)]) (group_add priorities ws (t, w))"
  using assms(2) unfolding grouped_def
  by (auto simp: group_add_def Let_def group_weights_mput pool_weight_snoc[OF assms(1)])

lemma grouped_foldl:
  assumes "gomap servers"
  shows "grouped priorities servers (foldl (group_add priorities) [] servers)"
  using assms
proof (induction servers rule: rev_induct)
  case Nil
  show ?case by (auto simp: grouped_def group_weights_def pool_weight_def)
next
  case (snoc tw servers)
  then have "grouped priorities servers (foldl (group_add priorities) [] servers)"
    by (simp add: gomap_def)
  then show ?case
    using snoc.prems by (cases tw) (simp add: grouped_step)
qed

definition group_inv :: "('w \<Rightarrow> string set) \<Rightarrow> 'w priorityGroup \<Rightarrow> bool" where
  "group_inv items g \<longleftrightarrow>
     pg_targets g \<noteq> [] \<and> distinct (pg_targets g) \<and> sorted (pg_targets g)
   \<and> gomap (pg_weights g) \<and> dom (map_of (pg_weights g)) = set (pg_targets g)
   \<and> (\<forall>t\<in>set (pg_targets g). 0 < mget0 (pg_weights g) t)
   \<and> items (pg_selector g) = set (pg_targets g)"

definition pool_inv :: "('w \<Rightarrow> string set) \<Rightarrow> 'w priorityGroup list \<Rightarrow> bool" where
  "pool_inv items gs \<longleftrightarrow>
     (\<forall>g\<in>set gs. group_inv items g) \<and> distinct (concat (map pg_targets gs))
   \<and> '''' \<notin> set (concat (map pg_targets gs))"

lemma newPriorityGroups_alt:
  "newPriorityGroups ops servers priorities =
     (let ws = foldl (group_add priorities) [] servers
      in map (make_group ops ws) (rev (sort (mkeys ws))))"
  by (simp add: newPriorityGroups_def)

lemma grouped_dom:
  assumes "grouped priorities servers ws"
  shows "dom (map_of (group_weights ws p)) = dom (pool_weight servers priorities p)"
  using assms by (simp add: grouped_def)

lemma pool_weight_Some:
  "pool_weight servers priorities p t = Some w \<longleftrightarrow>
     map_of servers t = Some w \<and> 0 < w \<and> mget0 priorities t = p"
  by (auto simp: pool_weight_def split: option.splits)

lemma grouped_weights_pos:
  assumes "grouped priorities servers ws" and "t \<in> dom (map_of (group_weights ws p))"
  shows "0 < mget0 (group_weights ws p) t"
proof -
  obtain w where w: "map_of (group_weights ws p) t = Some w" using assms(2) by blast
  with assms(1) have "0 < w" by (simp add: grouped_def pool_weight_Some)
  with w show ?thesis by (simp add: mget0_Some)
qed

lemma make_group_sel [simp]:
  "pg_priority (make_group ops ws p) = p"
  "pg_targets (make_group ops ws p) = sort (mkeys (group_weights ws p))"
  "pg_weights (make_group ops ws p) = group_weights ws p"
  "pg_selector (make_group ops ws p) = NewWeightedRRLoadBalance ops (group_weights ws p)"
  by (simp_all add: make_group_def Let_def)

lemma make_group_inv:
  assumes "sw_laws ops items" and "grouped priorities servers ws" and "p \<in> dom (map_of ws)"
  shows "group_inv items (make_group ops ws p)"
proof -
  have "gomap (group_weights ws p)" and ne: "group_weights ws p \<noteq> []"
    using assms(2,3) by (auto simp: grouped_def group_weights_def)
  moreover have pos: "\<forall>t\<in>dom (map_of (group_weights ws p)). 0 < mget0 (group_weights ws p) t"
    using grouped_weights_pos[OF assms(2)] by blast
  moreover have "sort (mkeys (group_weights ws p)) \<noteq> []"
    using ne by (metis length_sort length_map length_0_conv)
  ultimately show ?thesis
    using NewWeightedRRLoadBalance_items[OF assms(1) pos] by (simp add: group_inv_def gomap_def)
qed

lemma distinct_concat_groups:
  assumes "distinct ps" and "\<forall>p\<in>set ps. distinct (f p)" and "\<forall>p\<in>set ps. \<forall>t\<in>set (f p). pr t = p"
  shows "distinct (concat (map f ps))"
  using assms by (induction ps) fastforce+

lemma newPriorityGroups_grouped:
  assumes "gomap servers"
  obtains ws where "grouped priorities servers ws"
    and "newPriorityGroups ops servers priorities = map (make_group ops ws) (rev (sort (mkeys ws)))"
  by (rule that[OF grouped_foldl[OF assms] newPriorityGroups_alt[unfolded Let_def]])

lemma newPriorityGroups_inv:
  assumes "sw_laws ops items" and "gomap servers" and "'''' \<notin> dom (map_of servers)"
  shows "pool_inv items (newPriorityGroups ops servers priorities)"
proof -
  obtain ws where grp: "grouped priorities servers ws"
    and gs: "newPriorityGroups ops servers priorities = map (make_group ops ws) (rev (sort (mkeys ws)))"
    using newPriorityGroups_grouped[OF assms(2)] .
  have pr: "mget0 priorities t = p" if "t \<in> dom (map_of (group_weights ws p))" for p t
    using that by (auto simp: grouped_dom[OF grp] pool_weight_Some)
  have srv: "t \<in> dom (map_of servers)" if "t \<in> dom (map_of (group_weights ws p))" for p t
    using that by (auto simp: grouped_dom[OF grp] pool_weight_Some)
  have "distinct (concat (map (\<lambda>p. sort (mkeys (group_weights ws p))) (rev (sort (mkeys ws)))))"
  proof (rule distinct_concat_groups[where pr = "mget0 priorities"])
    show "distinct (rev (sort (mkeys ws)))"
      using grp by (simp add: grouped_def gomap_def)
    show "\<forall>p\<in>set (rev (sort (mkeys ws))). distinct (sort (mkeys (group_weights ws p)))"
      using grp by (simp add: grouped_def gomap_def)
    show "\<forall>p\<in>set (rev (sort (mkeys ws))).
        \<forall>t\<in>set (sort (mkeys (group_weights ws p))). mget0 priorities t = p"
      using pr by simp
  qed
  moreover have "'''' \<notin> dom (map_of (group_weights ws p))" for p
    using srv assms(3) by blast
  moreover have "group_inv items g" if "g \<in> set (newPriorityGroups ops servers priorities)" for g
    using that make_group_inv[OF assms(1) grp] by (auto simp: gs)
  ultimately show ?thesis
    by (simp add: pool_inv_def gs comp_def)
qed

lemma newPriorityGroups_subset:
  assumes "gomap servers"
  shows "set (concat (map pg_targets (newPriorityGroups ops servers priorities))) \<subseteq> dom (map_of servers)"
proof -
  obtain ws where grp: "grouped priorities servers ws"
    and gs: "newPriorityGroups ops servers priorities = map (make_group ops ws) (rev (sort (mkeys ws)))"
    using newPriorityGroups_grouped[OF assms] .
  then show ?thesis by (auto simp: grouped_dom[OF grp] pool_weight_Some)
qed

section \<open>Selection\<close>
definition eligible :: "string set \<Rightarrow> (string \<Rightarrow> bool) option \<Rightarrow> string \<Rightarrow> bool" where
  "eligible tried selectable t \<longleftrightarrow>
     t \<notin> tried \<and> (case selectable of None \<Rightarrow> True | Some p \<Rightarrow> p t)"

lemma untried_scan_spec:
  assumes "\<forall>t\<in>set ts. 0 < mget0 weights t \<and> t \<noteq> ''''"
    and "untried_scan weights tried selectable ts (b, bw, n) = (b', bw', n')"
    and "b = '''' \<longleftrightarrow> n = 0" and "b = '''' \<Longrightarrow> bw = 0"
  shows "n' = n + length (filter (eligible tried selectable) ts)
    \<and> (b' = '''' \<longleftrightarrow> n' = 0)
    \<and> (b' = b \<or> b' \<in> set ts \<and> eligible tried selectable b')"
  using assms
proof (induction ts arbitrary: b bw n)
  case Nil
  then show ?case by simp
next
  case (Cons t ts)
  show ?case
  proof (cases "eligible tried selectable t")
    case False
    with Cons.prems
    have "untried_scan weights tried selectable ts (b, bw, n) = (b', bw', n')"
      by (auto simp: eligible_def Let_def split: option.splits if_splits)
    with Cons.IH[of b bw n] Cons.prems False show ?thesis by auto
  next
    case True
    show ?thesis
    proof (cases "bw < mget0 weights t")
      case better: True
      with True Cons.prems
      have "untried_scan weights tried selectable ts (t, mget0 weights t, Suc n) = (b', bw', n')"
        by (auto simp: eligible_def Let_def split: option.splits)
      with Cons.IH[of t "mget0 weights t" "Suc n"] Cons.prems True show ?thesis by auto
    next
      case worse: False
      with True Cons.prems
      have "untried_scan weights tried selectable ts (b, bw, Suc n) = (b', bw', n')"
        by (auto simp: eligible_def Let_def split: option.splits)
      moreover have "b \<noteq> ''''"
        using worse Cons.prems by auto
      ultimately show ?thesis
        using Cons.IH[of b bw "Suc n"] Cons.prems True by auto
    qed
  qed
qed

text \<open>Two groups that differ in the state of their selector only.\<close>

definition same_group :: "'w priorityGroup \<Rightarrow> 'w priorityGroup \<Rightarrow> bool" where
  "same_group g g' \<longleftrightarrow> pg_priority g' = pg_priority g \<and> pg_targets g' = pg_targets g
     \<and> pg_weights g' = pg_weights g"

lemma same_group_refl [simp]: "same_group g g"
  by (simp add: same_group_def)

lemma group_select_spec:
  assumes "sw_laws ops items" and "group_inv items g" and "group_select ops g = (t, g')"
  shows "t \<in> set (pg_targets g)" and "group_inv items g'" and "same_group g g'"
proof -
  obtain w where w: "rr_Next ops (pg_selector g) = (t, w)" "g' = g\<lparr>pg_selector := w\<rparr>"
    using assms(3) by (auto simp: group_select_def split: prod.splits)
  have "items w = set (pg_targets g)"
    using rr_Next_items[OF assms(1) w(1)] assms(2) by (simp add: group_inv_def)
  then show "group_inv items g'" and "same_group g g'"
    using assms(2) by (auto simp: w(2) group_inv_def same_group_def)
  have "items (pg_selector g) = set (pg_targets g)" "set (pg_targets g) \<noteq> {}"
    using assms(2) by (auto simp: group_inv_def)
  then show "t \<in> set (pg_targets g)"
    using rr_Next_mem[OF assms(1) w(1)] by simp
qed

lemma group_nextUntried_spec:
  assumes laws: "sw_laws ops items" and inv: "group_inv items g" and ne: "'''' \<notin> set (pg_targets g)"
    and run: "group_nextUntried ops tried selectable g = (t, g')"
  shows "group_inv items g' \<and> same_group g g'
    \<and> (if \<exists>u\<in>set (pg_targets g). eligible tried selectable u
       then t \<in> set (pg_targets g) \<and> eligible tried selectable t else t = '''')"
proof -
  obtain b bw n where scan:
    "untried_scan (pg_weights g) tried selectable (pg_targets g) ('''', 0, 0) = (b, bw, n)"
    by (metis prod_cases3)
  have pos: "\<forall>t\<in>set (pg_targets g). 0 < mget0 (pg_weights g) t \<and> t \<noteq> ''''"
    using inv ne by (auto simp: group_inv_def)
  have n: "n = length (filter (eligible tried selectable) (pg_targets g))"
    and b: "b = '''' \<longleftrightarrow> n = 0" "b = '''' \<or> b \<in> set (pg_targets g) \<and> eligible tried selectable b"
    using untried_scan_spec[OF pos scan] by auto
  have targets: "pg_targets g \<noteq> []"
    using inv by (simp add: group_inv_def)
  show ?thesis
  proof (cases "\<forall>u\<in>set (pg_targets g). eligible tried selectable u")
    case True
    then have "n = length (pg_targets g)" using n by simp
    then have "group_select ops g = (t, g')"
      using run targets scan by (auto simp: group_nextUntried_def split: if_splits)
    from group_select_spec[OF laws inv this] True targets show ?thesis by auto
  next
    case False
    then obtain u where u: "u \<in> set (pg_targets g)" "\<not> eligible tried selectable u" by blast
    have "n < length (pg_targets g)"
      unfolding n using u by (rule length_filter_less)
    moreover have "\<not> (tried = {} \<and> Option.is_none selectable)"
      using u(2) by (cases selectable) (auto simp: eligible_def)
    ultimately have tg: "t = b" "g' = g"
      using run targets scan by (cases "tried = {}"; auto simp: group_nextUntried_def)+
    have "n = 0 \<longleftrightarrow> \<not> (\<exists>u\<in>set (pg_targets g). eligible tried selectable u)"
      unfolding n by (simp add: filter_empty_conv)
    then show ?thesis
      using b inv by (cases "n = 0") (simp_all add: tg)
  qed
qed

text \<open>
  \<open>picks_first tss P t\<close>: \<open>t\<close> satisfies \<open>P\<close> and lies in the first of the target lists that has
  such a target.
\<close>

fun picks_first :: "string list list \<Rightarrow> (string \<Rightarrow> bool) \<Rightarrow> string \<Rightarrow> bool" where
  "picks_first [] P t = False"
| "picks_first (ts # tss) P t =
     (if list_ex P ts then t \<in> set ts \<and> P t else picks_first tss P t)"

lemma picks_firstD: "picks_first tss P t \<Longrightarrow> t \<in> set (concat tss) \<and> P t"
  by (induction tss) (auto split: if_splits)


lemma picks_first_cong:
  "(\<And>u. u \<in> set (concat tss) \<Longrightarrow> P u = Q u) \<Longrightarrow> picks_first tss P t = picks_first tss Q t"
  by (induction tss) (auto simp: list_ex_iff)

lemma list_ex_True: "xs \<noteq> [] \<Longrightarrow> list_ex (\<lambda>_. True) xs"
  by (cases xs) auto

lemma groups_nextUntried_spec:
  assumes laws: "sw_laws ops items" and inv: "pool_inv items gs"
    and run: "groups_nextUntried ops tried selectable gs = (t, gs')"
  shows "pool_inv items gs' \<and> list_all2 same_group gs gs'
    \<and> (if list_ex (eligible tried selectable) (concat (map pg_targets gs))
       then picks_first (map pg_targets gs) (eligible tried selectable) t else t = '''')"
  using inv run
proof (induction gs arbitrary: t gs')
  case Nil
  then show ?case by simp
next
  case (Cons g gs)
  obtain u g' where g: "group_nextUntried ops tried selectable g = (u, g')"
    by fastforce
  have head: "group_inv items g" "'''' \<notin> set (pg_targets g)" and tail: "pool_inv items gs"
    using Cons.prems(1) by (auto simp: pool_inv_def)
  note one = group_nextUntried_spec[OF laws head g]
  have same: "pg_targets g' = pg_targets g"
    using one by (simp add: same_group_def)
  show ?case
  proof (cases "u = ''''")
    case False
    then have "t = u" "gs' = g' # gs"
      using Cons.prems(2) g by auto
    moreover have "list_ex (eligible tried selectable) (pg_targets g)"
      using one False by (auto simp: list_ex_iff split: if_splits)
    ultimately show ?thesis
      using one Cons.prems(1) same
      by (auto simp: pool_inv_def list_all2_refl list_ex_iff split: if_splits)
  next
    case True
    obtain u' gs1 where rest: "groups_nextUntried ops tried selectable gs = (u', gs1)"
      by fastforce
    then have tg: "t = u'" "gs' = g' # gs1"
      using Cons.prems(2) g True by auto
    have none: "\<not> list_ex (eligible tried selectable) (pg_targets g)"
      using one True head(2) by (auto simp: list_ex_iff split: if_splits)
    note IH = Cons.IH[OF tail rest]
    have "map pg_targets gs1 = map pg_targets gs"
      using IH by (auto simp: list_all2_conv_all_nth same_group_def intro: nth_equalityI)
    then show ?thesis
      using IH one same none Cons.prems(1)
      by (cases "list_ex (eligible tried selectable) (concat (map pg_targets gs))")
        (auto simp: tg pool_inv_def)
  qed
qed

lemma same_groups_targets: "list_all2 same_group gs gs' \<Longrightarrow> map pg_targets gs' = map pg_targets gs"
  by (auto simp: list_all2_conv_all_nth same_group_def intro: nth_equalityI)

section \<open>The attempts of one request\<close>

abbreviation pool_targets :: "'w priorityGroup list \<Rightarrow> string list" where
  "pool_targets gs \<equiv> concat (map pg_targets gs)"

text \<open>What a request has tried: the recorded targets and the one selected last.\<close>

definition attempted :: "priorityRequestState option \<Rightarrow> string set" where
  "attempted ctx =
     (let state = priorityStateForRequest ctx
      in prs_tried state \<union> (if prs_last state = '''' then {} else {prs_last state}))"

lemma attempted_None [simp]: "attempted None = {}"
  by (simp add: attempted_def priorityStateForRequest_def)

lemma attempted_record:
  "t \<noteq> '''' \<Longrightarrow> attempted (recordPriorityTargetAttempt ctx t) = insert t (attempted ctx)"
  by (auto simp: attempted_def recordPriorityTargetAttempt_def finishPreviousAttempt_def Let_def
      priorityStateForRequest_def)

lemma finishPreviousAttempt_sel:
  "prs_tried (finishPreviousAttempt (priorityStateForRequest ctx)) = attempted ctx"
  "prs_last (finishPreviousAttempt (priorityStateForRequest ctx)) = ''''"
  by (auto simp: attempted_def finishPreviousAttempt_def Let_def)

lemma eligible_None [simp]: "eligible T None = (\<lambda>u. u \<notin> T)"
  by (auto simp: eligible_def)

lemma plb_NextForRequest_spec:
  assumes laws: "sw_laws ops items" and inv: "pool_inv items gs" and ne: "gs \<noteq> []"
    and run: "plb_NextForRequest ops gs ctx = (t, gs', state)"
  shows "pool_inv items gs' \<and> map pg_targets gs' = map pg_targets gs
    \<and> (if set (pool_targets gs) \<subseteq> attempted ctx
       then picks_first (map pg_targets gs) (\<lambda>_. True) t \<and> attempted (Some state) = {t}
       else picks_first (map pg_targets gs) (\<lambda>u. u \<notin> attempted ctx) t
         \<and> attempted (Some state) = insert t (attempted ctx))"
proof -
  let ?P = "attempted ctx"
  let ?st = "finishPreviousAttempt (priorityStateForRequest ctx)"
  obtain t1 gs1 where r1: "groups_nextUntried ops ?P None gs = (t1, gs1)" by fastforce
  note s1 = groups_nextUntried_spec[OF laws inv r1, simplified]
  have tg1: "map pg_targets gs1 = map pg_targets gs"
    using s1 by (blast intro: same_groups_targets)
  have noblank: "'''' \<notin> set (pool_targets gs)"
    using inv by (simp add: pool_inv_def)
  show ?thesis
  proof (cases "set (pool_targets gs) \<subseteq> ?P")
    case False
    then have pick: "picks_first (map pg_targets gs) (\<lambda>u. u \<notin> ?P) t1"
      using s1 by (auto simp: list_ex_iff split: if_splits)
    then have "t1 \<noteq> ''''"
      using picks_firstD noblank by blast
    then have "t = t1" "gs' = gs1" "state = ?st\<lparr>prs_last := t1\<rparr>"
      using run by (auto simp: plb_NextForRequest_def Let_def finishPreviousAttempt_sel r1)
    with \<open>t1 \<noteq> ''''\<close> False pick s1 tg1 show ?thesis
      by (auto simp: attempted_def[of "Some _"] priorityStateForRequest_def[of "Some _"]
          finishPreviousAttempt_sel)
  next
    case True
    then have "t1 = ''''"
      using s1 by (auto simp: list_ex_iff split: if_splits)
    obtain t2 gs2 where r2: "groups_nextUntried ops {} None gs1 = (t2, gs2)" by fastforce
    have inv1: "pool_inv items gs1" using s1 by simp
    note s2 = groups_nextUntried_spec[OF laws inv1 r2, simplified]
    have tg2: "map pg_targets gs2 = map pg_targets gs"
      using s2 tg1 same_groups_targets by metis
    have "pool_targets gs1 \<noteq> []"
      using inv ne tg1 by (cases gs) (auto simp: pool_inv_def group_inv_def)
    then have "list_ex (\<lambda>_. True) (pool_targets gs1)"
      by (rule list_ex_True)
    then have pick: "picks_first (map pg_targets gs) (\<lambda>_. True) t2"
      using s2 tg1 by simp
    then have "t2 \<noteq> ''''"
      using picks_firstD noblank by blast
    moreover have "t = t2" "gs' = gs2" "state = ?st\<lparr>prs_tried := {}, prs_last := t2\<rparr>"
      using run \<open>t1 = ''''\<close>
      by (auto simp: plb_NextForRequest_def Let_def finishPreviousAttempt_sel r1 r2)
    ultimately show ?thesis
      using True pick s2 tg2
      by (auto simp: attempted_def[of "Some _"] priorityStateForRequest_def[of "Some _"])
  qed
qed

lemma plb_attempts_spec:
  assumes laws: "sw_laws ops items" and inv: "pool_inv items gs"
    and enough: "n \<le> card (set (pool_targets gs) - attempted ctx)"
    and run: "plb_attempts ops n gs ctx = (rs, gs', ctx')"
  shows "length rs = n \<and> distinct rs \<and> set rs \<subseteq> set (pool_targets gs) - attempted ctx
    \<and> (\<forall>i<n. picks_first (map pg_targets gs)
              (\<lambda>u. u \<notin> attempted ctx \<union> set (take i rs)) (rs ! i))"
  using inv enough run
proof (induction n arbitrary: gs ctx rs gs' ctx')
  case 0
  then show ?case by simp
next
  case (Suc n)
  let ?U = "set (pool_targets gs)" and ?P = "attempted ctx"
  have "?U - ?P \<noteq> {}"
    using Suc.prems(2) by (metis Suc_n_not_le_n card.empty le0 order.trans)
  then have "gs \<noteq> []" and sub: "\<not> ?U \<subseteq> ?P"
    by auto
  obtain t gs1 st where step: "plb_NextForRequest ops gs ctx = (t, gs1, st)"
    by (metis prod_cases3)
  obtain ts gs2 ctx2 where rest: "plb_attempts ops n gs1 (Some st) = (ts, gs2, ctx2)"
    by (metis prod_cases3)
  have rs: "rs = t # ts"
    using Suc.prems(3) step rest by simp
  note one = plb_NextForRequest_spec[OF laws Suc.prems(1) \<open>gs \<noteq> []\<close> step]
  have pick: "picks_first (map pg_targets gs) (\<lambda>u. u \<notin> ?P) t"
    and att: "attempted (Some st) = insert t ?P"
    and inv1: "pool_inv items gs1" and tg: "map pg_targets gs1 = map pg_targets gs"
    using one sub by auto
  have t: "t \<in> ?U - ?P"
    using picks_firstD[OF pick] by simp
  have "?U - insert t ?P = (?U - ?P) - {t}" by blast
  then have "card (?U - insert t ?P) = card (?U - ?P) - 1"
    using t by (simp add: card_Diff_singleton)
  then have "n \<le> card (set (pool_targets gs1) - attempted (Some st))"
    using Suc.prems(2) by (simp add: tg att)
  from Suc.IH[OF inv1 this rest]
  have IH: "length ts = n" "distinct ts" "set ts \<subseteq> ?U - insert t ?P"
    "\<forall>i<n. picks_first (map pg_targets gs) (\<lambda>u. u \<notin> insert t ?P \<union> set (take i ts)) (ts ! i)"
    by (simp_all add: tg att)
  have "picks_first (map pg_targets gs) (\<lambda>u. u \<notin> ?P \<union> set (take i rs)) (rs ! i)"
    if "i < Suc n" for i
    using that pick IH(4) by (cases i) (simp_all add: rs)
  then show ?case
    using IH(1-3) t by (auto simp: rs)
qed

section \<open>The interface \<open>LoadBalancer\<close>\<close>

definition single_Next :: "string \<Rightarrow> string \<times> string" where
  "single_Next server = (server, server)"

text \<open>A sequence of \<open>n\<close> calls of \<open>Next\<close>.\<close>

fun picks :: "('s \<Rightarrow> string \<times> 's) \<Rightarrow> nat \<Rightarrow> 's \<Rightarrow> string list \<times> 's" where
  "picks nxt 0 s = ([], s)"
| "picks nxt (Suc n) s =
     (let (t, s1) = nxt s; (ts, s2) = picks nxt n s1 in (t # ts, s2))"

text \<open>
  What a client of \<open>LoadBalancer\<close> relies on: \<open>Next\<close> returns a target of the pool, \<open>""\<close> when
  the pool is empty, and changes neither the pool nor the invariant.
\<close>

locale load_balancer =
  fixes nxt :: "'s \<Rightarrow> string \<times> 's"
    and pool :: "'s \<Rightarrow> string set"
    and invar :: "'s \<Rightarrow> bool"
  assumes next_invar: "invar s \<Longrightarrow> nxt s = (t, s') \<Longrightarrow> invar s'"
    and next_pool: "invar s \<Longrightarrow> nxt s = (t, s') \<Longrightarrow> pool s' = pool s"
    and next_mem: "invar s \<Longrightarrow> nxt s = (t, s') \<Longrightarrow> pool s \<noteq> {} \<Longrightarrow> t \<in> pool s"
    and next_empty: "invar s \<Longrightarrow> nxt s = (t, s') \<Longrightarrow> pool s = {} \<Longrightarrow> t = ''''"
begin

lemma picks_spec:
  assumes "invar s" and "pool s \<noteq> {}" and "picks nxt n s = (ts, s')"
  shows "length ts = n \<and> set ts \<subseteq> pool s \<and> invar s' \<and> pool s' = pool s"
  using assms
proof (induction n arbitrary: s ts s')
  case 0
  then show ?case by simp
next
  case (Suc n)
  obtain t s1 where step: "nxt s = (t, s1)" by fastforce
  obtain ts1 s2 where rest: "picks nxt n s1 = (ts1, s2)" by fastforce
  have "invar s1" and "pool s1 = pool s"
    using next_invar[OF Suc.prems(1) step] next_pool[OF Suc.prems(1) step] by auto
  with Suc.IH[of s1 ts1 s2] Suc.prems rest next_mem[OF Suc.prems(1) step] step
  show ?case by auto
qed

end

interpretation single: load_balancer single_Next "\<lambda>s. {s}" "\<lambda>_. True"
  by unfold_locales (auto simp: single_Next_def)

interpretation rr: load_balancer "rr_Next ops" items "\<lambda>_. sw_laws ops items" for ops items
  by unfold_locales (auto dest: rr_Next_items rr_Next_mem rr_Next_empty)

lemma plb_Next_spec:
  assumes laws: "sw_laws ops items" and inv: "pool_inv items gs" and run: "plb_Next ops gs = (t, gs')"
  shows "pool_inv items gs' \<and> map pg_targets gs' = map pg_targets gs
    \<and> (case gs of [] \<Rightarrow> t = '''' | g # _ \<Rightarrow> t \<in> set (pg_targets g))"
proof (cases gs)
  case Nil
  then show ?thesis using inv run by (simp add: plb_Next_def)
next
  case (Cons g rest)
  obtain g' where sel: "group_select ops g = (t, g')" "gs' = g' # rest"
    using run by (auto simp: plb_Next_def Cons split: prod.splits)
  have "group_inv items g" using inv by (simp add: pool_inv_def Cons)
  from group_select_spec[OF laws this sel(1)] inv show ?thesis
    by (auto simp: Cons sel(2) pool_inv_def same_group_def)
qed

text \<open>Without a request the priority balancer draws from its first group.\<close>

definition first_targets :: "'w priorityGroup list \<Rightarrow> string set" where
  "first_targets gs = (case gs of [] \<Rightarrow> {} | g # _ \<Rightarrow> set (pg_targets g))"

lemma first_targets_cong: "map pg_targets gs' = map pg_targets gs \<Longrightarrow> first_targets gs' = first_targets gs"
  by (cases gs; cases gs') (auto simp: first_targets_def)

interpretation plb: load_balancer "plb_Next ops" first_targets
  "\<lambda>gs. sw_laws ops items \<and> pool_inv items gs" for ops items
proof unfold_locales
  fix gs t gs'
  assume "sw_laws ops items \<and> pool_inv items gs" and "plb_Next ops gs = (t, gs')"
  then have spec: "pool_inv items gs' \<and> map pg_targets gs' = map pg_targets gs
    \<and> (case gs of [] \<Rightarrow> t = '''' | g # _ \<Rightarrow> t \<in> set (pg_targets g))"
    and inv: "sw_laws ops items" "pool_inv items gs"
    using plb_Next_spec by blast+
  show "sw_laws ops items \<and> pool_inv items gs'" and "first_targets gs' = first_targets gs"
    using spec inv first_targets_cong by blast+
  show "t \<in> first_targets gs" if "first_targets gs \<noteq> {}"
    using that spec by (auto simp: first_targets_def split: list.splits)
  show "t = ''''" if "first_targets gs = {}"
    using that spec inv by (auto simp: first_targets_def pool_inv_def group_inv_def split: list.splits)
qed

section \<open>A selector that meets the documented laws\<close>

text \<open>
  Smooth weighted round robin over \<open>(item, weight, current)\<close>: each call adds every weight to its
  current value, takes the first item with the largest current value and charges it the total.
\<close>

type_synonym smooth = "(string \<times> int \<times> int) list"

fun smooth_best :: "smooth \<Rightarrow> (string \<times> int) option \<Rightarrow> (string \<times> int) option" where
  "smooth_best [] best = best"
| "smooth_best ((s, w, c) # xs) best =
     smooth_best xs (case best of None \<Rightarrow> Some (s, c)
        | Some (b, bc) \<Rightarrow> if bc < c then Some (s, c) else Some (b, bc))"

definition smooth_next :: "smooth \<Rightarrow> string option \<times> smooth" where
  "smooth_next xs =
     (let ys = map (\<lambda>(s, w, c). (s, w, c + w)) xs; total = sum_list (map (\<lambda>(s, w, c). w) xs)
      in case smooth_best ys None of
           None \<Rightarrow> (None, ys)
         | Some (b, _) \<Rightarrow>
             (Some b, map (\<lambda>(s, w, c). if s = b then (s, w, c - total) else (s, w, c)) ys))"

definition smooth_ops :: "smooth sw_ops" where
  "smooth_ops = \<lparr>sw_new = [], sw_add = (\<lambda>xs s n. xs @ [(s, n, 0)]), sw_next = smooth_next\<rparr>"

definition smooth_items :: "smooth \<Rightarrow> string set" where
  "smooth_items xs = set (map fst xs)"

lemma smooth_items_simps [simp]:
  "smooth_items [] = {}"
  "smooth_items (x # xs) = insert (fst x) (smooth_items xs)"
  "smooth_items (xs @ ys) = smooth_items xs \<union> smooth_items ys"
  by (simp_all add: smooth_items_def del: image_fst_dom)

lemma smooth_best_mem:
  "smooth_best xs best = Some (b, c) \<Longrightarrow> best = Some (b, c) \<or> b \<in> smooth_items xs"
  by (induction xs best rule: smooth_best.induct) (auto split: option.splits if_splits)

lemma smooth_best_Some: "xs \<noteq> [] \<or> best \<noteq> None \<Longrightarrow> \<exists>b c. smooth_best xs best = Some (b, c)"
  by (induction xs best rule: smooth_best.induct) (auto split: option.splits)

lemma smooth_items_map:
  "(\<And>x. fst (f x) = fst x) \<Longrightarrow> smooth_items (map f xs) = smooth_items xs"
  by (induction xs) simp_all

lemma smooth_next_items: "smooth_items (snd (smooth_next xs)) = smooth_items xs"
  by (simp add: smooth_next_def Let_def smooth_items_map split_beta split: option.splits)

lemma smooth_next_Nil: "smooth_next [] = (None, [])"
  by (simp add: smooth_next_def)

lemma smooth_next_mem:
  assumes "xs \<noteq> []"
  shows "\<exists>s\<in>smooth_items xs. fst (smooth_next xs) = Some s"
proof -
  let ?ys = "map (\<lambda>(s, w, c). (s, w, c + w)) xs"
  obtain b c where b: "smooth_best ?ys None = Some (b, c)"
    using smooth_best_Some[of ?ys None] assms by auto
  then have "b \<in> smooth_items ?ys"
    using smooth_best_mem by fastforce
  then have "b \<in> smooth_items xs"
    by (simp add: smooth_items_map split_beta)
  then show ?thesis
    using b by (simp add: smooth_next_def Let_def)
qed

lemma smooth_items_Nil_iff: "smooth_items xs = {} \<longleftrightarrow> xs = []"
  by (cases xs) simp_all

lemma smooth_laws: "sw_laws smooth_ops smooth_items"
  unfolding sw_laws_def smooth_ops_def sw_ops.simps
  by (simp add: smooth_next_items smooth_next_mem smooth_next_Nil smooth_items_Nil_iff)

section \<open>Properties\<close>

text \<open>C1. The groups of a pool. For every map of servers, \<open>newPriorityGroups\<close> returns groups in
  strictly falling priority. The group of a priority holds exactly the servers with that priority
  and a positive weight, each with its weight, its target list is sorted and free of duplicates,
  no group is empty, and every server with a positive weight is in a group.\<close>

theorem newPriorityGroups_partition:
  assumes "gomap servers"
  shows "sorted_wrt (>) (map pg_priority (newPriorityGroups ops servers priorities))
    \<and> (\<forall>g\<in>set (newPriorityGroups ops servers priorities).
         pg_targets g \<noteq> [] \<and> sorted (pg_targets g) \<and> distinct (pg_targets g)
       \<and> set (pg_targets g) = dom (map_of (pg_weights g))
       \<and> (\<forall>t w. map_of (pg_weights g) t = Some w \<longleftrightarrow>
              map_of servers t = Some w \<and> 0 < w \<and> mget0 priorities t = pg_priority g))
    \<and> (\<forall>t w. map_of servers t = Some w \<longrightarrow> 0 < w \<longrightarrow>
         (\<exists>g\<in>set (newPriorityGroups ops servers priorities). t \<in> set (pg_targets g)))"
proof -
  obtain ws where grp: "grouped priorities servers ws"
    and gs: "newPriorityGroups ops servers priorities = map (make_group ops ws) (rev (sort (mkeys ws)))"
    using newPriorityGroups_grouped[OF assms] .
  have "distinct (mkeys ws)" using grp by (simp add: grouped_def gomap_def)
  then have prio: "sorted_wrt (>) (map pg_priority (newPriorityGroups ops servers priorities))"
    by (simp add: gs comp_def sorted_wrt_rev strict_sorted_iff)
  have group: "pg_targets g \<noteq> [] \<and> sorted (pg_targets g) \<and> distinct (pg_targets g)
       \<and> set (pg_targets g) = dom (map_of (pg_weights g))
       \<and> (\<forall>t w. map_of (pg_weights g) t = Some w \<longleftrightarrow>
              map_of servers t = Some w \<and> 0 < w \<and> mget0 priorities t = pg_priority g)"
    if "g \<in> set (newPriorityGroups ops servers priorities)" for g
  proof -
    obtain p where p: "g = make_group ops ws p" "p \<in> dom (map_of ws)"
      using \<open>g \<in> _\<close> by (auto simp: gs)
    have "group_weights ws p \<noteq> []"
      using grp p(2) by (auto simp: grouped_def group_weights_def)
    then have "sort (mkeys (group_weights ws p)) \<noteq> []"
      by (metis length_sort length_map length_0_conv)
    then show ?thesis
      using grp by (simp add: p(1) grouped_def gomap_def pool_weight_Some)
  qed
  have "\<exists>g\<in>set (newPriorityGroups ops servers priorities). t \<in> set (pg_targets g)"
    if "map_of servers t = Some w" "0 < w" for t w
  proof -
    have dom: "t \<in> dom (map_of (group_weights ws (mget0 priorities t)))"
      using that by (simp add: grouped_dom[OF grp] domIff pool_weight_def)
    then have "mget0 priorities t \<in> dom (map_of ws)"
      by (auto simp: group_weights_def split: option.splits)
    with dom show ?thesis by (auto simp: gs)
  qed
  with prio group show ?thesis by blast
qed

lemma newPriorityGroups_partition_witness:
  "gomap [(''a'', 1), (''b'', 0), (''c'', 2::int)]
   \<and> (\<exists>g\<in>set (newPriorityGroups smooth_ops [(''a'', 1), (''b'', 0), (''c'', 2)] [(''c'', 7)]).
        ''c'' \<in> set (pg_targets g))
   \<and> map (\<lambda>g. (pg_priority g, pg_targets g))
        (newPriorityGroups smooth_ops [(''a'', 1), (''b'', 0), (''c'', 2)] [(''c'', 7)])
      = [(7, [''c'']), (0, [''a''])]"
proof -
  have h: "gomap [(''a'', 1), (''b'', 0), (''c'', 2::int)]"
    by (simp add: gomap_def)
  have "map (\<lambda>g. (pg_priority g, pg_targets g))
        (newPriorityGroups smooth_ops [(''a'', 1), (''b'', 0), (''c'', 2)] [(''c'', 7)])
      = [(7, [''c'']), (0, [''a''])]"
    by code_simp
  moreover have "map_of [(''a'', 1), (''b'', 0), (''c'', 2::int)] ''c'' = Some 2" "0 < (2::int)" by simp_all
  ultimately show ?thesis
    using h newPriorityGroups_partition[OF h, of smooth_ops "[(''c'', 7)]"] by blast
qed

text \<open>C2. Retries of one request. Starting from a request that has tried nothing, as many
  selections as the pool has targets give pairwise different targets, and every selection comes
  from the highest priority that still has an untried target: a lower priority is used only after
  every target of the higher ones has been tried.\<close>

theorem request_attempts_distinct:
  assumes "sw_laws ops items" and "gomap servers" and "'''' \<notin> dom (map_of servers)"
    and "n \<le> length (pool_targets (newPriorityGroups ops servers priorities))"
    and "plb_attempts ops n (newPriorityGroups ops servers priorities) None = (rs, gs', ctx)"
  shows "length rs = n \<and> distinct rs
    \<and> set rs \<subseteq> set (pool_targets (newPriorityGroups ops servers priorities))
    \<and> (\<forall>i<n. picks_first (map pg_targets (newPriorityGroups ops servers priorities))
                (\<lambda>u. u \<notin> set (take i rs)) (rs ! i))"
proof -
  have inv: "pool_inv items (newPriorityGroups ops servers priorities)"
    by (rule newPriorityGroups_inv[OF assms(1-3)])
  then have "distinct (pool_targets (newPriorityGroups ops servers priorities))"
    by (simp add: pool_inv_def)
  then have "n \<le> card (set (pool_targets (newPriorityGroups ops servers priorities)) - attempted None)"
    using assms(4) by (simp only: distinct_card attempted_None Diff_empty)
  from plb_attempts_spec[OF assms(1) inv this assms(5)] show ?thesis by simp
qed

lemma request_attempts_distinct_witness:
  "length (fst (plb_attempts smooth_ops 2
      (newPriorityGroups smooth_ops [(''a'', 1), (''c'', 2)] [(''c'', 7)]) None)) = 2
   \<and> distinct (fst (plb_attempts smooth_ops 2
      (newPriorityGroups smooth_ops [(''a'', 1), (''c'', 2)] [(''c'', 7)]) None))
   \<and> fst (plb_attempts smooth_ops 2
      (newPriorityGroups smooth_ops [(''a'', 1), (''c'', 2)] [(''c'', 7)]) None) = [''c'', ''a'']"
proof -
  let ?servers = "[(''a'', 1), (''c'', 2::int)]" and ?prio = "[(''c'', 7::int)]"
  have h: "gomap ?servers" "'''' \<notin> dom (map_of ?servers)"
    by (simp_all add: gomap_def)
  have n: "2 \<le> length (pool_targets (newPriorityGroups smooth_ops ?servers ?prio))"
    by code_simp
  have run: "fst (plb_attempts smooth_ops 2 (newPriorityGroups smooth_ops ?servers ?prio) None)
      = [''c'', ''a'']"
    by code_simp
  obtain rs gs' ctx where r:
    "plb_attempts smooth_ops 2 (newPriorityGroups smooth_ops ?servers ?prio) None = (rs, gs', ctx)"
    by (metis prod_cases3)
  from request_attempts_distinct[OF smooth_laws h n r] run show ?thesis
    unfolding r fst_conv by blast
qed

end
