(* ===== verification/Health_Config.thy ===== *)
theory Health_Config
  imports Go_Prelude
begin

text \<open>
  The health-check configuration of an upstream, as \<open>pkg/proxy/health.go\<close> and
  \<open>pkg/proxy/active_health.go\<close> parse it from the decoded \<open>checks\<close> object: the numeric and
  status-set helpers, the passive block with its defaults and the active block with its
  defaults. Every error return of the source is a constructor of \<open>check_error\<close> that carries the
  field the message names.
\<close>

datatype check_error =
    NotObject string
  | NotArray string
  | NotInteger string
  | OutOfRange string
  | Negative string
  | BadStatus string int
  | NotString string
  | NotBoolean string
  | UnsupportedType string string
  | EmptyField string
  | NotPositive string

section \<open>Helpers\<close>

definition healthMap :: "goany \<Rightarrow> string \<Rightarrow> (check_error, (string, goany) gomap) result" where
  "healthMap value field = (case value of AMap m \<Rightarrow> Inr m | _ \<Rightarrow> Inl (NotObject field))"

definition nonNegative :: "int \<Rightarrow> string \<Rightarrow> (check_error, int) result" where
  "nonNegative result field = (if result < 0 then Inl (Negative field) else Inr result)"

text \<open>\<open>AInt\<close> stands for every signed kind and the unsigned kinds below 64 bits, whose conversion to
  \<open>int\<close> keeps the value; \<open>int(uint)\<close> wraps.\<close>

definition nonNegativeInt :: "goany \<Rightarrow> string \<Rightarrow> (check_error, int) result" where
  "nonNegativeInt value field =
     (case value of
        AInt typed \<Rightarrow> nonNegative typed field
      | AUint typed \<Rightarrow> nonNegative (wrap64 typed) field
      | AUint64 typed \<Rightarrow>
          if max_int64 < typed then Inl (OutOfRange field) else nonNegative typed field
      | AFloat typed \<Rightarrow>
          let result = int_of_float typed
          in if \<not> float_is_int result typed then Inl (NotInteger field)
             else nonNegative result field
      | _ \<Rightarrow> Inl (NotInteger field))"

fun status_loop :: "string \<Rightarrow> goany list \<Rightarrow> int set \<Rightarrow> (check_error, int set) result" where
  "status_loop field [] acc = Inr acc"
| "status_loop field (item # items) acc =
     res_bind (nonNegativeInt item field) (\<lambda>status.
       if status < 100 \<or> 599 < status then Inl (BadStatus field status)
       else status_loop field items (insert status acc))"

definition parseStatusSet :: "goany \<Rightarrow> string \<Rightarrow> (check_error, int set) result" where
  "parseStatusSet value field =
     (case value of
        AList values \<Rightarrow> status_loop field values {}
      | AInts ints \<Rightarrow> status_loop field (map AInt ints) {}
      | _ \<Rightarrow> Inl (NotArray field))"

definition defaultHealthyStatuses :: "int set" where
  "defaultHealthyStatuses = set ([200..208] @ [226] @ [300..308])"

text \<open>A key that is present and not nil, and one that is present.\<close>

definition present :: "(string, goany) gomap \<Rightarrow> string \<Rightarrow> goany option" where
  "present m key = (case map_of m key of Some ANil \<Rightarrow> None | v \<Rightarrow> v)"

definition parse_opt ::
  "(string, goany) gomap \<Rightarrow> string \<Rightarrow> (goany \<Rightarrow> (check_error, 'a) result) \<Rightarrow> 'a
     \<Rightarrow> (check_error, 'a) result" where
  "parse_opt m key parse dflt = (case map_of m key of None \<Rightarrow> Inr dflt | Some v \<Rightarrow> parse v)"

section \<open>The passive block\<close>

record PassiveHealthConfig =
  phc_Type :: string
  phc_HealthyStatuses :: "int set"
  phc_UnhealthyStatuses :: "int set"
  phc_HealthySuccesses :: int
  phc_HTTPFailures :: int
  phc_TCPFailures :: int
  phc_Timeouts :: int

definition passive_defaults :: PassiveHealthConfig where
  "passive_defaults =
     \<lparr>phc_Type = ''http'', phc_HealthyStatuses = defaultHealthyStatuses,
      phc_UnhealthyStatuses = {429, 500, 503}, phc_HealthySuccesses = 5,
      phc_HTTPFailures = 5, phc_TCPFailures = 2, phc_Timeouts = 7\<rparr>"

definition passive_healthy ::
  "(string, goany) gomap \<Rightarrow> PassiveHealthConfig \<Rightarrow> (check_error, PassiveHealthConfig) result" where
  "passive_healthy passiveMap config =
     (case present passiveMap ''healthy'' of None \<Rightarrow> Inr config
      | Some rawHealthy \<Rightarrow>
          res_bind (healthMap rawHealthy ''checks.passive.healthy'') (\<lambda>healthy.
          res_bind (parse_opt healthy ''http_statuses''
              (\<lambda>v. parseStatusSet v ''checks.passive.healthy.http_statuses'')
              (phc_HealthyStatuses config)) (\<lambda>statuses.
          res_bind (parse_opt healthy ''successes''
              (\<lambda>v. nonNegativeInt v ''checks.passive.healthy.successes'')
              (phc_HealthySuccesses config)) (\<lambda>successes.
            Inr (config\<lparr>phc_HealthyStatuses := statuses, phc_HealthySuccesses := successes\<rparr>)))))"

definition passive_unhealthy ::
  "(string, goany) gomap \<Rightarrow> PassiveHealthConfig \<Rightarrow> (check_error, PassiveHealthConfig) result" where
  "passive_unhealthy passiveMap config =
     (case present passiveMap ''unhealthy'' of None \<Rightarrow> Inr config
      | Some rawUnhealthy \<Rightarrow>
          res_bind (healthMap rawUnhealthy ''checks.passive.unhealthy'') (\<lambda>unhealthy.
          res_bind (parse_opt unhealthy ''http_statuses''
              (\<lambda>v. parseStatusSet v ''checks.passive.unhealthy.http_statuses'')
              (phc_UnhealthyStatuses config)) (\<lambda>statuses.
          res_bind (parse_opt unhealthy ''http_failures''
              (\<lambda>v. nonNegativeInt v ''checks.passive.unhealthy.http_failures'')
              (phc_HTTPFailures config)) (\<lambda>http.
          res_bind (parse_opt unhealthy ''tcp_failures''
              (\<lambda>v. nonNegativeInt v ''checks.passive.unhealthy.tcp_failures'')
              (phc_TCPFailures config)) (\<lambda>tcp.
          res_bind (parse_opt unhealthy ''timeouts''
              (\<lambda>v. nonNegativeInt v ''checks.passive.unhealthy.timeouts'')
              (phc_Timeouts config)) (\<lambda>timeouts.
            Inr (config\<lparr>phc_UnhealthyStatuses := statuses, phc_HTTPFailures := http,
                        phc_TCPFailures := tcp, phc_Timeouts := timeouts\<rparr>)))))))"

text \<open>\<open>None\<close> is a nil \<open>checks\<close> map.\<close>

definition parsePassiveHealthConfig ::
  "(string, goany) gomap option \<Rightarrow> (check_error, PassiveHealthConfig) result" where
  "parsePassiveHealthConfig checks =
     (case checks of None \<Rightarrow> Inr passive_defaults
      | Some m \<Rightarrow>
        (case present m ''passive'' of None \<Rightarrow> Inr passive_defaults
         | Some passive \<Rightarrow>
            res_bind (healthMap passive ''checks.passive'') (\<lambda>passiveMap.
            res_bind (parse_opt passiveMap ''type''
                (\<lambda>v. case v of AString s \<Rightarrow> Inr (ToLower s)
                   | _ \<Rightarrow> Inl (NotString ''checks.passive.type''))
                (phc_Type passive_defaults)) (\<lambda>typ.
              if typ \<noteq> ''http'' \<and> typ \<noteq> ''https'' \<and> typ \<noteq> ''tcp''
              then Inl (UnsupportedType ''checks.passive.type'' typ)
              else res_bind (passive_healthy passiveMap (passive_defaults\<lparr>phc_Type := typ\<rparr>)) (\<lambda>config.
                   passive_unhealthy passiveMap config)))))"

section \<open>The active block\<close>

text \<open>The product of a count with \<open>time.Second\<close> wraps.\<close>

definition seconds :: "int \<Rightarrow> int" where
  "seconds n = wrap64 (n * second)"

record ActiveHealthConfig =
  ahc_Type :: string
  ahc_HTTPPath :: string
  ahc_Host :: string
  ahc_Timeout :: int
  ahc_Concurrency :: int
  ahc_HealthyInterval :: int
  ahc_UnhealthyInterval :: int
  ahc_HealthySuccesses :: int
  ahc_UnhealthyHTTPFails :: int
  ahc_UnhealthyTCPFails :: int
  ahc_UnhealthyTimeouts :: int
  ahc_HealthyStatuses :: "int set"
  ahc_UnhealthyStatuses :: "int set"
  ahc_HTTPSVerifyCertificate :: bool

definition defaultActiveHealthyStatuses :: "int set" where
  "defaultActiveHealthyStatuses = {200, 302}"

definition active_defaults :: ActiveHealthConfig where
  "active_defaults =
     \<lparr>ahc_Type = ''http'', ahc_HTTPPath = ''/'', ahc_Host = '''', ahc_Timeout = second,
      ahc_Concurrency = 10, ahc_HealthyInterval = second, ahc_UnhealthyInterval = second,
      ahc_HealthySuccesses = 2, ahc_UnhealthyHTTPFails = 5, ahc_UnhealthyTCPFails = 2,
      ahc_UnhealthyTimeouts = 3, ahc_HealthyStatuses = defaultActiveHealthyStatuses,
      ahc_UnhealthyStatuses = {429, 500, 503}, ahc_HTTPSVerifyCertificate = False\<rparr>"

definition string_field :: "string \<Rightarrow> goany \<Rightarrow> (check_error, string) result" where
  "string_field field v = (case v of AString s \<Rightarrow> Inr s | _ \<Rightarrow> Inl (NotString field))"

definition bool_field :: "string \<Rightarrow> goany \<Rightarrow> (check_error, bool) result" where
  "bool_field field v = (case v of ABool b \<Rightarrow> Inr b | _ \<Rightarrow> Inl (NotBoolean field))"

definition seconds_field :: "string \<Rightarrow> goany \<Rightarrow> (check_error, int) result" where
  "seconds_field field v = res_bind (nonNegativeInt v field) (\<lambda>n. Inr (seconds n))"

definition require :: "bool \<Rightarrow> check_error \<Rightarrow> (check_error, unit) result" where
  "require ok e = (if ok then Inr () else Inl e)"

text \<open>Lines up to the concurrency check: type, certificate flag, strings, timeout, concurrency.\<close>

definition active_head ::
  "(string, goany) gomap \<Rightarrow> (check_error, ActiveHealthConfig) result" where
  "active_head active =
     res_bind (parse_opt active ''type''
         (\<lambda>v. case v of AString s \<Rightarrow> Inr (ToLower s) | _ \<Rightarrow> Inl (NotString ''checks.active.type''))
         ''http'') (\<lambda>typ.
     res_bind (require (typ = ''http'' \<or> typ = ''https'')
         (UnsupportedType ''checks.active.type'' typ)) (\<lambda>_.
     res_bind (parse_opt active ''https_verify_certificate''
         (bool_field ''checks.active.https_verify_certificate'') (typ = ''https'')) (\<lambda>verify.
     res_bind (parse_opt active ''http_path'' (string_field ''checks.active.http_path'') ''/'') (\<lambda>path.
     res_bind (parse_opt active ''host'' (string_field ''checks.active.host'') '''') (\<lambda>host.
     res_bind (require (path \<noteq> '''') (EmptyField ''checks.active.http_path'')) (\<lambda>_.
     res_bind (parse_opt active ''timeout'' (seconds_field ''checks.active.timeout'') second) (\<lambda>timeout.
     res_bind (require (0 < timeout) (NotPositive ''checks.active.timeout'')) (\<lambda>_.
     res_bind (parse_opt active ''concurrency''
         (\<lambda>v. nonNegativeInt v ''checks.active.concurrency'') 10) (\<lambda>concurrency.
     res_bind (require (0 < concurrency) (NotPositive ''checks.active.concurrency'')) (\<lambda>_.
       Inr (active_defaults\<lparr>ahc_Type := typ, ahc_HTTPSVerifyCertificate := verify,
              ahc_HTTPPath := path, ahc_Host := host, ahc_Timeout := timeout,
              ahc_Concurrency := concurrency\<rparr>)))))))))))"

definition active_healthy ::
  "(string, goany) gomap \<Rightarrow> ActiveHealthConfig \<Rightarrow> (check_error, ActiveHealthConfig) result" where
  "active_healthy active config =
     (case present active ''healthy'' of None \<Rightarrow> Inr config
      | Some rawHealthy \<Rightarrow>
          res_bind (healthMap rawHealthy ''checks.active.healthy'') (\<lambda>healthy.
          res_bind (parse_opt healthy ''interval''
              (seconds_field ''checks.active.healthy.interval'') (ahc_HealthyInterval config)) (\<lambda>interval.
          res_bind (parse_opt healthy ''successes''
              (\<lambda>v. nonNegativeInt v ''checks.active.healthy.successes'')
              (ahc_HealthySuccesses config)) (\<lambda>successes.
          res_bind (parse_opt healthy ''http_statuses''
              (\<lambda>v. parseStatusSet v ''checks.active.healthy.http_statuses'')
              (ahc_HealthyStatuses config)) (\<lambda>statuses.
            Inr (config\<lparr>ahc_HealthyInterval := interval, ahc_HealthySuccesses := successes,
                        ahc_HealthyStatuses := statuses\<rparr>))))))"

definition active_unhealthy ::
  "(string, goany) gomap \<Rightarrow> ActiveHealthConfig \<Rightarrow> (check_error, ActiveHealthConfig) result" where
  "active_unhealthy active config =
     (case present active ''unhealthy'' of None \<Rightarrow> Inr config
      | Some rawUnhealthy \<Rightarrow>
          res_bind (healthMap rawUnhealthy ''checks.active.unhealthy'') (\<lambda>unhealthy.
          res_bind (parse_opt unhealthy ''interval''
              (seconds_field ''checks.active.unhealthy.interval'') (ahc_UnhealthyInterval config)) (\<lambda>interval.
          res_bind (parse_opt unhealthy ''http_failures''
              (\<lambda>v. nonNegativeInt v ''checks.active.unhealthy.http_failures'')
              (ahc_UnhealthyHTTPFails config)) (\<lambda>http.
          res_bind (parse_opt unhealthy ''tcp_failures''
              (\<lambda>v. nonNegativeInt v ''checks.active.unhealthy.tcp_failures'')
              (ahc_UnhealthyTCPFails config)) (\<lambda>tcp.
          res_bind (parse_opt unhealthy ''timeouts''
              (\<lambda>v. nonNegativeInt v ''checks.active.unhealthy.timeouts'')
              (ahc_UnhealthyTimeouts config)) (\<lambda>timeouts.
          res_bind (parse_opt unhealthy ''http_statuses''
              (\<lambda>v. parseStatusSet v ''checks.active.unhealthy.http_statuses'')
              (ahc_UnhealthyStatuses config)) (\<lambda>statuses.
            Inr (config\<lparr>ahc_UnhealthyInterval := interval, ahc_UnhealthyHTTPFails := http,
                        ahc_UnhealthyTCPFails := tcp, ahc_UnhealthyTimeouts := timeouts,
                        ahc_UnhealthyStatuses := statuses\<rparr>))))))))"

text \<open>\<open>Inr None\<close> is the disabled result, \<open>Inr (Some config)\<close> the enabled one.\<close>

definition ParseActiveHealthConfig ::
  "(string, goany) gomap option \<Rightarrow> (check_error, ActiveHealthConfig option) result" where
  "ParseActiveHealthConfig checks =
     (case checks of None \<Rightarrow> Inr None
      | Some m \<Rightarrow>
        (case present m ''active'' of None \<Rightarrow> Inr None
         | Some rawActive \<Rightarrow>
            res_bind (healthMap rawActive ''checks.active'') (\<lambda>active.
            res_bind (active_head active) (\<lambda>config.
            res_bind (active_healthy active config) (\<lambda>config.
            res_bind (require (0 < ahc_HealthyInterval config)
                (NotPositive ''checks.active.healthy.interval'')) (\<lambda>_.
            res_bind (active_unhealthy active config) (\<lambda>config.
            res_bind (require (0 < ahc_UnhealthyInterval config)
                (NotPositive ''checks.active.unhealthy.interval'')) (\<lambda>_.
            res_bind (require (0 < ahc_HealthySuccesses config)
                (NotPositive ''checks.active.healthy.successes'')) (\<lambda>_.
              Inr (Some config))))))))))"

section \<open>What a parsed configuration guarantees\<close>

definition status_ok :: "int set \<Rightarrow> bool" where
  "status_ok S \<longleftrightarrow> (\<forall>s\<in>S. 100 \<le> s \<and> s \<le> 599)"

lemma nonNegativeInt_ge0: "nonNegativeInt v field = Inr n \<Longrightarrow> 0 \<le> n"
  by (cases v) (simp_all add: nonNegativeInt_def nonNegative_def Let_def split: if_split_asm)

lemma status_loop_ok:
  "status_ok acc \<Longrightarrow> status_loop field items acc = Inr S \<Longrightarrow> status_ok S"
proof (induction items arbitrary: acc)
  case (Cons item items)
  then obtain status where
    step: "(if status < 100 \<or> 599 < status then Inl (BadStatus field status)
      else status_loop field items (insert status acc)) = Inr S"
    by (auto simp: res_bind_Inr_iff)
  then have "100 \<le> status" "status \<le> 599" and rest: "status_loop field items (insert status acc) = Inr S"
    by (simp_all split: if_split_asm)
  then have "status_ok (insert status acc)"
    using Cons.prems(1) by (simp add: status_ok_def)
  then show ?case using rest by (rule Cons.IH)
qed simp

lemma parseStatusSet_ok: "parseStatusSet v field = Inr S \<Longrightarrow> status_ok S"
  by (cases v) (simp_all add: parseStatusSet_def status_loop_ok[of "{}", unfolded status_ok_def[of "{}"]])

lemma parse_opt_P:
  assumes "parse_opt m key parse dflt = Inr v" and "P dflt" and "\<And>x w. parse x = Inr w \<Longrightarrow> P w"
  shows "P v"
  using assms by (auto simp: parse_opt_def split: option.splits)

lemmas parse_opt_nonneg = parse_opt_P[where P = "\<lambda>n. 0 \<le> n", OF _ _ nonNegativeInt_ge0]
lemmas parse_opt_status = parse_opt_P[where P = status_ok, OF _ _ parseStatusSet_ok]

lemma require_Inr [simp]: "require ok e = Inr u \<longleftrightarrow> ok"
  by (simp add: require_def)

definition passive_ok :: "PassiveHealthConfig \<Rightarrow> bool" where
  "passive_ok c \<longleftrightarrow> status_ok (phc_HealthyStatuses c) \<and> status_ok (phc_UnhealthyStatuses c)
     \<and> 0 \<le> phc_HealthySuccesses c \<and> 0 \<le> phc_HTTPFailures c \<and> 0 \<le> phc_TCPFailures c
     \<and> 0 \<le> phc_Timeouts c"

lemma passive_defaults_ok: "passive_ok passive_defaults"
  by (auto simp: passive_ok_def passive_defaults_def status_ok_def defaultHealthyStatuses_def)

lemma passive_healthy_ok:
  assumes "passive_ok c" and "passive_healthy m c = Inr c'"
  shows "passive_ok c' \<and> phc_Type c' = phc_Type c"
proof (cases "present m ''healthy''")
  case None
  then show ?thesis using assms by (simp add: passive_healthy_def)
next
  case (Some v)
  then obtain hm statuses successes where
    p: "parse_opt hm ''http_statuses''
        (\<lambda>v. parseStatusSet v ''checks.passive.healthy.http_statuses'')
        (phc_HealthyStatuses c) = Inr statuses"
      "parse_opt hm ''successes'' (\<lambda>v. nonNegativeInt v ''checks.passive.healthy.successes'')
        (phc_HealthySuccesses c) = Inr successes"
    and c': "c' = c\<lparr>phc_HealthyStatuses := statuses, phc_HealthySuccesses := successes\<rparr>"
    using assms(2) by (auto simp: passive_healthy_def res_bind_Inr_iff)
  show ?thesis
    using assms(1) parse_opt_status[OF p(1)] parse_opt_nonneg[OF p(2)]
    by (simp add: passive_ok_def c')
qed

lemma passive_unhealthy_ok:
  assumes "passive_ok c" and "passive_unhealthy m c = Inr c'"
  shows "passive_ok c' \<and> phc_Type c' = phc_Type c"
proof (cases "present m ''unhealthy''")
  case None
  then show ?thesis using assms by (simp add: passive_unhealthy_def)
next
  case (Some v)
  then obtain um statuses http tcp timeouts where
    p: "parse_opt um ''http_statuses'' (\<lambda>v. parseStatusSet v ''checks.passive.unhealthy.http_statuses'')
        (phc_UnhealthyStatuses c) = Inr statuses"
    "parse_opt um ''http_failures'' (\<lambda>v. nonNegativeInt v ''checks.passive.unhealthy.http_failures'')
        (phc_HTTPFailures c) = Inr http"
    "parse_opt um ''tcp_failures'' (\<lambda>v. nonNegativeInt v ''checks.passive.unhealthy.tcp_failures'')
        (phc_TCPFailures c) = Inr tcp"
    "parse_opt um ''timeouts'' (\<lambda>v. nonNegativeInt v ''checks.passive.unhealthy.timeouts'')
        (phc_Timeouts c) = Inr timeouts"
    and c': "c' = c\<lparr>phc_UnhealthyStatuses := statuses, phc_HTTPFailures := http,
            phc_TCPFailures := tcp, phc_Timeouts := timeouts\<rparr>"
    using assms(2) by (auto simp: passive_unhealthy_def res_bind_Inr_iff)
  show ?thesis
    using assms(1) parse_opt_status[OF p(1)] parse_opt_nonneg[OF p(2)] parse_opt_nonneg[OF p(3)]
      parse_opt_nonneg[OF p(4)]
    by (simp add: passive_ok_def c')
qed

definition active_ok :: "ActiveHealthConfig \<Rightarrow> bool" where
  "active_ok c \<longleftrightarrow> ahc_Type c \<in> {''http'', ''https''} \<and> ahc_HTTPPath c \<noteq> ''''
     \<and> 0 < ahc_Timeout c \<and> 0 < ahc_Concurrency c \<and> 0 < ahc_HealthyInterval c
     \<and> 0 < ahc_UnhealthyInterval c \<and> 0 < ahc_HealthySuccesses c
     \<and> 0 \<le> ahc_UnhealthyHTTPFails c \<and> 0 \<le> ahc_UnhealthyTCPFails c
     \<and> 0 \<le> ahc_UnhealthyTimeouts c
     \<and> status_ok (ahc_HealthyStatuses c) \<and> status_ok (ahc_UnhealthyStatuses c)"

lemma active_head_Inr:
  assumes "active_head m = Inr c"
  obtains ty verify path host timeout concurrency where
    "c = active_defaults\<lparr>ahc_Type := ty, ahc_HTTPSVerifyCertificate := verify,
           ahc_HTTPPath := path, ahc_Host := host, ahc_Timeout := timeout,
           ahc_Concurrency := concurrency\<rparr>"
    and "ty = ''http'' \<or> ty = ''https''" and "path \<noteq> ''''" and "0 < timeout" and "0 < concurrency"
  using assms by (auto simp: active_head_def res_bind_Inr_iff)

lemma active_healthy_Inr:
  assumes "active_healthy m c = Inr c'" and "status_ok (ahc_HealthyStatuses c)"
  obtains interval successes statuses where
    "c' = c\<lparr>ahc_HealthyInterval := interval, ahc_HealthySuccesses := successes,
             ahc_HealthyStatuses := statuses\<rparr>" and "status_ok statuses"
proof (cases "present m ''healthy''")
  case None
  then show ?thesis
    using assms that[where interval = "ahc_HealthyInterval c" and successes = "ahc_HealthySuccesses c"
        and statuses = "ahc_HealthyStatuses c"]
    by (simp add: active_healthy_def)
next
  case (Some v)
  then obtain hm interval successes statuses where
    p: "parse_opt hm ''http_statuses'' (\<lambda>v. parseStatusSet v ''checks.active.healthy.http_statuses'')
        (ahc_HealthyStatuses c) = Inr statuses"
    and c': "c' = c\<lparr>ahc_HealthyInterval := interval, ahc_HealthySuccesses := successes,
             ahc_HealthyStatuses := statuses\<rparr>"
    using assms(1) by (auto simp: active_healthy_def res_bind_Inr_iff)
  show ?thesis
    by (rule that[OF c' parse_opt_status[OF p assms(2)]])
qed

lemma active_unhealthy_Inr:
  assumes "active_unhealthy m c = Inr c'" and "status_ok (ahc_UnhealthyStatuses c)"
    and "0 \<le> ahc_UnhealthyHTTPFails c" "0 \<le> ahc_UnhealthyTCPFails c" "0 \<le> ahc_UnhealthyTimeouts c"
  obtains interval http tcp timeouts statuses where
    "c' = c\<lparr>ahc_UnhealthyInterval := interval, ahc_UnhealthyHTTPFails := http,
             ahc_UnhealthyTCPFails := tcp, ahc_UnhealthyTimeouts := timeouts,
             ahc_UnhealthyStatuses := statuses\<rparr>"
    and "0 \<le> http" "0 \<le> tcp" "0 \<le> timeouts" "status_ok statuses"
proof (cases "present m ''unhealthy''")
  case None
  then show ?thesis
    using assms that[where interval = "ahc_UnhealthyInterval c" and http = "ahc_UnhealthyHTTPFails c"
        and tcp = "ahc_UnhealthyTCPFails c" and timeouts = "ahc_UnhealthyTimeouts c"
        and statuses = "ahc_UnhealthyStatuses c"]
    by (simp add: active_unhealthy_def)
next
  case (Some v)
  then obtain um interval http tcp timeouts statuses where
    p: "parse_opt um ''http_failures''
          (\<lambda>v. nonNegativeInt v ''checks.active.unhealthy.http_failures'')
          (ahc_UnhealthyHTTPFails c) = Inr http"
       "parse_opt um ''tcp_failures''
          (\<lambda>v. nonNegativeInt v ''checks.active.unhealthy.tcp_failures'')
          (ahc_UnhealthyTCPFails c) = Inr tcp"
       "parse_opt um ''timeouts'' (\<lambda>v. nonNegativeInt v ''checks.active.unhealthy.timeouts'')
          (ahc_UnhealthyTimeouts c) = Inr timeouts"
       "parse_opt um ''http_statuses''
          (\<lambda>v. parseStatusSet v ''checks.active.unhealthy.http_statuses'')
          (ahc_UnhealthyStatuses c) = Inr statuses"
    and c': "c' = c\<lparr>ahc_UnhealthyInterval := interval, ahc_UnhealthyHTTPFails := http,
             ahc_UnhealthyTCPFails := tcp, ahc_UnhealthyTimeouts := timeouts,
             ahc_UnhealthyStatuses := statuses\<rparr>"
    using assms(1) by (auto simp: active_unhealthy_def res_bind_Inr_iff)
  show ?thesis
    by (rule that[OF c' parse_opt_nonneg[OF p(1) assms(3)] parse_opt_nonneg[OF p(2) assms(4)]
          parse_opt_nonneg[OF p(3) assms(5)] parse_opt_status[OF p(4) assms(2)]])
qed

lemma active_defaults_ok:
  "status_ok (ahc_HealthyStatuses active_defaults)" "status_ok (ahc_UnhealthyStatuses active_defaults)"
  "0 \<le> ahc_UnhealthyHTTPFails active_defaults" "0 \<le> ahc_UnhealthyTCPFails active_defaults"
  "0 \<le> ahc_UnhealthyTimeouts active_defaults"
  by (simp_all add: active_defaults_def status_ok_def defaultActiveHealthyStatuses_def)

lemma parsePassiveHealthConfig_ok:
  assumes "parsePassiveHealthConfig checks = Inr p"
  shows "passive_ok p \<and> phc_Type p \<in> {''http'', ''https'', ''tcp''}"
proof (cases "\<exists>m v. checks = Some m \<and> present m ''passive'' = Some v")
  case False
  then have "p = passive_defaults"
    using assms by (auto simp: parsePassiveHealthConfig_def split: option.splits)
  then show ?thesis
    using passive_defaults_ok by (simp add: passive_defaults_def)
next
  case True
  then obtain pm ty c1 where ty: "ty \<in> {''http'', ''https'', ''tcp''}"
    and h: "passive_healthy pm (passive_defaults\<lparr>phc_Type := ty\<rparr>) = Inr c1"
    and u: "passive_unhealthy pm c1 = Inr p"
    using assms
    by (auto simp: parsePassiveHealthConfig_def res_bind_Inr_iff split: if_split_asm) blast+
  have "passive_ok (passive_defaults\<lparr>phc_Type := ty\<rparr>)"
    using passive_defaults_ok by (simp add: passive_ok_def)
  from passive_healthy_ok[OF this h] passive_unhealthy_ok[OF _ u] ty show ?thesis by auto
qed

section \<open>Properties\<close>



end
