(* ===== verification/Health.thy ===== *)
theory Health
  imports Load_Balance Health_Config
begin

text \<open>
  The health-aware balancer of \<open>pkg/proxy/health.go\<close>: passive outcome counters for each target,
  selection that excludes unhealthy targets and fails open when none is healthy, and the
  generation counter that active probes use to discard stale results. Calls of the observer
  (\<open>pkg/proxy/observer.go\<close>) are returned as a list of events. Every operation runs under the
  balancer's mutex, so a history of calls is a sequence of these operations.
\<close>

section \<open>State\<close>

datatype cluster_event =
    SetInFlight string int
  | ObserveRetry string string
  | SetHealth string string bool
  | ObserveRejected string
  | DeleteCluster string
  | SetUpstreamStatus string string bool
  | DeleteUpstreamStatus string string

record healthState =
  hs_httpFailures :: int
  hs_tcpFailures :: int
  hs_timeouts :: int
  hs_healthySuccesses :: int
  hs_unhealthy :: bool
  hs_generation :: u64

definition hs_zero :: healthState where
  "hs_zero = \<lparr>hs_httpFailures = 0, hs_tcpFailures = 0, hs_timeouts = 0, hs_healthySuccesses = 0,
              hs_unhealthy = False, hs_generation = 0\<rparr>"

text \<open>
  An entry of \<open>healthySelectors\<close> is a pointer: either the selector of group \<open>i\<close> itself, whose
  state it then shares, or a selector of its own.
\<close>

datatype 'w hsel = GroupSel nat | FreshSel 'w

record 'w HealthAwareLoadBalance =
  ha_groups :: "'w priorityGroup list"
  ha_healthySelectors :: "'w hsel list"
  ha_targets :: "string list"
  ha_states :: "(string, healthState) gomap"
  ha_config :: PassiveHealthConfig
  ha_name :: string
  ha_observer :: bool

text \<open>\<open>lb.states[target].unhealthy\<close>; every target of a group has a state.\<close>

definition ha_unhealthy :: "(string, healthState) gomap \<Rightarrow> string \<Rightarrow> bool" where
  "ha_unhealthy states t = (case map_of states t of None \<Rightarrow> False | Some s \<Rightarrow> hs_unhealthy s)"

section \<open>Selectors of the healthy targets\<close>

definition refresh_selector ::
  "'w sw_ops \<Rightarrow> (string, healthState) gomap \<Rightarrow> nat \<times> 'w priorityGroup \<Rightarrow> 'w hsel" where
  "refresh_selector ops states ig =
     (let (i, group) = ig
      in if \<not> list_ex (\<lambda>(target, _). ha_unhealthy states target) (pg_weights group) then GroupSel i
         else FreshSel (NewWeightedRRLoadBalance ops
                (filter (\<lambda>(target, _). \<not> ha_unhealthy states target) (pg_weights group))))"

definition refreshHealthySelectorsLocked ::
  "'w sw_ops \<Rightarrow> 'w HealthAwareLoadBalance \<Rightarrow> 'w HealthAwareLoadBalance" where
  "refreshHealthySelectorsLocked ops lb =
     lb\<lparr>ha_healthySelectors :=
          map (refresh_selector ops (ha_states lb)) (List.enumerate 0 (ha_groups lb))\<rparr>"

datatype lb_error = NoNodes | NoPositiveNodes | CheckError check_error

definition newHealthAwareLoadBalance ::
  "'w sw_ops \<Rightarrow> (string, int) gomap \<Rightarrow> (string, int) gomap \<Rightarrow> (string, goany) gomap option
     \<Rightarrow> (lb_error, 'w HealthAwareLoadBalance) result" where
  "newHealthAwareLoadBalance ops servers priorities checks =
     (case parsePassiveHealthConfig checks of
        Inl e \<Rightarrow> Inl (CheckError e)
      | Inr config \<Rightarrow>
          let targets = sort (mkeys servers)
          in Inr (refreshHealthySelectorsLocked ops
               \<lparr>ha_groups = newPriorityGroups ops servers priorities, ha_healthySelectors = [],
                ha_targets = targets, ha_states = map (\<lambda>t. (t, hs_zero)) targets,
                ha_config = config, ha_name = '''', ha_observer = False\<rparr>))"

section \<open>Selection\<close>

text \<open>\<open>nextHealthyLocked\<close>: the first selector, in order, that returns a target.\<close>

fun nextHealthyLocked ::
  "'w sw_ops \<Rightarrow> 'w priorityGroup list \<Rightarrow> 'w hsel list
     \<Rightarrow> string \<times> 'w priorityGroup list \<times> 'w hsel list" where
  "nextHealthyLocked ops gs [] = ('''', gs, [])"
| "nextHealthyLocked ops gs (GroupSel i # sels) =
     (let (t, g') = group_select ops (gs ! i); gs' = gs[i := g']
      in if t \<noteq> '''' then (t, gs', GroupSel i # sels)
         else let (t', gs'', sels') = nextHealthyLocked ops gs' sels in (t', gs'', GroupSel i # sels'))"
| "nextHealthyLocked ops gs (FreshSel w # sels) =
     (let (t, w') = rr_Next ops w
      in if t \<noteq> '''' then (t, gs, FreshSel w' # sels)
         else let (t', gs'', sels') = nextHealthyLocked ops gs sels in (t', gs'', FreshSel w' # sels'))"

definition ha_Next ::
  "'w sw_ops \<Rightarrow> 'w HealthAwareLoadBalance \<Rightarrow> string \<times> 'w HealthAwareLoadBalance" where
  "ha_Next ops lb =
     (if ha_targets lb = [] then ('''', lb)
      else let (t, gs, sels) = nextHealthyLocked ops (ha_groups lb) (ha_healthySelectors lb);
               lb1 = lb\<lparr>ha_groups := gs, ha_healthySelectors := sels\<rparr>
           in if t \<noteq> '''' then (t, lb1)
              else (case gs of [] \<Rightarrow> ('''', lb1)
                    | g # rest \<Rightarrow> (let (t', g') = group_select ops g
                                  in (t', lb1\<lparr>ha_groups := g' # rest\<rparr>))))"

definition ha_selectable :: "'w HealthAwareLoadBalance \<Rightarrow> string \<Rightarrow> bool" where
  "ha_selectable lb =
     (let anyHealthy = list_ex (\<lambda>group. list_ex (\<lambda>(target, _).
            \<not> ha_unhealthy (ha_states lb) target) (pg_weights group)) (ha_groups lb)
      in (\<lambda>target. \<not> anyHealthy \<or> \<not> ha_unhealthy (ha_states lb) target))"

definition ha_NextForRequest ::
  "'w sw_ops \<Rightarrow> 'w HealthAwareLoadBalance \<Rightarrow> priorityRequestState option
     \<Rightarrow> string \<times> 'w HealthAwareLoadBalance \<times> priorityRequestState" where
  "ha_NextForRequest ops lb ctx =
     (let state = finishPreviousAttempt (priorityStateForRequest ctx);
          selectable = Some (ha_selectable lb);
          (target, groups1) = groups_nextUntried ops (prs_tried state) selectable (ha_groups lb)
      in if target \<noteq> '''' then (target, lb\<lparr>ha_groups := groups1\<rparr>, state\<lparr>prs_last := target\<rparr>)
         else let state1 = state\<lparr>prs_tried := {}\<rparr>;
                  (target1, groups2) = groups_nextUntried ops (prs_tried state1) selectable groups1
              in if target1 \<noteq> ''''
                 then (target1, lb\<lparr>ha_groups := groups2\<rparr>, state1\<lparr>prs_last := target1\<rparr>)
                 else ('''', lb\<lparr>ha_groups := groups2\<rparr>, state1))"

section \<open>Outcomes\<close>

definition ha_put ::
  "'w HealthAwareLoadBalance \<Rightarrow> string \<Rightarrow> healthState \<Rightarrow> 'w HealthAwareLoadBalance" where
  "ha_put lb target state = lb\<lparr>ha_states := mput target state (ha_states lb)\<rparr>"

definition ha_notify :: "'w HealthAwareLoadBalance \<Rightarrow> string \<Rightarrow> bool \<Rightarrow> cluster_event list" where
  "ha_notify lb target healthy =
     (if ha_observer lb then [SetHealth (ha_name lb) target healthy] else [])"

definition hs_reset :: "healthState \<Rightarrow> healthState" where
  "hs_reset state =
     state\<lparr>hs_httpFailures := 0, hs_tcpFailures := 0, hs_timeouts := 0, hs_healthySuccesses := 0\<rparr>"

definition ha_ReportHTTP ::
  "'w sw_ops \<Rightarrow> 'w HealthAwareLoadBalance \<Rightarrow> string \<Rightarrow> int
     \<Rightarrow> 'w HealthAwareLoadBalance \<times> cluster_event list" where
  "ha_ReportHTTP ops lb target status =
     (case map_of (ha_states lb) target of
        None \<Rightarrow> (lb, [])
      | Some state \<Rightarrow>
          if status \<in> phc_HealthyStatuses (ha_config lb) then
            if hs_unhealthy state then
              if phc_HealthySuccesses (ha_config lb) = 0 then (lb, [])
              else let state1 = state\<lparr>hs_healthySuccesses := hs_healthySuccesses state + 1\<rparr>
                   in if phc_HealthySuccesses (ha_config lb) \<le> hs_healthySuccesses state1
                      then (refreshHealthySelectorsLocked ops (ha_put lb target
                             (hs_reset (state1\<lparr>hs_unhealthy := False,
                                hs_generation := hs_generation state1 + 1\<rparr>))),
                            ha_notify lb target True)
                      else (ha_put lb target state1, [])
            else (ha_put lb target (hs_reset state), [])
          else if status \<in> phc_UnhealthyStatuses (ha_config lb) then
            let state1 = state\<lparr>hs_healthySuccesses := 0\<rparr>
            in if hs_unhealthy state1 then (ha_put lb target state1, [])
               else let state2 = state1\<lparr>hs_httpFailures := hs_httpFailures state1 + 1\<rparr>
                    in if 0 < phc_HTTPFailures (ha_config lb)
                          \<and> phc_HTTPFailures (ha_config lb) \<le> hs_httpFailures state2
                       then (refreshHealthySelectorsLocked ops (ha_put lb target
                              (state2\<lparr>hs_unhealthy := True,
                                 hs_generation := hs_generation state2 + 1\<rparr>)),
                             ha_notify lb target False)
                       else (ha_put lb target state2, [])
          else (lb, []))"

definition ha_ReportTCPFailure ::
  "'w sw_ops \<Rightarrow> 'w HealthAwareLoadBalance \<Rightarrow> string \<Rightarrow> bool
     \<Rightarrow> 'w HealthAwareLoadBalance \<times> cluster_event list" where
  "ha_ReportTCPFailure ops lb target timeout =
     (case map_of (ha_states lb) target of
        None \<Rightarrow> (lb, [])
      | Some state \<Rightarrow>
          let state1 = state\<lparr>hs_healthySuccesses := 0\<rparr>
          in if hs_unhealthy state1 then (ha_put lb target state1, [])
             else let state2 = (if timeout
                        then state1\<lparr>hs_timeouts := hs_timeouts state1 + 1\<rparr>
                        else state1\<lparr>hs_tcpFailures := hs_tcpFailures state1 + 1\<rparr>);
                      limit = (if timeout then phc_Timeouts (ha_config lb)
                               else phc_TCPFailures (ha_config lb));
                      count = (if timeout then hs_timeouts state2 else hs_tcpFailures state2)
                  in if 0 < limit \<and> limit \<le> count
                     then (refreshHealthySelectorsLocked ops (ha_put lb target
                            (state2\<lparr>hs_unhealthy := True,
                               hs_generation := hs_generation state2 + 1\<rparr>)),
                           ha_notify lb target False)
                     else (ha_put lb target state2, []))"

section \<open>Active probes\<close>

definition ha_healthStatus :: "'w HealthAwareLoadBalance \<Rightarrow> string \<Rightarrow> bool \<times> u64" where
  "ha_healthStatus lb target =
     (case map_of (ha_states lb) target of None \<Rightarrow> (False, 0)
      | Some state \<Rightarrow> (\<not> hs_unhealthy state, hs_generation state))"

definition ha_IsHealthy :: "'w HealthAwareLoadBalance \<Rightarrow> string \<Rightarrow> bool" where
  "ha_IsHealthy lb target = fst (ha_healthStatus lb target)"

text \<open>The expected generation is \<open>None\<close> when \<open>requireGeneration\<close> is false.\<close>

definition ha_markHealthyLocked ::
  "'w sw_ops \<Rightarrow> 'w HealthAwareLoadBalance \<Rightarrow> string \<Rightarrow> u64 option
     \<Rightarrow> bool \<times> 'w HealthAwareLoadBalance" where
  "ha_markHealthyLocked ops lb target expected =
     (case map_of (ha_states lb) target of
        None \<Rightarrow> (False, lb)
      | Some state \<Rightarrow>
          if \<not> hs_unhealthy state \<or> (case expected of None \<Rightarrow> False | Some g \<Rightarrow> hs_generation state \<noteq> g)
          then (False, lb)
          else (True, refreshHealthySelectorsLocked ops (ha_put lb target
                  (hs_reset (state\<lparr>hs_unhealthy := False, hs_generation := hs_generation state + 1\<rparr>)))))"

definition ha_markUnhealthyLocked ::
  "'w sw_ops \<Rightarrow> 'w HealthAwareLoadBalance \<Rightarrow> string \<Rightarrow> u64 option
     \<Rightarrow> bool \<times> 'w HealthAwareLoadBalance" where
  "ha_markUnhealthyLocked ops lb target expected =
     (case map_of (ha_states lb) target of
        None \<Rightarrow> (False, lb)
      | Some state \<Rightarrow>
          if hs_unhealthy state \<or> (case expected of None \<Rightarrow> False | Some g \<Rightarrow> hs_generation state \<noteq> g)
          then (False, lb)
          else (True, refreshHealthySelectorsLocked ops (ha_put lb target
                  (state\<lparr>hs_healthySuccesses := 0, hs_unhealthy := True,
                     hs_generation := hs_generation state + 1\<rparr>))))"

definition ha_MarkHealthy ::
  "'w sw_ops \<Rightarrow> 'w HealthAwareLoadBalance \<Rightarrow> string \<Rightarrow> bool \<times> 'w HealthAwareLoadBalance" where
  "ha_MarkHealthy ops lb target = ha_markHealthyLocked ops lb target None"

definition ha_MarkUnhealthy ::
  "'w sw_ops \<Rightarrow> 'w HealthAwareLoadBalance \<Rightarrow> string \<Rightarrow> bool \<times> 'w HealthAwareLoadBalance" where
  "ha_MarkUnhealthy ops lb target = ha_markUnhealthyLocked ops lb target None"

text \<open>The observer argument of these two is the checker's, \<open>False\<close> when it is nil.\<close>

definition ha_markHealthyAtGeneration ::
  "'w sw_ops \<Rightarrow> 'w HealthAwareLoadBalance \<Rightarrow> string \<Rightarrow> u64 \<Rightarrow> string \<Rightarrow> bool
     \<Rightarrow> bool \<times> 'w HealthAwareLoadBalance \<times> cluster_event list" where
  "ha_markHealthyAtGeneration ops lb target expected cluster observer =
     (let (ok, lb') = ha_markHealthyLocked ops lb target (Some expected)
      in (ok, lb', if ok \<and> observer then [SetHealth cluster target True] else []))"

definition ha_markUnhealthyAtGeneration ::
  "'w sw_ops \<Rightarrow> 'w HealthAwareLoadBalance \<Rightarrow> string \<Rightarrow> u64 \<Rightarrow> string \<Rightarrow> bool
     \<Rightarrow> bool \<times> 'w HealthAwareLoadBalance \<times> cluster_event list" where
  "ha_markUnhealthyAtGeneration ops lb target expected cluster observer =
     (let (ok, lb') = ha_markUnhealthyLocked ops lb target (Some expected)
      in (ok, lb', if ok \<and> observer then [SetHealth cluster target False] else []))"

definition ha_HealthSnapshot :: "'w HealthAwareLoadBalance \<Rightarrow> (string, bool) gomap" where
  "ha_HealthSnapshot lb = map (\<lambda>(target, state). (target, \<not> hs_unhealthy state)) (ha_states lb)"

definition ha_setObserver :: "'w HealthAwareLoadBalance \<Rightarrow> string \<Rightarrow> bool \<Rightarrow> 'w HealthAwareLoadBalance" where
  "ha_setObserver lb name observer = lb\<lparr>ha_name := name, ha_observer := observer\<rparr>"

definition ha_clearObserver :: "'w HealthAwareLoadBalance \<Rightarrow> 'w HealthAwareLoadBalance" where
  "ha_clearObserver lb = lb\<lparr>ha_observer := False\<rparr>"

section \<open>The upstream selector\<close>

datatype 'w upstream_lb = PriorityLB "'w priorityGroup list" | HealthLB "'w HealthAwareLoadBalance"

definition checks_has :: "(string, goany) gomap option \<Rightarrow> string \<Rightarrow> bool" where
  "checks_has checks key = (case checks of None \<Rightarrow> False | Some m \<Rightarrow> map_of m key \<noteq> None)"

definition newUpstreamLoadBalanceWithPriorities ::
  "'w sw_ops \<Rightarrow> (string, int) gomap \<Rightarrow> (string, int) gomap \<Rightarrow> (string, goany) gomap option
     \<Rightarrow> (lb_error, 'w upstream_lb) result" where
  "newUpstreamLoadBalanceWithPriorities ops servers priorities checks =
     (if servers = [] then Inl NoNodes
      else let groups = newPriorityGroups ops servers priorities
           in if groups = [] then Inl NoPositiveNodes
              else let configured = checks_has checks ''passive'' \<or> checks_has checks ''active''
                   in if 1 < length groups
                      then if \<not> configured then Inr (PriorityLB groups)
                           else res_bind (newHealthAwareLoadBalance ops servers priorities checks)
                                  (\<lambda>lb. Inr (HealthLB lb))
                      else if \<not> configured then Inr (PriorityLB groups)
                      else res_bind (newHealthAwareLoadBalance ops servers [] checks)
                             (\<lambda>lb. Inr (HealthLB lb)))"

definition NextTarget ::
  "'w sw_ops \<Rightarrow> 'w upstream_lb \<Rightarrow> priorityRequestState option
     \<Rightarrow> string \<times> 'w upstream_lb \<times> priorityRequestState" where
  "NextTarget ops lb ctx =
     (case lb of
        PriorityLB gs \<Rightarrow> (let (t, gs', st) = plb_NextForRequest ops gs ctx in (t, PriorityLB gs', st))
      | HealthLB ha \<Rightarrow> (let (t, ha', st) = ha_NextForRequest ops ha ctx in (t, HealthLB ha', st)))"

section \<open>The invariant\<close>

abbreviation ha_healthy :: "'w HealthAwareLoadBalance \<Rightarrow> string \<Rightarrow> bool" where
  "ha_healthy lb t \<equiv> \<not> ha_unhealthy (ha_states lb) t"

text \<open>
  A target is unhealthy exactly in its odd generations; a healthy target has no recovery progress
  and has not reached a threshold that is switched on; an unhealthy one has not yet collected the
  successes that would recover it.
\<close>

definition hs_inv :: "PassiveHealthConfig \<Rightarrow> healthState \<Rightarrow> bool" where
  "hs_inv c s \<longleftrightarrow>
     (odd (hs_generation s) \<longleftrightarrow> hs_unhealthy s)
   \<and> 0 \<le> hs_httpFailures s \<and> 0 \<le> hs_tcpFailures s \<and> 0 \<le> hs_timeouts s \<and> 0 \<le> hs_healthySuccesses s
   \<and> (\<not> hs_unhealthy s \<longrightarrow> hs_healthySuccesses s = 0
        \<and> (0 < phc_HTTPFailures c \<longrightarrow> hs_httpFailures s < phc_HTTPFailures c)
        \<and> (0 < phc_TCPFailures c \<longrightarrow> hs_tcpFailures s < phc_TCPFailures c)
        \<and> (0 < phc_Timeouts c \<longrightarrow> hs_timeouts s < phc_Timeouts c))
   \<and> (hs_unhealthy s \<longrightarrow> hs_healthySuccesses s = 0 \<or> hs_healthySuccesses s < phc_HealthySuccesses c)"

definition sel_ok ::
  "('w \<Rightarrow> string set) \<Rightarrow> (string \<Rightarrow> bool) \<Rightarrow> string list list \<Rightarrow> nat \<Rightarrow> 'w hsel \<Rightarrow> bool" where
  "sel_ok items healthy tss i s =
     (case s of GroupSel j \<Rightarrow> j = i \<and> (\<forall>t\<in>set (tss ! i). healthy t)
      | FreshSel w \<Rightarrow> items w = {t \<in> set (tss ! i). healthy t})"

definition sels_ok :: "('w \<Rightarrow> string set) \<Rightarrow> 'w HealthAwareLoadBalance \<Rightarrow> bool" where
  "sels_ok items lb \<longleftrightarrow>
     length (ha_healthySelectors lb) = length (ha_groups lb)
   \<and> (\<forall>i<length (ha_groups lb).
        sel_ok items (ha_healthy lb) (map pg_targets (ha_groups lb)) i (ha_healthySelectors lb ! i))"

definition ha_inv :: "('w \<Rightarrow> string set) \<Rightarrow> 'w HealthAwareLoadBalance \<Rightarrow> bool" where
  "ha_inv items lb \<longleftrightarrow>
     pool_inv items (ha_groups lb) \<and> sels_ok items lb \<and> gomap (ha_states lb)
   \<and> ha_targets lb \<noteq> [] \<and> set (ha_targets lb) = dom (map_of (ha_states lb))
   \<and> set (pool_targets (ha_groups lb)) \<subseteq> dom (map_of (ha_states lb))
   \<and> passive_ok (ha_config lb)
   \<and> (\<forall>t s. map_of (ha_states lb) t = Some s \<longrightarrow> hs_inv (ha_config lb) s)"

subsection \<open>Refreshing the selectors\<close>

lemma map_of_filter_key: "map_of (filter (\<lambda>(t, _). P t) m) t = (if P t then map_of m t else None)"
  by (induction m) auto

lemma dom_filter_key: "dom (map_of (filter (\<lambda>(t, _). P t) m)) = {t \<in> dom (map_of m). P t}"
  by (auto simp: map_of_filter_key domIff split: if_splits)

lemma refresh_selector_ok:
  assumes laws: "sw_laws ops items" and inv: "group_inv items (gs ! i)" and "i < length gs"
  shows "sel_ok items (\<lambda>t. \<not> ha_unhealthy states t) (map pg_targets gs) i
           (refresh_selector ops states (i, gs ! i))"
proof (cases "list_ex (\<lambda>(target, _). ha_unhealthy states target) (pg_weights (gs ! i))")
  case False
  then have "\<forall>t\<in>dom (map_of (pg_weights (gs ! i))). \<not> ha_unhealthy states t"
    by (auto simp: list_ex_iff dest!: map_of_SomeD)
  with False assms show ?thesis
    by (simp add: refresh_selector_def sel_ok_def group_inv_def)
next
  case True
  let ?ws = "filter (\<lambda>(target, _). \<not> ha_unhealthy states target) (pg_weights (gs ! i))"
  have "0 < mget0 ?ws t" if "t \<in> dom (map_of ?ws)" for t
  proof -
    from that have "t \<in> set (pg_targets (gs ! i))" "mget0 ?ws t = mget0 (pg_weights (gs ! i)) t"
      using inv by (auto simp: dom_filter_key mget0_def map_of_filter_key group_inv_def)
    then show ?thesis using inv by (simp add: group_inv_def)
  qed
  then have "items (NewWeightedRRLoadBalance ops ?ws) = dom (map_of ?ws)"
    using NewWeightedRRLoadBalance_items[OF laws] by blast
  with True assms show ?thesis
    by (simp add: refresh_selector_def sel_ok_def dom_filter_key group_inv_def)
qed

lemma refresh_sel [simp]:
  "ha_groups (refreshHealthySelectorsLocked ops lb) = ha_groups lb"
  "ha_states (refreshHealthySelectorsLocked ops lb) = ha_states lb"
  "ha_targets (refreshHealthySelectorsLocked ops lb) = ha_targets lb"
  "ha_config (refreshHealthySelectorsLocked ops lb) = ha_config lb"
  "ha_name (refreshHealthySelectorsLocked ops lb) = ha_name lb"
  "ha_observer (refreshHealthySelectorsLocked ops lb) = ha_observer lb"
  by (simp_all add: refreshHealthySelectorsLocked_def)

lemma refresh_sels_ok:
  assumes "sw_laws ops items" and "pool_inv items (ha_groups lb)"
  shows "sels_ok items (refreshHealthySelectorsLocked ops lb)"
proof -
  have "group_inv items (ha_groups lb ! i)" if "i < length (ha_groups lb)" for i
    using assms(2) that by (simp add: pool_inv_def)
  then show ?thesis
    using refresh_selector_ok[OF assms(1)]
    by (auto simp: sels_ok_def refreshHealthySelectorsLocked_def nth_enumerate_eq)
qed

subsection \<open>Updating a state\<close>

text \<open>What the invariant says apart from the selectors.\<close>

definition ha_base :: "('w \<Rightarrow> string set) \<Rightarrow> 'w HealthAwareLoadBalance \<Rightarrow> bool" where
  "ha_base items lb \<longleftrightarrow>
     pool_inv items (ha_groups lb) \<and> gomap (ha_states lb)
   \<and> ha_targets lb \<noteq> [] \<and> set (ha_targets lb) = dom (map_of (ha_states lb))
   \<and> set (pool_targets (ha_groups lb)) \<subseteq> dom (map_of (ha_states lb))
   \<and> passive_ok (ha_config lb)
   \<and> (\<forall>t s. map_of (ha_states lb) t = Some s \<longrightarrow> hs_inv (ha_config lb) s)"

lemma ha_inv_base: "ha_inv items lb \<longleftrightarrow> ha_base items lb \<and> sels_ok items lb"
  by (auto simp: ha_inv_def ha_base_def)

lemma ha_put_sel [simp]:
  "ha_groups (ha_put lb t s) = ha_groups lb"
  "ha_states (ha_put lb t s) = mput t s (ha_states lb)"
  "ha_targets (ha_put lb t s) = ha_targets lb"
  "ha_config (ha_put lb t s) = ha_config lb"
  "ha_healthySelectors (ha_put lb t s) = ha_healthySelectors lb"
  by (simp_all add: ha_put_def)

lemma ha_put_base:
  assumes "ha_base items lb" and "map_of (ha_states lb) t = Some old" and "hs_inv (ha_config lb) s"
  shows "ha_base items (ha_put lb t s)"
  using assms by (auto simp: ha_base_def)

text \<open>A state change that keeps the health keeps the selectors right.\<close>

lemma ha_put_same_health:
  assumes "ha_inv items lb" and "map_of (ha_states lb) t = Some old" and "hs_inv (ha_config lb) s"
    and "hs_unhealthy s = hs_unhealthy old"
  shows "ha_inv items (ha_put lb t s)"
proof -
  have "ha_unhealthy (mput t s (ha_states lb)) = ha_unhealthy (ha_states lb)"
    using assms(2,4) by (auto simp: ha_unhealthy_def fun_eq_iff)
  then have "sels_ok items (ha_put lb t s)"
    using assms(1) by (simp add: ha_inv_base sels_ok_def)
  moreover have "ha_base items (ha_put lb t s)"
    using assms(1-3) by (auto simp: ha_inv_base intro: ha_put_base)
  ultimately show ?thesis by (simp add: ha_inv_base)
qed

lemma ha_put_refresh:
  assumes "sw_laws ops items" and "ha_inv items lb" and "map_of (ha_states lb) t = Some old"
    and "hs_inv (ha_config lb) s"
  shows "ha_inv items (refreshHealthySelectorsLocked ops (ha_put lb t s))"
proof -
  have base: "ha_base items (ha_put lb t s)"
    using assms(2-4) by (auto simp: ha_inv_base intro: ha_put_base)
  then have "sels_ok items (refreshHealthySelectorsLocked ops (ha_put lb t s))"
    using refresh_sels_ok[OF assms(1), of "ha_put lb t s"] by (simp add: ha_base_def)
  with base show ?thesis by (simp add: ha_inv_base ha_base_def)
qed

subsection \<open>Every operation keeps the invariant\<close>

lemma hs_inv_reset_same:
  "hs_inv c s \<Longrightarrow> passive_ok c \<Longrightarrow> \<not> hs_unhealthy s \<Longrightarrow> hs_inv c (hs_reset s)"
  by (simp add: hs_inv_def hs_reset_def)

lemma hs_inv_recover:
  "hs_inv c s \<Longrightarrow> passive_ok c \<Longrightarrow> hs_unhealthy s \<Longrightarrow>
   hs_inv c (hs_reset (s\<lparr>hs_unhealthy := False, hs_generation := hs_generation s + 1\<rparr>))"
  by (simp add: hs_inv_def hs_reset_def)

lemma hs_inv_quarantine:
  "odd (hs_generation s) = hs_unhealthy s \<Longrightarrow> \<not> hs_unhealthy s \<Longrightarrow> 0 \<le> hs_httpFailures s \<Longrightarrow>
   0 \<le> hs_tcpFailures s \<Longrightarrow> 0 \<le> hs_timeouts s \<Longrightarrow> hs_healthySuccesses s = 0 \<Longrightarrow>
   hs_inv c (s\<lparr>hs_unhealthy := True, hs_generation := hs_generation s + 1\<rparr>)"
  by (simp add: hs_inv_def)

lemma hs_inv_clear_progress: "hs_inv c s \<Longrightarrow> hs_inv c (s\<lparr>hs_healthySuccesses := 0\<rparr>)"
  by (auto simp: hs_inv_def)

lemma ha_inv_state:
  assumes "ha_inv items lb" and "map_of (ha_states lb) t = Some s"
  shows "hs_inv (ha_config lb) s" and "passive_ok (ha_config lb)"
  using assms by (auto simp: ha_inv_def)

lemma hs_inv_recover_progress:
  assumes "hs_inv c s" and "passive_ok c" and "hs_unhealthy s"
  shows "hs_inv c (hs_reset (s\<lparr>hs_healthySuccesses := n, hs_unhealthy := False,
           hs_generation := hs_generation s + 1\<rparr>))"
  using assms by (simp add: hs_inv_def hs_reset_def)

lemma ha_ReportHTTP_inv:
  assumes laws: "sw_laws ops items" and inv: "ha_inv items lb"
  shows "ha_inv items (fst (ha_ReportHTTP ops lb target status))"
proof (cases "map_of (ha_states lb) target")
  case None
  then show ?thesis using inv by (simp add: ha_ReportHTTP_def)
next
  case (Some s)
  note s = ha_inv_state[OF inv Some]
  note same = ha_put_same_health[OF inv Some]
  note refresh = ha_put_refresh[OF laws inv Some]
  consider (recovering) "status \<in> phc_HealthyStatuses (ha_config lb)" "hs_unhealthy s"
    | (fine) "status \<in> phc_HealthyStatuses (ha_config lb)" "\<not> hs_unhealthy s"
    | (failing) "status \<notin> phc_HealthyStatuses (ha_config lb)"
        "status \<in> phc_UnhealthyStatuses (ha_config lb)"
    | (neutral) "status \<notin> phc_HealthyStatuses (ha_config lb)"
        "status \<notin> phc_UnhealthyStatuses (ha_config lb)"
    by blast
  then show ?thesis
  proof cases
    case recovering
    have "hs_inv (ha_config lb) (s\<lparr>hs_healthySuccesses := hs_healthySuccesses s + 1\<rparr>)"
      if "\<not> phc_HealthySuccesses (ha_config lb) \<le> hs_healthySuccesses s + 1"
      using that s recovering by (auto simp: hs_inv_def)
    then show ?thesis
      using recovering Some inv same refresh hs_inv_recover_progress[OF s recovering(2)]
      by (simp add: ha_ReportHTTP_def Let_def)
  next
    case fine
    then show ?thesis
      using Some same hs_inv_reset_same[OF s]
      by (simp add: ha_ReportHTTP_def hs_reset_def)
  next
    case failing
    let ?s1 = "s\<lparr>hs_healthySuccesses := 0\<rparr>"
    let ?s2 = "?s1\<lparr>hs_httpFailures := hs_httpFailures s + 1\<rparr>"
    have s1: "hs_inv (ha_config lb) ?s1" using s(1) by (rule hs_inv_clear_progress)
    have "hs_inv (ha_config lb) (?s2\<lparr>hs_unhealthy := True, hs_generation := hs_generation s + 1\<rparr>)"
      if "\<not> hs_unhealthy s"
      using s that hs_inv_quarantine[of ?s2] by (simp add: hs_inv_def)
    moreover have "hs_inv (ha_config lb) ?s2"
      if "\<not> hs_unhealthy s" "\<not> (0 < phc_HTTPFailures (ha_config lb)
            \<and> phc_HTTPFailures (ha_config lb) \<le> hs_httpFailures s + 1)"
      using s that by (auto simp: hs_inv_def)
    ultimately show ?thesis
      using failing Some same s1 refresh by (auto simp: ha_ReportHTTP_def Let_def)
  next
    case neutral
    then show ?thesis using Some inv by (simp add: ha_ReportHTTP_def)
  qed
qed

lemma ha_ReportTCPFailure_inv:
  assumes laws: "sw_laws ops items" and inv: "ha_inv items lb"
  shows "ha_inv items (fst (ha_ReportTCPFailure ops lb target timeout))"
proof (cases "map_of (ha_states lb) target")
  case None
  then show ?thesis using inv by (simp add: ha_ReportTCPFailure_def)
next
  case (Some s)
  note s = ha_inv_state[OF inv Some]
  note same = ha_put_same_health[OF inv Some]
  note refresh = ha_put_refresh[OF laws inv Some]
  let ?s1 = "s\<lparr>hs_healthySuccesses := 0\<rparr>"
  let ?tm = "?s1\<lparr>hs_timeouts := hs_timeouts s + 1\<rparr>"
  let ?tcp = "?s1\<lparr>hs_tcpFailures := hs_tcpFailures s + 1\<rparr>"
  have s1: "hs_inv (ha_config lb) ?s1" using s(1) by (rule hs_inv_clear_progress)
  have "hs_inv (ha_config lb) (?tm\<lparr>hs_unhealthy := True, hs_generation := hs_generation s + 1\<rparr>)"
    and "hs_inv (ha_config lb) (?tcp\<lparr>hs_unhealthy := True, hs_generation := hs_generation s + 1\<rparr>)"
    if "\<not> hs_unhealthy s"
    using s that hs_inv_quarantine[of ?tm] hs_inv_quarantine[of ?tcp] by (simp_all add: hs_inv_def)
  moreover have "hs_inv (ha_config lb) ?tm"
    if "\<not> hs_unhealthy s" "\<not> (0 < phc_Timeouts (ha_config lb)
          \<and> phc_Timeouts (ha_config lb) \<le> hs_timeouts s + 1)"
    using s that by (auto simp: hs_inv_def)
  moreover have "hs_inv (ha_config lb) ?tcp"
    if "\<not> hs_unhealthy s" "\<not> (0 < phc_TCPFailures (ha_config lb)
          \<and> phc_TCPFailures (ha_config lb) \<le> hs_tcpFailures s + 1)"
    using s that by (auto simp: hs_inv_def)
  ultimately show ?thesis
    using Some same s1 refresh by (cases timeout) (auto simp: ha_ReportTCPFailure_def Let_def)
qed

lemma ha_markHealthyLocked_inv:
  assumes laws: "sw_laws ops items" and inv: "ha_inv items lb"
  shows "ha_inv items (snd (ha_markHealthyLocked ops lb target expected))"
proof (cases "map_of (ha_states lb) target")
  case None
  then show ?thesis using inv by (simp add: ha_markHealthyLocked_def)
next
  case (Some s)
  show ?thesis
    using Some inv ha_put_refresh[OF laws inv Some] hs_inv_recover[OF ha_inv_state[OF inv Some]]
    by (auto simp: ha_markHealthyLocked_def)
qed

lemma ha_markUnhealthyLocked_inv:
  assumes laws: "sw_laws ops items" and inv: "ha_inv items lb"
  shows "ha_inv items (snd (ha_markUnhealthyLocked ops lb target expected))"
proof (cases "map_of (ha_states lb) target")
  case None
  then show ?thesis using inv by (simp add: ha_markUnhealthyLocked_def)
next
  case (Some s)
  have "hs_inv (ha_config lb) (s\<lparr>hs_healthySuccesses := 0, hs_unhealthy := True,
          hs_generation := hs_generation s + 1\<rparr>)" if "\<not> hs_unhealthy s"
    using ha_inv_state[OF inv Some] that by (simp add: hs_inv_def)
  then show ?thesis
    using Some inv ha_put_refresh[OF laws inv Some] by (auto simp: ha_markUnhealthyLocked_def)
qed

text \<open>Selection changes the state of selectors only.\<close>

definition same_health :: "'w HealthAwareLoadBalance \<Rightarrow> 'w HealthAwareLoadBalance \<Rightarrow> bool" where
  "same_health lb lb' \<longleftrightarrow> ha_states lb' = ha_states lb \<and> ha_config lb' = ha_config lb
     \<and> ha_targets lb' = ha_targets lb \<and> list_all2 same_group (ha_groups lb) (ha_groups lb')"

lemma sel_ok_GroupSel:
  "sel_ok items healthy tss i (GroupSel j) \<longleftrightarrow> j = i \<and> (\<forall>t\<in>set (tss ! i). healthy t)"
  "sel_ok items healthy tss i (FreshSel w) \<longleftrightarrow> items w = {t \<in> set (tss ! i). healthy t}"
  by (simp_all add: sel_ok_def)

lemma pool_inv_update:
  assumes "pool_inv items gs" and "i < length gs" and "group_inv items g'" and "same_group (gs ! i) g'"
  shows "pool_inv items (gs[i := g']) \<and> list_all2 same_group gs (gs[i := g'])"
proof -
  have tg: "map pg_targets (gs[i := g']) = map pg_targets gs"
    using assms(2,4) by (simp add: map_update same_group_def list_update_same_conv)
  have "\<forall>g\<in>set (gs[i := g']). group_inv items g"
    using assms(1,3) set_update_subset_insert by (fastforce simp: pool_inv_def)
  then show ?thesis
    using assms by (simp add: pool_inv_def tg list_all2_conv_all_nth nth_list_update)
qed

lemma nextHealthyLocked_spec:
  assumes laws: "sw_laws ops items" and inv: "pool_inv items gs"
    and "k + length sels = length gs"
    and "\<forall>i<length sels. sel_ok items healthy (map pg_targets gs) (k + i) (sels ! i)"
    and "nextHealthyLocked ops gs sels = (t, gs', sels')"
  shows "pool_inv items gs' \<and> list_all2 same_group gs gs' \<and> length sels' = length sels
    \<and> (\<forall>i<length sels. sel_ok items healthy (map pg_targets gs) (k + i) (sels' ! i))
    \<and> (if list_ex healthy (concat (drop k (map pg_targets gs)))
       then picks_first (drop k (map pg_targets gs)) healthy t else t = '''')"
  using assms(3-5)
proof (induction sels arbitrary: k t gs' sels')
  case Nil
  then show ?case using inv by (simp add: list_all2_refl)
next
  case (Cons s sels)
  let ?tss = "map pg_targets gs"
  have k: "k < length gs" using Cons.prems(1) by simp
  have dr: "drop k ?tss = pg_targets (gs ! k) # drop (Suc k) ?tss"
    using k by (simp add: Cons_nth_drop_Suc[symmetric] drop_map)
  have gk: "group_inv items (gs ! k)" and blank: "'''' \<notin> set (pg_targets (gs ! k))"
    using inv k by (auto simp: pool_inv_def)
  have ok: "sel_ok items healthy ?tss k s"
    using Cons.prems(2) by fastforce
  have oks: "\<forall>i<length sels. sel_ok items healthy ?tss (Suc k + i) (sels ! i)"
    using Cons.prems(2) by fastforce
  show ?case
  proof (cases s)
    case (GroupSel j)
    then have j: "j = k" and all: "\<forall>t\<in>set (pg_targets (gs ! k)). healthy t"
      using ok k by (auto simp: sel_ok_GroupSel)
    obtain u g' where sel: "group_select ops (gs ! k) = (u, g')" by fastforce
    note g = group_select_spec[OF laws gk sel]
    have "u \<noteq> ''''" using g(1) blank by auto
    then have "t = u" "gs' = gs[k := g']" "sels' = s # sels"
      using Cons.prems(3) GroupSel j sel by auto
    moreover have "list_ex healthy (pg_targets (gs ! k))"
      using g(1) all by (auto simp: list_ex_iff)
    ultimately show ?thesis
      using pool_inv_update[OF inv k g(2,3)] Cons.prems(2) g(1) all by (simp add: dr)
  next
    case (FreshSel w)
    have items: "items w = {t \<in> set (pg_targets (gs ! k)). healthy t}"
      using ok k FreshSel by (simp add: sel_ok_GroupSel)
    obtain u w' where nx: "rr_Next ops w = (u, w')" by fastforce
    have w': "items w' = items w" by (rule rr_Next_items[OF laws nx])
    have s': "sel_ok items healthy ?tss k (FreshSel w')"
      using ok FreshSel w' by (simp add: sel_ok_GroupSel)
    show ?thesis
    proof (cases "items w = {}")
      case False
      then have u: "u \<in> items w" by (rule rr_Next_mem[OF laws nx])
      then have "u \<noteq> ''''" using items blank by auto
      then have "t = u" "gs' = gs" "sels' = FreshSel w' # sels"
        using Cons.prems(3) FreshSel nx by auto
      moreover have "list_ex healthy (pg_targets (gs ! k))"
        using u items by (auto simp: list_ex_iff)
      ultimately show ?thesis
        using inv s' Cons.prems(2) u items
        by (auto simp: dr list_all2_refl nth_Cons split: nat.splits)
    next
      case True
      then have "u = ''''" by (rule rr_Next_empty[OF laws nx])
      obtain t1 gs1 sels1 where rest: "nextHealthyLocked ops gs sels = (t1, gs1, sels1)"
        by (metis prod_cases3)
      have eqs: "t = t1" "gs' = gs1" "sels' = FreshSel w' # sels1"
        using Cons.prems(3) FreshSel nx rest \<open>u = ''''\<close> by auto
      have "Suc k + length sels = length gs" using Cons.prems(1) by simp
      note IH = Cons.IH[OF this oks rest]
      have none: "\<not> list_ex healthy (pg_targets (gs ! k))"
        using True items by (auto simp: list_ex_iff)
      show ?thesis
        using IH s' none by (auto simp: dr eqs nth_Cons split: nat.splits)
    qed
  qed
qed

lemma same_group_trans: "same_group g g' \<Longrightarrow> same_group g' g'' \<Longrightarrow> same_group g g''"
  by (simp add: same_group_def)

lemma same_groups_trans:
  "list_all2 same_group gs gs' \<Longrightarrow> list_all2 same_group gs' gs'' \<Longrightarrow> list_all2 same_group gs gs''"
  by (rule list_all2_trans[OF same_group_trans])

lemma ha_inv_select:
  assumes "ha_inv items lb" and "pool_inv items gs'" and "list_all2 same_group (ha_groups lb) gs'"
    and "length sels' = length (ha_healthySelectors lb)"
    and "\<forall>i<length sels'. sel_ok items (ha_healthy lb) (map pg_targets (ha_groups lb)) i (sels' ! i)"
  shows "ha_inv items (lb\<lparr>ha_groups := gs', ha_healthySelectors := sels'\<rparr>)
    \<and> same_health lb (lb\<lparr>ha_groups := gs', ha_healthySelectors := sels'\<rparr>)"
proof -
  have tg: "map pg_targets gs' = map pg_targets (ha_groups lb)"
    using assms(3) by (rule same_groups_targets)
  then have "length gs' = length (ha_groups lb)" by (metis length_map)
  then show ?thesis
    using assms tg by (simp add: ha_inv_def sels_ok_def same_health_def)
qed

lemma ha_Next_spec:
  assumes laws: "sw_laws ops items" and inv: "ha_inv items lb" and run: "ha_Next ops lb = (t, lb')"
  shows "ha_inv items lb' \<and> same_health lb lb'
    \<and> (if list_ex (ha_healthy lb) (pool_targets (ha_groups lb))
       then picks_first (map pg_targets (ha_groups lb)) (ha_healthy lb) t
       else if ha_groups lb = [] then t = '''' else t \<in> set (pg_targets (hd (ha_groups lb))))"
proof -
  obtain u gs sels where nh: "nextHealthyLocked ops (ha_groups lb) (ha_healthySelectors lb) = (u, gs, sels)"
    by (metis prod_cases3)
  have pool: "pool_inv items (ha_groups lb)" and ne: "ha_targets lb \<noteq> []"
    and sels: "0 + length (ha_healthySelectors lb) = length (ha_groups lb)"
      "\<forall>i<length (ha_healthySelectors lb).
         sel_ok items (ha_healthy lb) (map pg_targets (ha_groups lb)) (0 + i) (ha_healthySelectors lb ! i)"
    using inv by (auto simp: ha_inv_def sels_ok_def)
  note spec = nextHealthyLocked_spec[OF laws pool sels nh, simplified]
  let ?lb1 = "lb\<lparr>ha_groups := gs, ha_healthySelectors := sels\<rparr>"
  have lb1: "ha_inv items ?lb1 \<and> same_health lb ?lb1"
    using spec by (intro ha_inv_select[OF inv]) auto
  have blank: "'''' \<notin> set (pool_targets (ha_groups lb))"
    using pool by (simp add: pool_inv_def)
  show ?thesis
  proof (cases "list_ex (ha_healthy lb) (pool_targets (ha_groups lb))")
    case True
    then have pick: "picks_first (map pg_targets (ha_groups lb)) (ha_healthy lb) u"
      using spec by simp
    then have "u \<noteq> ''''" using picks_firstD blank by blast
    then have "t = u" "lb' = ?lb1"
      using run ne nh by (auto simp: ha_Next_def)
    then show ?thesis using True pick lb1 by simp
  next
    case False
    then have "u = ''''" using spec by simp
    show ?thesis
    proof (cases "gs")
      case Nil
      then have "ha_groups lb = []" using spec by simp
      then show ?thesis
        using run ne nh \<open>u = ''''\<close> lb1 Nil False by (auto simp: ha_Next_def)
    next
      case (Cons g rest)
      obtain g' where sel: "group_select ops g = (t, g')" and lb': "lb' = lb\<lparr>ha_groups := g' # rest, ha_healthySelectors := sels\<rparr>"
        using run ne nh \<open>u = ''''\<close> Cons by (auto simp: ha_Next_def split: prod.splits)
      have pgs: "pool_inv items gs" using spec by simp
      then have g: "group_inv items g" by (simp add: Cons pool_inv_def)
      note gsel = group_select_spec[OF laws g sel]
      have upd: "pool_inv items (g' # rest) \<and> list_all2 same_group gs (g' # rest)"
        using pool_inv_update[OF pgs, of 0 g'] gsel by (simp add: Cons)
      have same: "list_all2 same_group (ha_groups lb) (g' # rest)"
        using spec upd same_groups_trans by blast
      have "ha_inv items (lb\<lparr>ha_groups := g' # rest, ha_healthySelectors := sels\<rparr>)
          \<and> same_health lb (lb\<lparr>ha_groups := g' # rest, ha_healthySelectors := sels\<rparr>)"
        using spec upd same by (intro ha_inv_select[OF inv]) auto
      moreover have "ha_groups lb \<noteq> []" "pg_targets (hd (ha_groups lb)) = pg_targets g"
        using spec Cons by (auto simp: list_all2_Cons2 same_group_def)
      ultimately show ?thesis
        using False gsel(1) by (simp add: lb')
    qed
  qed
qed

lemma ha_selectable_alt:
  assumes "pool_inv items (ha_groups lb)"
  shows "ha_selectable lb t \<longleftrightarrow>
    \<not> list_ex (ha_healthy lb) (pool_targets (ha_groups lb)) \<or> ha_healthy lb t"
proof -
  have "list_ex (\<lambda>(target, _). ha_healthy lb target) (pg_weights g) \<longleftrightarrow>
      (\<exists>t\<in>set (pg_targets g). ha_healthy lb t)" if "g \<in> set (ha_groups lb)" for g
  proof -
    have "set (pg_targets g) = fst ` set (pg_weights g)"
      using assms that by (simp add: pool_inv_def group_inv_def)
    then show ?thesis by (force simp: list_ex_iff simp del: image_fst_dom)
  qed
  then have "list_ex (\<lambda>group. list_ex (\<lambda>(target, _). ha_healthy lb target) (pg_weights group))
      (ha_groups lb) = list_ex (ha_healthy lb) (pool_targets (ha_groups lb))"
    by (auto simp: list_ex_iff)
  then show ?thesis by (simp add: ha_selectable_def Let_def)
qed

lemma ha_NextForRequest_spec:
  assumes laws: "sw_laws ops items" and inv: "ha_inv items lb" and ne: "ha_groups lb \<noteq> []"
    and run: "ha_NextForRequest ops lb ctx = (t, lb', state)"
  shows "ha_inv items lb' \<and> same_health lb lb'
    \<and> (if list_ex (\<lambda>u. u \<notin> attempted ctx \<and> ha_selectable lb u) (pool_targets (ha_groups lb))
       then picks_first (map pg_targets (ha_groups lb))
              (\<lambda>u. u \<notin> attempted ctx \<and> ha_selectable lb u) t
            \<and> attempted (Some state) = insert t (attempted ctx)
       else picks_first (map pg_targets (ha_groups lb)) (ha_selectable lb) t
            \<and> attempted (Some state) = {t})"
proof -
  let ?P = "attempted ctx" and ?sel = "Some (ha_selectable lb)" and ?gs = "ha_groups lb"
  let ?st = "finishPreviousAttempt (priorityStateForRequest ctx)"
  have el: "eligible T ?sel = (\<lambda>u. u \<notin> T \<and> ha_selectable lb u)" for T
    by (auto simp: eligible_def)
  have pool: "pool_inv items ?gs" using inv by (simp add: ha_inv_def)
  then have blank: "'''' \<notin> set (pool_targets ?gs)" by (simp add: pool_inv_def)
  obtain t1 gs1 where r1: "groups_nextUntried ops ?P ?sel ?gs = (t1, gs1)" by fastforce
  note s1 = groups_nextUntried_spec[OF laws pool r1, unfolded el]
  have keep: "ha_inv items (lb\<lparr>ha_groups := gs\<rparr>) \<and> same_health lb (lb\<lparr>ha_groups := gs\<rparr>)"
    if "pool_inv items gs" "list_all2 same_group ?gs gs" for gs
    using ha_inv_select[OF inv that, of "ha_healthySelectors lb"] inv
    by (auto simp: ha_inv_def sels_ok_def)
  show ?thesis
  proof (cases "list_ex (\<lambda>u. u \<notin> ?P \<and> ha_selectable lb u) (pool_targets ?gs)")
    case True
    then have pick: "picks_first (map pg_targets ?gs) (\<lambda>u. u \<notin> ?P \<and> ha_selectable lb u) t1"
      using s1 by simp
    then have "t1 \<noteq> ''''" using picks_firstD blank by blast
    then have "t = t1" "lb' = lb\<lparr>ha_groups := gs1\<rparr>" "state = ?st\<lparr>prs_last := t1\<rparr>"
      using run by (auto simp: ha_NextForRequest_def Let_def finishPreviousAttempt_sel r1)
    with \<open>t1 \<noteq> ''''\<close> pick keep s1 True show ?thesis
      by (simp add: attempted_def[of "Some _"] priorityStateForRequest_def[of "Some _"]
          finishPreviousAttempt_sel)
  next
    case False
    then have "t1 = ''''" using s1 by simp
    have p1: "pool_inv items gs1" and same1: "list_all2 same_group ?gs gs1" using s1 by auto
    have tg1: "map pg_targets gs1 = map pg_targets ?gs"
      using same1 by (rule same_groups_targets)
    obtain t2 gs2 where r2: "groups_nextUntried ops {} ?sel gs1 = (t2, gs2)" by fastforce
    note s2 = groups_nextUntried_spec[OF laws p1 r2, unfolded el tg1, simplified]
    have "pool_targets ?gs \<noteq> []"
      using pool ne by (cases ?gs) (auto simp: pool_inv_def group_inv_def)
    then obtain u where "u \<in> set (pool_targets ?gs)"
      by (metis list.set_sel(1))
    then have "list_ex (ha_selectable lb) (pool_targets ?gs)"
      unfolding list_ex_iff ha_selectable_alt[OF pool] by blast
    then have pick: "picks_first (map pg_targets ?gs) (ha_selectable lb) t2"
      using s2 by (simp split: if_splits)
    then have "t2 \<noteq> ''''" using picks_firstD blank by blast
    then have eqs: "t = t2" "lb' = lb\<lparr>ha_groups := gs2\<rparr>"
        "state = ?st\<lparr>prs_tried := {}, prs_last := t2\<rparr>"
      using run \<open>t1 = ''''\<close>
      by (auto simp: ha_NextForRequest_def Let_def finishPreviousAttempt_sel r1 r2)
    have "list_all2 same_group ?gs gs2" using same1 s2 same_groups_trans by blast
    with s2 keep pick False \<open>t2 \<noteq> ''''\<close> show ?thesis
      by (simp add: eqs attempted_def[of "Some _"] priorityStateForRequest_def[of "Some _"])
  qed
qed

section \<open>Reachable states\<close>

lemma newHealthAwareLoadBalance_inv:
  assumes laws: "sw_laws ops items" and "gomap servers" and "'''' \<notin> dom (map_of servers)"
    and "servers \<noteq> []" and new: "newHealthAwareLoadBalance ops servers priorities checks = Inr lb"
  shows "ha_inv items lb \<and> dom (map_of (ha_states lb)) = dom (map_of servers)
    \<and> ha_groups lb = newPriorityGroups ops servers priorities"
proof -
  let ?ts = "sort (mkeys servers)"
  obtain config where c: "parsePassiveHealthConfig checks = Inr config"
    and lb: "lb = refreshHealthySelectorsLocked ops
       \<lparr>ha_groups = newPriorityGroups ops servers priorities, ha_healthySelectors = [],
        ha_targets = ?ts, ha_states = map (\<lambda>t. (t, hs_zero)) ?ts,
        ha_config = config, ha_name = '''', ha_observer = False\<rparr>"
    using new by (auto simp: newHealthAwareLoadBalance_def Let_def split: sum.splits)
  have pool: "pool_inv items (newPriorityGroups ops servers priorities)"
    by (rule newPriorityGroups_inv[OF assms(1-3)])
  have dom: "dom (map_of (map (\<lambda>t. (t, hs_zero)) ?ts)) = dom (map_of servers)"
    by (simp add: dom_map_of_conv_image_fst image_image flip: image_fst_dom)
  have "set (pool_targets (newPriorityGroups ops servers priorities)) \<subseteq> dom (map_of servers)"
    by (rule newPriorityGroups_subset[OF assms(2)])
  moreover have "hs_inv config s" if "map_of (map (\<lambda>t. (t, hs_zero)) ?ts) t = Some s" for t s
  proof -
    have "s = hs_zero" using map_of_SomeD[OF that] by auto
    then show ?thesis
      using parsePassiveHealthConfig_ok[OF c] by (simp add: hs_inv_def hs_zero_def)
  qed
  moreover have "?ts \<noteq> []" using assms(4) by (metis length_sort length_map length_0_conv)
  moreover have "gomap (map (\<lambda>t. (t, hs_zero)) ?ts)"
    using assms(2) by (simp add: gomap_def comp_def)
  ultimately have "ha_base items lb"
    using pool dom parsePassiveHealthConfig_ok[OF c] by (simp add: ha_base_def lb)
  moreover have "sels_ok items lb"
    unfolding lb by (rule refresh_sels_ok[OF laws]) (simp add: pool)
  ultimately show ?thesis using dom by (simp add: ha_inv_base lb)
qed

text \<open>
  The operations other goroutines may run between two calls, each under the balancer's lock: the
  label is what the observers were told.
\<close>

inductive ha_step ::
  "'w sw_ops \<Rightarrow> 'w HealthAwareLoadBalance \<Rightarrow> cluster_event list \<Rightarrow> 'w HealthAwareLoadBalance \<Rightarrow> bool"
  for ops :: "'w sw_ops" where
  step_Next: "ha_Next ops lb = (t, lb') \<Longrightarrow> ha_step ops lb [] lb'"
| step_NextForRequest: "ha_NextForRequest ops lb ctx = (t, lb', state) \<Longrightarrow> ha_step ops lb [] lb'"
| step_ReportHTTP: "ha_ReportHTTP ops lb target status = (lb', evs) \<Longrightarrow> ha_step ops lb evs lb'"
| step_ReportTCP: "ha_ReportTCPFailure ops lb target timeout = (lb', evs) \<Longrightarrow> ha_step ops lb evs lb'"
| step_MarkHealthy: "ha_MarkHealthy ops lb target = (ok, lb') \<Longrightarrow> ha_step ops lb [] lb'"
| step_MarkUnhealthy: "ha_MarkUnhealthy ops lb target = (ok, lb') \<Longrightarrow> ha_step ops lb [] lb'"
| step_MarkHealthyAt:
    "ha_markHealthyAtGeneration ops lb target g name obs = (ok, lb', evs) \<Longrightarrow> ha_step ops lb evs lb'"
| step_MarkUnhealthyAt:
    "ha_markUnhealthyAtGeneration ops lb target g name obs = (ok, lb', evs) \<Longrightarrow> ha_step ops lb evs lb'"
| step_setObserver: "ha_step ops lb [] (ha_setObserver lb name obs)"
| step_clearObserver: "ha_step ops lb [] (ha_clearObserver lb)"

text \<open>The balancers a process can hold for a pool: the constructor's, and what steps make of it.\<close>

inductive ha_reachable ::
  "'w sw_ops \<Rightarrow> (string, int) gomap \<Rightarrow> (string, int) gomap \<Rightarrow> (string, goany) gomap option
     \<Rightarrow> 'w HealthAwareLoadBalance \<Rightarrow> bool"
  for ops :: "'w sw_ops" and servers priorities checks where
  reachable_new: "newHealthAwareLoadBalance ops servers priorities checks = Inr lb \<Longrightarrow>
    ha_reachable ops servers priorities checks lb"
| reachable_step: "ha_reachable ops servers priorities checks lb \<Longrightarrow> ha_step ops lb evs lb' \<Longrightarrow>
    ha_reachable ops servers priorities checks lb'"

text \<open>What a step may do to the state of a target: nothing to its health and generation, or one
  transition, which increments the generation.\<close>

definition hs_moves :: "healthState \<Rightarrow> healthState \<Rightarrow> bool" where
  "hs_moves s s' \<longleftrightarrow>
     hs_generation s' = hs_generation s + (if hs_unhealthy s' \<noteq> hs_unhealthy s then 1 else 0)"

definition states_move :: "'w HealthAwareLoadBalance \<Rightarrow> 'w HealthAwareLoadBalance \<Rightarrow> bool" where
  "states_move lb lb' \<longleftrightarrow> ha_config lb' = ha_config lb
     \<and> list_all2 same_group (ha_groups lb) (ha_groups lb')
     \<and> dom (map_of (ha_states lb')) = dom (map_of (ha_states lb))
     \<and> (\<forall>t s s'. map_of (ha_states lb) t = Some s \<longrightarrow> map_of (ha_states lb') t = Some s' \<longrightarrow>
           hs_moves s s')"

lemma states_move_refl: "states_move lb lb"
  by (auto simp: states_move_def hs_moves_def list_all2_refl)

lemma states_move_same_health: "same_health lb lb' \<Longrightarrow> states_move lb lb'"
  by (auto simp: states_move_def same_health_def hs_moves_def)

lemma states_move_put:
  assumes "map_of (ha_states lb) t = Some s" and "hs_moves s s'"
  shows "states_move lb (ha_put lb t s')"
    and "states_move lb (refreshHealthySelectorsLocked ops (ha_put lb t s'))"
  using assms by (auto simp: states_move_def list_all2_refl hs_moves_def)

lemmas ha_op_defs = ha_ReportHTTP_def ha_ReportTCPFailure_def ha_markHealthyLocked_def
  ha_markUnhealthyLocked_def Let_def hs_reset_def

lemma ha_ops_move:
  "states_move lb (fst (ha_ReportHTTP ops lb target status))"
  "states_move lb (fst (ha_ReportTCPFailure ops lb target timeout))"
  "states_move lb (snd (ha_markHealthyLocked ops lb target expected))"
  "states_move lb (snd (ha_markUnhealthyLocked ops lb target expected))"
  by (cases "map_of (ha_states lb) target";
      simp add: ha_op_defs states_move_refl states_move_put hs_moves_def)+

lemma ha_inv_observer:
  "ha_inv items (ha_setObserver lb name obs) = ha_inv items lb"
  "ha_inv items (ha_clearObserver lb) = ha_inv items lb"
  "states_move lb (ha_setObserver lb name obs)"
  "states_move lb (ha_clearObserver lb)"
  by (auto simp: ha_inv_def sels_ok_def ha_setObserver_def ha_clearObserver_def states_move_def
      hs_moves_def list_all2_refl)

lemma ha_NextForRequest_Nil:
  "ha_groups lb = [] \<Longrightarrow> ha_NextForRequest ops lb ctx = (t, lb', state) \<Longrightarrow> lb' = lb"
  by (auto simp: ha_NextForRequest_def Let_def)

text \<open>Every step keeps the invariant and moves the states.\<close>

lemma ha_step_inv:
  assumes "ha_step ops lb evs lb'" and "sw_laws ops items" and "ha_inv items lb"
  shows "ha_inv items lb' \<and> states_move lb lb'"
  using assms
proof cases
  case (step_Next t)
  then show ?thesis using ha_Next_spec[OF assms(2,3)] states_move_same_health by blast
next
  case (step_NextForRequest ctx t state)
  then show ?thesis
    using ha_NextForRequest_spec[OF assms(2,3)] ha_NextForRequest_Nil assms(3)
      states_move_same_health states_move_refl by metis
next
  case (step_ReportHTTP target status)
  then show ?thesis
    using ha_ReportHTTP_inv[OF assms(2,3), of target status] ha_ops_move(1)[of lb ops target status]
    by simp
next
  case (step_ReportTCP target timeout)
  then show ?thesis
    using ha_ReportTCPFailure_inv[OF assms(2,3), of target timeout]
      ha_ops_move(2)[of lb ops target timeout] by simp
next
  case (step_MarkHealthy target ok)
  then show ?thesis
    using ha_markHealthyLocked_inv[OF assms(2,3), of target None] ha_ops_move(3)[of lb ops target None]
    by (simp add: ha_MarkHealthy_def)
next
  case (step_MarkUnhealthy target ok)
  then show ?thesis
    using ha_markUnhealthyLocked_inv[OF assms(2,3), of target None]
      ha_ops_move(4)[of lb ops target None] by (simp add: ha_MarkUnhealthy_def)
next
  case (step_MarkHealthyAt target g name obs ok)
  then show ?thesis
    using ha_markHealthyLocked_inv[OF assms(2,3), of target "Some g"]
      ha_ops_move(3)[of lb ops target "Some g"]
    by (auto simp: ha_markHealthyAtGeneration_def split: prod.splits)
next
  case (step_MarkUnhealthyAt target g name obs ok)
  then show ?thesis
    using ha_markUnhealthyLocked_inv[OF assms(2,3), of target "Some g"]
      ha_ops_move(4)[of lb ops target "Some g"]
    by (auto simp: ha_markUnhealthyAtGeneration_def split: prod.splits)
next
  case (step_setObserver name obs)
  then show ?thesis using assms(3) by (simp add: ha_inv_observer)
next
  case step_clearObserver
  then show ?thesis using assms(3) by (simp add: ha_inv_observer)
qed

text \<open>The pools the upstream code builds: at least one server, and none named by the empty
  string, which \<open>Next\<close> uses for "no target".\<close>

definition servers_ok :: "(string, int) gomap \<Rightarrow> bool" where
  "servers_ok servers \<longleftrightarrow> gomap servers \<and> servers \<noteq> [] \<and> map_of servers '''' = None"

lemma ha_reachable_inv:
  assumes "ha_reachable ops servers priorities checks lb" and "sw_laws ops items" and "servers_ok servers"
  shows "ha_inv items lb \<and> dom (map_of (ha_states lb)) = dom (map_of servers)
    \<and> map pg_targets (ha_groups lb) = map pg_targets (newPriorityGroups ops servers priorities)"
  using assms
proof (induction rule: ha_reachable.induct)
  case (reachable_new lb)
  then show ?case
    using newHealthAwareLoadBalance_inv[of ops items servers] by (auto simp: servers_ok_def domIff)
next
  case (reachable_step lb evs lb')
  then show ?case
    using ha_step_inv[OF reachable_step.hyps(2)] same_groups_targets
    by (fastforce simp: states_move_def)
qed

lemma reachable_pool:
  assumes "sw_laws ops items" and "servers_ok servers"
    and "ha_reachable ops servers priorities checks lb"
  shows "ha_inv items lb"
    and "map pg_targets (ha_groups lb) = map pg_targets (newPriorityGroups ops servers priorities)"
    and "u \<in> set (pool_targets (newPriorityGroups ops servers priorities)) \<Longrightarrow>
           ha_IsHealthy lb u = ha_healthy lb u"
proof -
  show inv: "ha_inv items lb"
    and tg: "map pg_targets (ha_groups lb) = map pg_targets (newPriorityGroups ops servers priorities)"
    using ha_reachable_inv[OF assms(3,1,2)] by auto
  assume "u \<in> set (pool_targets (newPriorityGroups ops servers priorities))"
  then have "u \<in> dom (map_of (ha_states lb))"
    using inv unfolding tg[symmetric] ha_inv_def by blast
  then show "ha_IsHealthy lb u = ha_healthy lb u"
    by (auto simp: ha_IsHealthy_def ha_healthStatus_def ha_unhealthy_def)
qed

section \<open>Generations count transitions\<close>

text \<open>\<open>ha_flips ops t lb k lb'\<close>: steps lead from \<open>lb\<close> to \<open>lb'\<close>, and \<open>k\<close> of them changed the
  health of \<open>t\<close>.\<close>

inductive ha_flips ::
  "'w sw_ops \<Rightarrow> string \<Rightarrow> 'w HealthAwareLoadBalance \<Rightarrow> nat \<Rightarrow> 'w HealthAwareLoadBalance \<Rightarrow> bool"
  for ops :: "'w sw_ops" and t :: string where
  flips_refl: "ha_flips ops t lb 0 lb"
| flips_step: "ha_flips ops t lb k lb1 \<Longrightarrow> ha_step ops lb1 evs lb' \<Longrightarrow>
    ha_flips ops t lb (if ha_healthy lb' t = ha_healthy lb1 t then k else Suc k) lb'"

lemma ha_flips_generation:
  assumes "ha_flips ops t lb k lb'" and "sw_laws ops items" and "ha_inv items lb"
    and "map_of (ha_states lb) t = Some s"
  shows "ha_inv items lb'
    \<and> (\<exists>s'. map_of (ha_states lb') t = Some s' \<and> hs_generation s' = hs_generation s + of_nat k)"
  using assms
proof (induction rule: ha_flips.induct)
  case (flips_refl lb)
  then show ?case by simp
next
  case (flips_step lb k lb1 evs lb')
  then obtain s1 where inv1: "ha_inv items lb1" and s1: "map_of (ha_states lb1) t = Some s1"
    "hs_generation s1 = hs_generation s + of_nat k" by blast
  have step: "ha_inv items lb'" "states_move lb1 lb'"
    using ha_step_inv[OF flips_step.hyps(2) flips_step.prems(1) inv1] by auto
  then obtain s' where s': "map_of (ha_states lb') t = Some s'"
    using s1 by (fastforce simp: states_move_def domIff)
  then have "hs_moves s1 s'" using step s1 by (auto simp: states_move_def)
  then show ?case
    using s1 s' step by (auto simp: hs_moves_def ha_unhealthy_def)
qed

section \<open>The balancer as a load balancer\<close>

text \<open>The targets \<open>Next\<close> may return: the healthy ones of the first group that has one, or every
  target of the first group when no group has one.\<close>

definition ha_candidates :: "'w HealthAwareLoadBalance \<Rightarrow> string set" where
  "ha_candidates lb =
     (if list_ex (ha_healthy lb) (pool_targets (ha_groups lb))
      then {t. picks_first (map pg_targets (ha_groups lb)) (ha_healthy lb) t}
      else case map pg_targets (ha_groups lb) of [] \<Rightarrow> {} | ts # _ \<Rightarrow> set ts)"

lemma ha_candidates_same_health: "same_health lb lb' \<Longrightarrow> ha_candidates lb' = ha_candidates lb"
  using same_groups_targets[of "ha_groups lb" "ha_groups lb'"]
  by (simp add: same_health_def ha_candidates_def)

lemma picks_first_exists: "list_ex P (concat tss) \<Longrightarrow> \<exists>t. picks_first tss P t"
proof (induction tss)
  case (Cons ts tss)
  show ?case
  proof (cases "list_ex P ts")
    case True
    then obtain x where "x \<in> set ts" "P x" by (auto simp: list_ex_iff)
    with True have "picks_first (ts # tss) P x" by simp
    then show ?thesis by blast
  qed (use Cons in simp)
qed simp

interpretation ha: load_balancer "ha_Next ops" ha_candidates
  "\<lambda>lb. sw_laws ops items \<and> ha_inv items lb" for ops :: "'w sw_ops" and items
proof unfold_locales
  fix lb t and lb' :: "'w HealthAwareLoadBalance"
  assume inv: "sw_laws ops items \<and> ha_inv items lb" and run: "ha_Next ops lb = (t, lb')"
  note spec = ha_Next_spec[OF conjunct1[OF inv] conjunct2[OF inv] run]
  show "sw_laws ops items \<and> ha_inv items lb'" using inv spec by simp
  show "ha_candidates lb' = ha_candidates lb" using spec ha_candidates_same_health by blast
  show "t \<in> ha_candidates lb" if "ha_candidates lb \<noteq> {}"
    using spec that by (auto simp: ha_candidates_def hd_map split: list.splits if_splits)
  show "t = ''''" if "ha_candidates lb = {}"
  proof -
    have "\<not> list_ex (ha_healthy lb) (pool_targets (ha_groups lb))"
      using that picks_first_exists by (fastforce simp: ha_candidates_def split: if_splits)
    then show ?thesis
      using that spec by (auto simp: ha_candidates_def split: list.splits)
  qed
qed

section \<open>Runs of reports\<close>

definition ha_reports ::
  "'w sw_ops \<Rightarrow> 'w HealthAwareLoadBalance \<Rightarrow> string \<Rightarrow> int list \<Rightarrow> 'w HealthAwareLoadBalance" where
  "ha_reports ops lb target = foldl (\<lambda>lb status. fst (ha_ReportHTTP ops lb target status)) lb"

lemma ha_reports_simps [simp]:
  "ha_reports ops lb target [] = lb"
  "ha_reports ops lb target (status # ss) =
     ha_reports ops (fst (ha_ReportHTTP ops lb target status)) target ss"
  by (simp_all add: ha_reports_def)

lemma ha_ReportHTTP_config [simp]: "ha_config (fst (ha_ReportHTTP ops lb target status)) = ha_config lb"
  using ha_ops_move(1)[of lb ops target status] by (simp add: states_move_def)

lemma ha_reports_dom:
  "map_of (ha_states lb) t \<noteq> None \<Longrightarrow> map_of (ha_states (ha_reports ops lb t ss)) t \<noteq> None"
proof (induction ss arbitrary: lb)
  case (Cons status ss)
  have "map_of (ha_states (fst (ha_ReportHTTP ops lb t status))) t \<noteq> None"
    using ha_ops_move(1)[of lb ops t status] Cons.prems by (auto simp: states_move_def)
  then show ?case using Cons.IH by simp
qed simp

lemma ha_reports_stay:
  assumes "ha_unhealthy (ha_states lb) t"
    and "set ss \<inter> phc_HealthyStatuses (ha_config lb) = {} \<or> phc_HealthySuccesses (ha_config lb) = 0"
  shows "ha_unhealthy (ha_states (ha_reports ops lb t ss)) t"
  using assms
proof (induction ss arbitrary: lb)
  case (Cons status ss)
  have "ha_unhealthy (ha_states (fst (ha_ReportHTTP ops lb t status))) t"
    using Cons.prems by (auto simp: ha_op_defs ha_unhealthy_def split: option.splits)
  then show ?case using Cons by auto
qed simp

lemma ha_reports_stay_healthy:
  assumes "\<not> ha_unhealthy (ha_states lb) t" and "set ss \<subseteq> phc_HealthyStatuses (ha_config lb)"
  shows "\<not> ha_unhealthy (ha_states (ha_reports ops lb t ss)) t"
  using assms
proof (induction ss arbitrary: lb)
  case (Cons status ss)
  have "\<not> ha_unhealthy (ha_states (fst (ha_ReportHTTP ops lb t status))) t"
    using Cons.prems by (auto simp: ha_op_defs ha_unhealthy_def split: option.splits)
  then show ?case using Cons by auto
qed simp

lemma ha_reports_failing:
  assumes "map_of (ha_states lb) t = Some s" and "\<not> hs_unhealthy s"
    and "0 < phc_HTTPFailures (ha_config lb) \<longrightarrow> hs_httpFailures s < phc_HTTPFailures (ha_config lb)"
    and "set ss \<subseteq> phc_UnhealthyStatuses (ha_config lb) - phc_HealthyStatuses (ha_config lb)"
  shows "ha_unhealthy (ha_states (ha_reports ops lb t ss)) t \<longleftrightarrow>
    0 < phc_HTTPFailures (ha_config lb)
    \<and> phc_HTTPFailures (ha_config lb) \<le> hs_httpFailures s + int (length ss)"
  using assms
proof (induction ss arbitrary: lb s)
  case Nil
  then show ?case by (auto simp: ha_unhealthy_def)
next
  case (Cons status ss)
  let ?lb' = "fst (ha_ReportHTTP ops lb t status)" and ?L = "phc_HTTPFailures (ha_config lb)"
  let ?s2 = "s\<lparr>hs_healthySuccesses := 0, hs_httpFailures := hs_httpFailures s + 1\<rparr>"
  show ?case
  proof (cases "0 < ?L \<and> ?L \<le> hs_httpFailures s + 1")
    case True
    have "ha_unhealthy (ha_states ?lb') t"
      using Cons.prems True by (auto simp: ha_op_defs ha_unhealthy_def)
    then have "ha_unhealthy (ha_states (ha_reports ops ?lb' t ss)) t"
      using Cons.prems(4) by (intro ha_reports_stay) auto
    then show ?thesis using True by auto
  next
    case False
    have "map_of (ha_states ?lb') t = Some ?s2"
      using Cons.prems False by (auto simp: ha_op_defs)
    from Cons.IH[OF this] Cons.prems False show ?thesis by auto
  qed
qed

lemma ha_reports_recovering:
  assumes "map_of (ha_states lb) t = Some s" and "hs_unhealthy s"
    and "hs_healthySuccesses s = 0 \<or> hs_healthySuccesses s < phc_HealthySuccesses (ha_config lb)"
    and "0 \<le> phc_HealthySuccesses (ha_config lb)"
    and "set ss \<subseteq> phc_HealthyStatuses (ha_config lb)"
  shows "\<not> ha_unhealthy (ha_states (ha_reports ops lb t ss)) t \<longleftrightarrow>
    0 < phc_HealthySuccesses (ha_config lb)
    \<and> phc_HealthySuccesses (ha_config lb) \<le> hs_healthySuccesses s + int (length ss)"
  using assms
proof (induction ss arbitrary: lb s)
  case Nil
  then show ?case by (auto simp: ha_unhealthy_def)
next
  case (Cons status ss)
  let ?lb' = "fst (ha_ReportHTTP ops lb t status)" and ?N = "phc_HealthySuccesses (ha_config lb)"
  let ?s1 = "s\<lparr>hs_healthySuccesses := hs_healthySuccesses s + 1\<rparr>"
  consider (off) "?N = 0" | (last) "0 < ?N" "?N \<le> hs_healthySuccesses s + 1"
    | (more) "0 < ?N" "hs_healthySuccesses s + 1 < ?N"
    using Cons.prems(4) by linarith
  then show ?case
  proof cases
    case off
    then have "ha_unhealthy (ha_states (ha_reports ops lb t (status # ss))) t"
      using Cons.prems by (intro ha_reports_stay) (auto simp: ha_unhealthy_def)
    then show ?thesis using off by simp
  next
    case last
    have "\<not> ha_unhealthy (ha_states ?lb') t"
      using Cons.prems last by (auto simp: ha_op_defs ha_unhealthy_def)
    then have "\<not> ha_unhealthy (ha_states (ha_reports ops ?lb' t ss)) t"
      using Cons.prems(5) by (intro ha_reports_stay_healthy) auto
    then show ?thesis using last by auto
  next
    case more
    have "map_of (ha_states ?lb') t = Some ?s1"
      using Cons.prems more by (auto simp: ha_op_defs)
    from Cons.IH[OF this] Cons.prems more show ?thesis by auto
  qed
qed

section \<open>What the observer is told\<close>

lemma put_health:
  "ha_healthy (ha_put lb t s) t = (\<not> hs_unhealthy s)"
  "ha_healthy (refreshHealthySelectorsLocked ops (ha_put lb t s)) t = (\<not> hs_unhealthy s)"
  "u \<noteq> t \<Longrightarrow> map_of (ha_states (ha_put lb t s)) u = map_of (ha_states lb) u"
  by (simp_all add: ha_unhealthy_def)

lemma ha_healthy_Some: "map_of (ha_states lb) t = Some s \<Longrightarrow> ha_healthy lb t = (\<not> hs_unhealthy s)"
  by (simp add: ha_unhealthy_def)

text \<open>What the observer is to be told when \<open>lb\<close> becomes \<open>lb'\<close>.\<close>

definition ha_told ::
  "'w HealthAwareLoadBalance \<Rightarrow> string \<Rightarrow> 'w HealthAwareLoadBalance \<Rightarrow> cluster_event list" where
  "ha_told lb t lb' = (if ha_healthy lb' t = ha_healthy lb t \<or> \<not> ha_observer lb then []
                else [SetHealth (ha_name lb) t (ha_healthy lb' t)])"

lemma ha_told_put:
  assumes "map_of (ha_states lb) t = Some s"
  shows "ha_told lb t (ha_put lb t s') = 
      (if hs_unhealthy s' = hs_unhealthy s then [] else ha_notify lb t (\<not> hs_unhealthy s'))"
    "ha_told lb t (refreshHealthySelectorsLocked ops (ha_put lb t s')) = 
      (if hs_unhealthy s' = hs_unhealthy s then [] else ha_notify lb t (\<not> hs_unhealthy s'))"
    "ha_told lb t lb = []"
  using assms by (auto simp: ha_told_def ha_healthy_Some ha_notify_def put_health simp del: ha_put_sel refresh_sel)

lemma ha_ReportHTTP_told:
  "snd (ha_ReportHTTP ops lb t status) = ha_told lb t (fst (ha_ReportHTTP ops lb t status))"
  by (cases "map_of (ha_states lb) t") (simp_all add: ha_op_defs ha_told_put ha_notify_def ha_told_def[of lb t lb])

lemma ha_ReportTCPFailure_told:
  "snd (ha_ReportTCPFailure ops lb t timeout) = ha_told lb t (fst (ha_ReportTCPFailure ops lb t timeout))"
  by (cases "map_of (ha_states lb) t") (simp_all add: ha_op_defs ha_told_put ha_told_def[of lb t lb])

lemma ha_report_others:
  "u \<noteq> t \<Longrightarrow> map_of (ha_states (fst (ha_ReportHTTP ops lb t status))) u = map_of (ha_states lb) u"
  "u \<noteq> t \<Longrightarrow> map_of (ha_states (fst (ha_ReportTCPFailure ops lb t timeout))) u = map_of (ha_states lb) u"
  by (cases "map_of (ha_states lb) t"; simp add: ha_op_defs)+

lemma ha_ReportHTTP_status:
  "status \<in> phc_HealthyStatuses (ha_config lb) \<Longrightarrow> ha_healthy lb t \<Longrightarrow>
     ha_healthy (fst (ha_ReportHTTP ops lb t status)) t"
  "status \<notin> phc_HealthyStatuses (ha_config lb) \<union> phc_UnhealthyStatuses (ha_config lb) \<Longrightarrow>
     ha_ReportHTTP ops lb t status = (lb, [])"
  by (cases "map_of (ha_states lb) t"; simp add: ha_op_defs ha_unhealthy_def)+

section \<open>A concrete balancer\<close>

text \<open>Two servers at priority 1 and one at 0, the default checks; in \<open>demo_down\<close> the first is
  quarantined.\<close>

definition demo_servers :: "(string, int) gomap" where
  "demo_servers = [(''a'', 1), (''b'', 2), (''c'', 1)]"

definition demo_priorities :: "(string, int) gomap" where
  "demo_priorities = [(''a'', 1), (''b'', 1)]"

definition demo_lb :: "smooth HealthAwareLoadBalance" where
  "demo_lb = projr (newHealthAwareLoadBalance smooth_ops demo_servers demo_priorities None)"

definition demo_down :: "smooth HealthAwareLoadBalance" where
  "demo_down = snd (ha_MarkUnhealthy smooth_ops demo_lb ''a'')"

lemma demo_reachable:
  "servers_ok demo_servers"
  "ha_reachable smooth_ops demo_servers demo_priorities None demo_lb"
  "ha_reachable smooth_ops demo_servers demo_priorities None demo_down"
proof -
  show "servers_ok demo_servers"
    by (simp add: servers_ok_def demo_servers_def gomap_def)
  show lb: "ha_reachable smooth_ops demo_servers demo_priorities None demo_lb"
    by (rule reachable_new)
      (simp add: demo_lb_def newHealthAwareLoadBalance_def parsePassiveHealthConfig_def Let_def)
  have "ha_step smooth_ops demo_lb [] demo_down"
    unfolding demo_down_def
    by (rule step_MarkUnhealthy[of _ _ "''a''" "fst (ha_MarkUnhealthy smooth_ops demo_lb ''a'')"]) simp
  with lb show "ha_reachable smooth_ops demo_servers demo_priorities None demo_down"
    by (rule reachable_step)
qed

lemma demo_groups:
  "\<exists>g gs. newPriorityGroups smooth_ops demo_servers demo_priorities = g # gs"
proof -
  have "length (newPriorityGroups smooth_ops demo_servers demo_priorities) = 2" by code_simp
  then show ?thesis by (cases "newPriorityGroups smooth_ops demo_servers demo_priorities") auto
qed

section \<open>Properties\<close>

text \<open>C4. The health state of every server. Whatever steps have run since the constructor, every
  server of the pool, and nothing else, has a state; it is unhealthy exactly in its odd
  generations; a healthy one is below every failure threshold that is switched on and has no
  recovery progress; an unhealthy one has not collected the successes that recover it; and
  \<open>HealthSnapshot\<close> reports each one as \<open>IsHealthy\<close> does.\<close>

theorem reachable_states:
  assumes "sw_laws ops items" and "servers_ok servers"
    and "ha_reachable ops servers priorities checks lb"
  shows "dom (map_of (ha_states lb)) = dom (map_of servers)
    \<and> (\<forall>t s. map_of (ha_states lb) t = Some s \<longrightarrow>
         (odd (hs_generation s) \<longleftrightarrow> hs_unhealthy s)
       \<and> (\<not> hs_unhealthy s \<longrightarrow> hs_healthySuccesses s = 0
            \<and> (0 < phc_HTTPFailures (ha_config lb) \<longrightarrow> hs_httpFailures s < phc_HTTPFailures (ha_config lb))
            \<and> (0 < phc_TCPFailures (ha_config lb) \<longrightarrow> hs_tcpFailures s < phc_TCPFailures (ha_config lb))
            \<and> (0 < phc_Timeouts (ha_config lb) \<longrightarrow> hs_timeouts s < phc_Timeouts (ha_config lb)))
       \<and> (hs_unhealthy s \<longrightarrow> hs_healthySuccesses s = 0
            \<or> hs_healthySuccesses s < phc_HealthySuccesses (ha_config lb))
       \<and> map_of (ha_HealthSnapshot lb) t = Some (ha_IsHealthy lb t))"
proof -
  have inv: "ha_inv items lb" and dom: "dom (map_of (ha_states lb)) = dom (map_of servers)"
    using ha_reachable_inv[OF assms(3,1,2)] by auto
  have snap: "map_of (ha_HealthSnapshot lb) t = map_option (\<lambda>s. \<not> hs_unhealthy s) (map_of (ha_states lb) t)"
    for t unfolding ha_HealthSnapshot_def by (induction "ha_states lb") (auto simp: map_of_map)
  show ?thesis
    using inv dom by (auto simp: ha_inv_def hs_inv_def snap ha_IsHealthy_def ha_healthStatus_def)
qed

lemma reachable_states_witness:
  "sw_laws smooth_ops smooth_items \<and> servers_ok demo_servers
   \<and> ha_reachable smooth_ops demo_servers demo_priorities None demo_down
   \<and> dom (map_of (ha_states demo_down)) = dom (map_of demo_servers)
   \<and> ha_HealthSnapshot demo_down = [(''a'', False), (''b'', True), (''c'', True)]"
proof -
  have "ha_HealthSnapshot demo_down = [(''a'', False), (''b'', True), (''c'', True)]"
    by code_simp
  then show ?thesis
    using reachable_states[OF smooth_laws demo_reachable(1,3)] demo_reachable smooth_laws by blast
qed

text \<open>C5. \<open>Next\<close> prefers healthy targets. In every reachable balancer over a pool with a server
  of positive weight, \<open>Next\<close> returns a healthy target of the highest priority that has one; when
  no target is healthy it fails open and returns a target of the highest priority. It changes the
  health of none.\<close>

theorem next_prefers_healthy:
  assumes "sw_laws ops items" and "servers_ok servers"
    and "ha_reachable ops servers priorities checks lb"
    and "newPriorityGroups ops servers priorities = g # gs"
    and "ha_Next ops lb = (t, lb')"
  shows "(if list_ex (ha_IsHealthy lb) (pool_targets (g # gs))
          then picks_first (map pg_targets (g # gs)) (ha_IsHealthy lb) t
          else t \<in> set (pg_targets g))
    \<and> ha_states lb' = ha_states lb"
proof -
  note pool = reachable_pool[OF assms(1-3), unfolded assms(4)]
  have ex: "list_ex (ha_IsHealthy lb) (pool_targets (g # gs)) = list_ex (ha_healthy lb) (pool_targets (g # gs))"
    using pool(3) by (auto simp: list_ex_iff)
  have pick: "picks_first (map pg_targets (g # gs)) (ha_IsHealthy lb) t
      = picks_first (map pg_targets (g # gs)) (ha_healthy lb) t"
    using pool(3) by (rule picks_first_cong)
  have "ha_groups lb \<noteq> []" "pg_targets (hd (ha_groups lb)) = pg_targets g" using pool(2) by auto
  with ha_Next_spec[OF assms(1) pool(1) assms(5)] show ?thesis
    unfolding ex pick pool(2) by (auto simp: same_health_def)
qed

lemma next_prefers_healthy_witness:
  "ha_states (snd (ha_Next smooth_ops demo_down)) = ha_states demo_down
   \<and> fst (ha_Next smooth_ops demo_down) = ''b''"
proof -
  obtain g gs where gs: "newPriorityGroups smooth_ops demo_servers demo_priorities = g # gs"
    using demo_groups by blast
  obtain t lb' where run: "ha_Next smooth_ops demo_down = (t, lb')" by fastforce
  have "fst (ha_Next smooth_ops demo_down) = ''b''" by code_simp
  then show ?thesis
    using next_prefers_healthy[OF smooth_laws demo_reachable(1,3) gs run] run by simp
qed

text \<open>C6. Selection for a request and its retries. In every reachable balancer over a pool with a
  server of positive weight, \<open>NextForRequest\<close> returns a target that is healthy whenever the pool
  has a healthy target. As long as such a target is untried by the request, the one returned is
  untried and of the highest priority that has one, and it joins the tried ones; after that a new
  cycle starts with it alone.\<close>

theorem next_for_request:
  assumes "sw_laws ops items" and "servers_ok servers"
    and "ha_reachable ops servers priorities checks lb"
    and "newPriorityGroups ops servers priorities = g # gs"
    and "ha_NextForRequest ops lb ctx = (t, lb', state)"
    and "P = (\<lambda>u. list_ex (ha_IsHealthy lb) (pool_targets (g # gs)) \<longrightarrow> ha_IsHealthy lb u)"
  shows "t \<in> set (pool_targets (g # gs)) \<and> P t
    \<and> (if \<exists>u\<in>set (pool_targets (g # gs)). u \<notin> attempted ctx \<and> P u
       then picks_first (map pg_targets (g # gs)) (\<lambda>u. u \<notin> attempted ctx \<and> P u) t
            \<and> attempted (Some state) = insert t (attempted ctx)
       else picks_first (map pg_targets (g # gs)) P t \<and> attempted (Some state) = {t})
    \<and> ha_states lb' = ha_states lb"
proof -
  note pool = reachable_pool[OF assms(1-3), unfolded assms(4)]
  have pinv: "pool_inv items (ha_groups lb)" using pool(1) by (simp add: ha_inv_def)
  have sel: "ha_selectable lb u = P u" if "u \<in> set (pool_targets (g # gs))" for u
    using that pool(3) unfolding ha_selectable_alt[OF pinv] pool(2) assms(6) list_ex_iff by blast
  have pick: "picks_first (map pg_targets (g # gs)) (ha_selectable lb) t
      = picks_first (map pg_targets (g # gs)) P t"
    using sel by (rule picks_first_cong)
  have picku: "picks_first (map pg_targets (g # gs)) (\<lambda>u. u \<notin> attempted ctx \<and> ha_selectable lb u) t
      = picks_first (map pg_targets (g # gs)) (\<lambda>u. u \<notin> attempted ctx \<and> P u) t"
    using sel by (intro picks_first_cong) blast
  have ex: "list_ex (\<lambda>u. u \<notin> attempted ctx \<and> ha_selectable lb u) (pool_targets (g # gs))
      = (\<exists>u\<in>set (pool_targets (g # gs)). u \<notin> attempted ctx \<and> P u)"
    using sel unfolding list_ex_iff by blast
  have ne: "ha_groups lb \<noteq> []" using pool(2) by auto
  note spec = ha_NextForRequest_spec[OF assms(1) pool(1) ne assms(5), unfolded pool(2) pick picku ex]
  then have "t \<in> set (pool_targets (g # gs)) \<and> P t"
    using picks_firstD[of "map pg_targets (g # gs)" P t]
      picks_firstD[of "map pg_targets (g # gs)" "\<lambda>u. u \<notin> attempted ctx \<and> P u" t]
    by (meson)
  with spec show ?thesis unfolding same_health_def by blast
qed

lemma next_for_request_witness:
  "\<exists>t lb' state. ha_NextForRequest smooth_ops demo_down None = (t, lb', state)
     \<and> ha_states lb' = ha_states demo_down \<and> t = ''b'' \<and> ha_IsHealthy demo_down t"
proof -
  obtain g gs where gs: "newPriorityGroups smooth_ops demo_servers demo_priorities = g # gs"
    using demo_groups by blast
  obtain t lb' st where run: "ha_NextForRequest smooth_ops demo_down None = (t, lb', st)"
    by (metis prod_cases3)
  have "fst (ha_NextForRequest smooth_ops demo_down None) = ''b''" "ha_IsHealthy demo_down ''b''"
    by code_simp+
  then show ?thesis
    using next_for_request[OF smooth_laws demo_reachable(1,3) gs run refl] run by simp
qed

text \<open>C7. A probe cannot act on a health it did not see. Let a probe read the generation of a
  target of a reachable balancer, and let any steps follow, in which the target's health changes
  at least once and fewer than \<open>2 ^ 64\<close> times, however often it returns to the value the probe
  saw. Then both marks at that generation are refused: they change nothing and notify nobody.\<close>

theorem stale_probe_refused:
  assumes "sw_laws ops items" and "servers_ok servers"
    and "ha_reachable ops servers priorities checks lb" and "t \<in> dom (map_of servers)"
    and "ha_flips ops t lb k lb'" and "0 < k" and "k < 2 ^ 64"
    and "ha_healthStatus lb t = (healthy, g)"
  shows "ha_markHealthyAtGeneration ops lb' t g name obs = (False, lb', [])
    \<and> ha_markUnhealthyAtGeneration ops lb' t g name obs = (False, lb', [])"
proof -
  have inv: "ha_inv items lb" and "t \<in> dom (map_of (ha_states lb))"
    using ha_reachable_inv[OF assms(3,1,2)] assms(4) by auto
  then obtain s where s: "map_of (ha_states lb) t = Some s" by blast
  then obtain s' where s': "map_of (ha_states lb') t = Some s'"
    "hs_generation s' = hs_generation s + of_nat k"
    using ha_flips_generation[OF assms(5,1) inv s] by blast
  have "(of_nat k :: u64) \<noteq> 0"
    using assms(6,7) by (simp add: word_of_nat_eq_0_iff nat_dvd_not_less)
  then have "hs_generation s' \<noteq> g"
    using s s' assms(8) by (auto simp: ha_healthStatus_def)
  then show ?thesis
    using s' by (simp add: ha_markHealthyAtGeneration_def ha_markUnhealthyAtGeneration_def
        ha_markHealthyLocked_def ha_markUnhealthyLocked_def)
qed

lemma stale_probe_refused_witness:
  "ha_healthStatus demo_lb ''a'' = (True, 0)
   \<and> ha_markHealthyAtGeneration smooth_ops demo_down ''a'' 0 ''up'' True = (False, demo_down, [])"
proof -
  have st: "ha_healthStatus demo_lb ''a'' = (True, 0)" by code_simp
  have step: "ha_step smooth_ops demo_lb [] demo_down"
    unfolding demo_down_def
    by (rule step_MarkUnhealthy[of _ _ "''a''" "fst (ha_MarkUnhealthy smooth_ops demo_lb ''a'')"]) simp
  have "ha_healthy demo_lb ''a''" "\<not> ha_healthy demo_down ''a''" by code_simp+
  then have flips: "ha_flips smooth_ops ''a'' demo_lb (Suc 0) demo_down"
    using flips_step[OF flips_refl step, of "''a''"] by simp
  have "''a'' \<in> dom (map_of demo_servers)" by (simp add: demo_servers_def)
  from stale_probe_refused[OF smooth_laws demo_reachable(1,2) this flips _ _ st] st
  show ?thesis by simp
qed

text \<open>C8. Passive reports and the observer. A report changes the health state of its target only,
  and the observer, when there is one, is told exactly when the target's health changed, with the
  new health. A response whose status is in both sets counts as healthy, and one in neither set
  changes nothing.\<close>

theorem report_events_exact:
  "snd (ha_ReportHTTP ops lb t status) = ha_told lb t (fst (ha_ReportHTTP ops lb t status))
   \<and> snd (ha_ReportTCPFailure ops lb t timeout) = ha_told lb t (fst (ha_ReportTCPFailure ops lb t timeout))
   \<and> (\<forall>u. u \<noteq> t \<longrightarrow>
        map_of (ha_states (fst (ha_ReportHTTP ops lb t status))) u = map_of (ha_states lb) u
      \<and> map_of (ha_states (fst (ha_ReportTCPFailure ops lb t timeout))) u = map_of (ha_states lb) u)
   \<and> (status \<in> phc_HealthyStatuses (ha_config lb) \<longrightarrow> ha_healthy lb t \<longrightarrow>
        ha_healthy (fst (ha_ReportHTTP ops lb t status)) t)
   \<and> (status \<notin> phc_HealthyStatuses (ha_config lb) \<union> phc_UnhealthyStatuses (ha_config lb) \<longrightarrow>
        ha_ReportHTTP ops lb t status = (lb, []))"
  by (intro conjI allI impI ha_ReportHTTP_told ha_ReportTCPFailure_told ha_report_others
      ha_ReportHTTP_status)

lemma report_events_exact_witness:
  "map_of (ha_states (fst (ha_ReportHTTP smooth_ops demo_lb ''a'' 200))) ''b'' = map_of (ha_states demo_lb) ''b''
   \<and> ha_healthy (fst (ha_ReportHTTP smooth_ops demo_lb ''a'' 200)) ''a''
   \<and> ha_ReportHTTP smooth_ops demo_lb ''a'' 418 = (demo_lb, [])
   \<and> snd (ha_ReportTCPFailure smooth_ops
         (fst (ha_ReportTCPFailure smooth_ops (ha_setObserver demo_lb ''up'' True) ''a'' False)) ''a'' False)
      = [SetHealth ''up'' ''a'' False]"
proof -
  let ?lb = "fst (ha_ReportTCPFailure smooth_ops (ha_setObserver demo_lb ''up'' True) ''a'' False)"
  note exact = report_events_exact[of smooth_ops demo_lb "''a''"]
  have "200 \<in> phc_HealthyStatuses (ha_config demo_lb)" "ha_healthy demo_lb ''a''"
    and neutral: "418 \<notin> phc_HealthyStatuses (ha_config demo_lb) \<union> phc_UnhealthyStatuses (ha_config demo_lb)"
    by code_simp+
  then have ok: "ha_healthy (fst (ha_ReportHTTP smooth_ops demo_lb ''a'' 200)) ''a''"
    using exact[of 200] by blast
  have other: "map_of (ha_states (fst (ha_ReportHTTP smooth_ops demo_lb ''a'' 200))) ''b''
      = map_of (ha_states demo_lb) ''b''"
    using exact[of 200] by simp
  have "ha_told ?lb ''a'' (fst (ha_ReportTCPFailure smooth_ops ?lb ''a'' False))
      = [SetHealth ''up'' ''a'' False]" by code_simp
  then have "snd (ha_ReportTCPFailure smooth_ops ?lb ''a'' False) = [SetHealth ''up'' ''a'' False]"
    using report_events_exact[of smooth_ops ?lb "''a''" 0 False] by simp
  with ok other exact[of 418] neutral show ?thesis by blast
qed

text \<open>C9. Exact thresholds. In a reachable balancer, a healthy target that receives responses whose
  statuses are all unhealthy ones is quarantined by exactly the response that completes
  \<open>http_failures\<close> failures since its last success, and never when that threshold is 0; a
  quarantined one that receives healthy responses recovers with exactly the response that
  completes \<open>successes\<close>, and never when that is 0.\<close>

theorem report_thresholds_exact:
  assumes "sw_laws ops items" and "servers_ok servers"
    and "ha_reachable ops servers priorities checks lb" and "map_of (ha_states lb) t = Some s"
    and "c = ha_config lb"
  shows "(\<not> hs_unhealthy s \<longrightarrow> set ss \<subseteq> phc_UnhealthyStatuses c - phc_HealthyStatuses c \<longrightarrow>
           (ha_IsHealthy (ha_reports ops lb t ss) t \<longleftrightarrow>
              phc_HTTPFailures c = 0 \<or> hs_httpFailures s + int (length ss) < phc_HTTPFailures c))
    \<and> (hs_unhealthy s \<longrightarrow> set ss \<subseteq> phc_HealthyStatuses c \<longrightarrow>
           (ha_IsHealthy (ha_reports ops lb t ss) t \<longleftrightarrow>
              phc_HealthySuccesses c \<noteq> 0
              \<and> phc_HealthySuccesses c \<le> hs_healthySuccesses s + int (length ss)))"
proof -
  have inv: "ha_inv items lb" using ha_reachable_inv[OF assms(3,1,2)] by simp
  then have hs: "hs_inv c s" "passive_ok c" using assms(4,5) by (auto simp: ha_inv_def)
  have dom: "map_of (ha_states (ha_reports ops lb t ss)) t \<noteq> None"
    by (rule ha_reports_dom) (simp add: assms(4))
  then have IsHealthy: "ha_IsHealthy (ha_reports ops lb t ss) t
      = ha_healthy (ha_reports ops lb t ss) t"
    by (auto simp: ha_IsHealthy_def ha_healthStatus_def ha_unhealthy_def split: option.splits)
  have "ha_healthy (ha_reports ops lb t ss) t \<longleftrightarrow>
      phc_HTTPFailures c = 0 \<or> hs_httpFailures s + int (length ss) < phc_HTTPFailures c"
    if "\<not> hs_unhealthy s" "set ss \<subseteq> phc_UnhealthyStatuses c - phc_HealthyStatuses c"
    using ha_reports_failing[OF assms(4) that(1), of ss ops] hs that assms(5)
    by (auto simp: hs_inv_def passive_ok_def)
  moreover have "ha_healthy (ha_reports ops lb t ss) t \<longleftrightarrow>
      phc_HealthySuccesses c \<noteq> 0 \<and> phc_HealthySuccesses c \<le> hs_healthySuccesses s + int (length ss)"
    if "hs_unhealthy s" "set ss \<subseteq> phc_HealthyStatuses c"
    using ha_reports_recovering[OF assms(4) that(1), of ss ops] hs that assms(5)
    by (auto simp: hs_inv_def passive_ok_def)
  ultimately show ?thesis unfolding IsHealthy by blast
qed

lemma report_thresholds_exact_witness:
  "ha_IsHealthy (ha_reports smooth_ops demo_lb ''a'' [500, 503, 500, 500]) ''a''
   \<and> \<not> ha_IsHealthy (ha_reports smooth_ops demo_lb ''a'' [500, 503, 500, 500, 503]) ''a''"
proof -
  have s: "map_of (ha_states demo_lb) ''a'' = Some hs_zero" by code_simp
  have c: "phc_HTTPFailures (ha_config demo_lb) = 5"
    "set [500, 503, 500, 500] \<subseteq> phc_UnhealthyStatuses (ha_config demo_lb) - phc_HealthyStatuses (ha_config demo_lb)"
    "set [500, 503, 500, 500, 503] \<subseteq> phc_UnhealthyStatuses (ha_config demo_lb) - phc_HealthyStatuses (ha_config demo_lb)"
    by code_simp+
  note thr = report_thresholds_exact[OF smooth_laws demo_reachable(1,2) s refl]
  from thr[of "[500, 503, 500, 500]"] thr[of "[500, 503, 500, 500, 503]"] c show ?thesis
    by (simp add: hs_zero_def)
qed

end
