(* ===== verification/Active_Health.thy ===== *)
theory Active_Health
  imports Health
begin

text \<open>
  The active health checker, \<open>pkg/proxy/active_health.go\<close>: what one probe sends and how its
  outcome is classified, how a result moves the counters and the balancer, and the goroutines
  that probe the targets under a semaphore until \<open>Close\<close>. The network is the environment: the
  outcome of an exchange is an input.
\<close>

section \<open>The checker\<close>

datatype activeProbeResult =
    activeProbeSuccess
  | activeProbeNeutral
  | activeProbeHTTPFailure
  | activeProbeTCPFailure
  | activeProbeTimeout
  | activeProbeCanceled

record activeProbeCounters =
  apc_successes :: int
  apc_httpFailures :: int
  apc_tcpFailures :: int
  apc_timeouts :: int
  apc_generation :: u64

text \<open>\<open>activeProbeCounters{generation: g}\<close>\<close>

definition counters_at :: "u64 \<Rightarrow> activeProbeCounters" where
  "counters_at g = \<lparr>apc_successes = 0, apc_httpFailures = 0, apc_tcpFailures = 0, apc_timeouts = 0,
                    apc_generation = g\<rparr>"

text \<open>A round tripper is an \<open>http.Transport\<close> with an identity, the default one, or something
  else. A probe uses the cluster's own or a clone, of which the \<open>InsecureSkipVerify\<close> it is given
  matters here.\<close>

datatype round_tripper = HTTPTransport nat | DefaultTransport | OtherTripper nat

datatype probe_transport = SharedTransport round_tripper | ClonedTransport round_tripper bool

definition activeHealthProbeTransport ::
  "round_tripper \<Rightarrow> ActiveHealthConfig \<Rightarrow> probe_transport" where
  "activeHealthProbeTransport base config =
     (if ahc_Type config \<noteq> ''https'' then SharedTransport base
      else let source = (case base of OtherTripper _ \<Rightarrow> DefaultTransport | transport \<Rightarrow> transport)
           in ClonedTransport source (\<not> ahc_HTTPSVerifyCertificate config))"

record activeHealthChecker =
  ck_config :: ActiveHealthConfig
  ck_targets :: "string list"
  ck_observer :: bool
  ck_name :: string
  ck_transport :: probe_transport
  ck_capacity :: nat

definition newActiveHealthChecker ::
  "ActiveHealthConfig \<Rightarrow> (string, int) gomap \<Rightarrow> string \<Rightarrow> bool \<Rightarrow> round_tripper \<Rightarrow> activeHealthChecker" where
  "newActiveHealthChecker config targets name observer base =
     (let config = (if ahc_Concurrency config \<le> 0 then config\<lparr>ahc_Concurrency := 10\<rparr> else config)
      in \<lparr>ck_config = config, ck_targets = mkeys targets, ck_observer = observer, ck_name = name,
          ck_transport = activeHealthProbeTransport base config,
          ck_capacity = nat (ahc_Concurrency config)\<rparr>)"

section \<open>One probe\<close>

record url =
  url_Scheme :: string
  url_Host :: string
  url_Path :: string
  url_RawPath :: string
  url_RawQuery :: string
  url_ForceQuery :: bool
  url_Fragment :: string

definition probe_url :: "ActiveHealthConfig \<Rightarrow> url \<Rightarrow> url \<Rightarrow> url" where
  "probe_url config targetURL probePath =
     (let u = targetURL\<lparr>url_Scheme := ahc_Type config, url_Path := url_Path probePath,
                        url_RawPath := url_RawPath probePath\<rparr>;
          u1 = (if url_RawQuery probePath \<noteq> ''''
                then u\<lparr>url_RawQuery := url_RawQuery probePath, url_ForceQuery := url_ForceQuery probePath\<rparr>
                else u)
      in u1\<lparr>url_Fragment := ''''\<rparr>)"

text \<open>What \<open>httpClient.Do\<close> gives: an error, with the states of the two contexts and whether the
  error itself is a deadline or a network timeout, or a response status.\<close>

datatype exchange = ExchangeError bool bool bool | ExchangeStatus int

definition classify_exchange :: "ActiveHealthConfig \<Rightarrow> exchange \<Rightarrow> activeProbeResult" where
  "classify_exchange config x =
     (case x of
        ExchangeError canceled deadline timeout \<Rightarrow>
          if canceled then activeProbeCanceled
          else if deadline then activeProbeTimeout
          else if timeout then activeProbeTimeout
          else activeProbeTCPFailure
      | ExchangeStatus status \<Rightarrow>
          if status \<in> ahc_HealthyStatuses config then activeProbeSuccess
          else if status \<in> ahc_UnhealthyStatuses config then activeProbeHTTPFailure
          else activeProbeNeutral)"

text \<open>\<open>url.Parse\<close> of the target and of the path are inputs, \<open>None\<close> when they fail, and so is
  whether \<open>NewRequestWithContext\<close> accepts the URL; \<open>exch\<close> is the network, given the URL and the
  \<open>Host\<close> the request carries (the configured one, or the URL's).\<close>

definition probeHTTP ::
  "activeHealthChecker \<Rightarrow> url option \<Rightarrow> url option \<Rightarrow> (url \<Rightarrow> bool)
     \<Rightarrow> (url \<Rightarrow> string \<Rightarrow> exchange) \<Rightarrow> activeProbeResult" where
  "probeHTTP c targetURL probePath accepts exch =
     (case targetURL of
        None \<Rightarrow> activeProbeTCPFailure
      | Some t \<Rightarrow> (case probePath of
            None \<Rightarrow> activeProbeTCPFailure
          | Some p \<Rightarrow>
              let u = probe_url (ck_config c) t p
              in if \<not> accepts u then activeProbeTCPFailure
                 else let host = (if ahc_Host (ck_config c) \<noteq> '''' then ahc_Host (ck_config c) else url_Host u)
                      in classify_exchange (ck_config c) (exch u host)))"

definition probeResult ::
  "activeHealthChecker \<Rightarrow> bool \<Rightarrow> url option \<Rightarrow> url option \<Rightarrow> (url \<Rightarrow> bool)
     \<Rightarrow> (url \<Rightarrow> string \<Rightarrow> exchange) \<Rightarrow> activeProbeResult" where
  "probeResult c canceled targetURL probePath accepts exch =
     (if canceled then activeProbeCanceled else probeHTTP c targetURL probePath accepts exch)"

section \<open>Applying a result\<close>

text \<open>
  \<open>applyProbeResultAtGeneration\<close> reads the balancer, decides, and then marks it, under one lock
  each; other goroutines may run in between. \<open>probe_decide\<close> is the part up to the mark: the new
  counters, and the health to mark the target with, if any.
\<close>

definition counters_sync :: "u64 \<Rightarrow> activeProbeCounters \<Rightarrow> activeProbeCounters" where
  "counters_sync generation counters =
     (if apc_generation counters \<noteq> generation then counters_at generation else counters)"

definition clear_failures :: "activeProbeCounters \<Rightarrow> activeProbeCounters" where
  "clear_failures counters = counters\<lparr>apc_httpFailures := 0, apc_tcpFailures := 0, apc_timeouts := 0\<rparr>"

definition probe_failure ::
  "ActiveHealthConfig \<Rightarrow> activeProbeResult \<Rightarrow> activeProbeCounters \<Rightarrow> activeProbeCounters \<times> int \<times> int" where
  "probe_failure config r counters =
     (case r of
        activeProbeHTTPFailure \<Rightarrow>
          (counters\<lparr>apc_httpFailures := apc_httpFailures counters + 1\<rparr>,
           ahc_UnhealthyHTTPFails config, apc_httpFailures counters + 1)
      | activeProbeTCPFailure \<Rightarrow>
          (counters\<lparr>apc_tcpFailures := apc_tcpFailures counters + 1\<rparr>,
           ahc_UnhealthyTCPFails config, apc_tcpFailures counters + 1)
      | activeProbeTimeout \<Rightarrow>
          (counters\<lparr>apc_timeouts := apc_timeouts counters + 1\<rparr>,
           ahc_UnhealthyTimeouts config, apc_timeouts counters + 1)
      | _ \<Rightarrow> (counters, 0, 0))"

definition probe_decide ::
  "ActiveHealthConfig \<Rightarrow> bool \<times> u64 \<Rightarrow> u64 \<Rightarrow> activeProbeResult \<Rightarrow> activeProbeCounters
     \<Rightarrow> activeProbeCounters \<times> bool option" where
  "probe_decide config status expected r counters =
     (let (healthy, generation) = status
      in if generation \<noteq> expected then (counters_at generation, None)
         else let c1 = counters_sync generation counters
         in if r = activeProbeSuccess then
              let c2 = clear_failures c1
              in if healthy then (c2\<lparr>apc_successes := 0\<rparr>, None)
                 else let c3 = c2\<lparr>apc_successes := apc_successes c2 + 1\<rparr>
                      in if ahc_HealthySuccesses config \<le> apc_successes c3
                         then (c3\<lparr>apc_successes := 0\<rparr>, Some True) else (c3, None)
            else if r = activeProbeNeutral then (c1, None)
            else let c2 = c1\<lparr>apc_successes := 0\<rparr>
                 in if \<not> healthy then (clear_failures c2, None)
                    else let (c3, threshold, failures) = probe_failure config r c2
                         in if 0 < threshold \<and> threshold \<le> failures
                            then (clear_failures c3, Some False) else (c3, None))"

definition resetProbeCounters :: "'w HealthAwareLoadBalance \<Rightarrow> string \<Rightarrow> activeProbeCounters" where
  "resetProbeCounters lb target = counters_at (snd (ha_healthStatus lb target))"

text \<open>The mark and, when it was refused, the reset.\<close>

definition probe_commit ::
  "'w sw_ops \<Rightarrow> activeHealthChecker \<Rightarrow> 'w HealthAwareLoadBalance \<Rightarrow> string \<Rightarrow> u64 \<Rightarrow> bool option
     \<Rightarrow> activeProbeCounters \<Rightarrow> 'w HealthAwareLoadBalance \<times> activeProbeCounters \<times> cluster_event list" where
  "probe_commit ops c lb target expected mark counters =
     (case mark of
        None \<Rightarrow> (lb, counters, [])
      | Some healthy \<Rightarrow>
          let (ok, lb', evs) =
                (if healthy
                 then ha_markHealthyAtGeneration ops lb target expected (ck_name c) (ck_observer c)
                 else ha_markUnhealthyAtGeneration ops lb target expected (ck_name c) (ck_observer c))
          in (lb', if ok then counters else resetProbeCounters lb' target, evs))"

text \<open>\<open>env\<close> is what the other goroutines do to the balancer between the read and the mark.\<close>

definition applyProbeResultAtGeneration ::
  "'w sw_ops \<Rightarrow> activeHealthChecker \<Rightarrow> ('w HealthAwareLoadBalance \<Rightarrow> 'w HealthAwareLoadBalance)
     \<Rightarrow> 'w HealthAwareLoadBalance \<Rightarrow> string \<Rightarrow> u64 \<Rightarrow> activeProbeResult \<Rightarrow> activeProbeCounters
     \<Rightarrow> 'w HealthAwareLoadBalance \<times> activeProbeCounters \<times> cluster_event list" where
  "applyProbeResultAtGeneration ops c env lb target expected r counters =
     (let (counters', mark) = probe_decide (ck_config c) (ha_healthStatus lb target) expected r counters
      in probe_commit ops c (env lb) target expected mark counters')"

text \<open>A run of probes of one target with nothing else happening: each reads the generation, and
  its result is applied.\<close>

fun probe_run ::
  "'w sw_ops \<Rightarrow> activeHealthChecker \<Rightarrow> 'w HealthAwareLoadBalance \<Rightarrow> string \<Rightarrow> activeProbeCounters
     \<Rightarrow> activeProbeResult list \<Rightarrow> 'w HealthAwareLoadBalance \<times> activeProbeCounters" where
  "probe_run ops c lb target counters [] = (lb, counters)"
| "probe_run ops c lb target counters (r # rs) =
     (let (_, generation) = ha_healthStatus lb target;
          (lb', counters', _) = applyProbeResultAtGeneration ops c (\<lambda>lb. lb) lb target generation r counters
      in probe_run ops c lb' target counters' rs)"

section \<open>The probe goroutines\<close>

text \<open>
  Where the goroutine of a target stands in the loop of \<open>probeTarget\<close>: in the first \<open>select\<close>; in
  \<open>acquireSemaphore\<close>; holding a token before it reads the generation; in the exchange; with a
  result it has not applied; decided and about to mark; returned.
\<close>

datatype probe_phase =
    Sleeping
  | Acquiring
  | Holding
  | Probing u64
  | Applying u64 activeProbeResult
  | Marking u64 "bool option"
  | Exited

record 'w checker_state =
  cs_lb :: "'w HealthAwareLoadBalance"
  cs_phase :: "string \<Rightarrow> probe_phase"
  cs_counters :: "string \<Rightarrow> activeProbeCounters"
  cs_tokens :: nat
  cs_canceled :: bool

text \<open>\<open>Start\<close>: one goroutine per target, each with zero counters.\<close>

definition checker_Start :: "activeHealthChecker \<Rightarrow> 'w HealthAwareLoadBalance \<Rightarrow> 'w checker_state" where
  "checker_Start c lb =
     \<lparr>cs_lb = lb, cs_phase = (\<lambda>t. if t \<in> set (ck_targets c) then Sleeping else Exited),
      cs_counters = (\<lambda>_. counters_at 0), cs_tokens = 0, cs_canceled = False\<rparr>"

definition set_phase :: "'w checker_state \<Rightarrow> string \<Rightarrow> probe_phase \<Rightarrow> 'w checker_state" where
  "set_phase s t p = s\<lparr>cs_phase := (cs_phase s)(t := p)\<rparr>"

text \<open>One step of the goroutine of target \<open>t\<close>.\<close>

inductive probe_step ::
  "'w sw_ops \<Rightarrow> activeHealthChecker \<Rightarrow> string \<Rightarrow> 'w checker_state \<Rightarrow> 'w checker_state \<Rightarrow> bool"
  for ops :: "'w sw_ops" and c :: activeHealthChecker and t :: string where
  sleep_done: "cs_phase s t = Sleeping \<Longrightarrow> cs_canceled s \<Longrightarrow> probe_step ops c t s (set_phase s t Exited)"
| sleep_timer: "cs_phase s t = Sleeping \<Longrightarrow> probe_step ops c t s (set_phase s t Acquiring)"
| acquire_ok: "cs_phase s t = Acquiring \<Longrightarrow> cs_tokens s < ck_capacity c \<Longrightarrow>
    probe_step ops c t s (set_phase s t Holding\<lparr>cs_tokens := cs_tokens s + 1\<rparr>)"
| acquire_done: "cs_phase s t = Acquiring \<Longrightarrow> cs_canceled s \<Longrightarrow> probe_step ops c t s (set_phase s t Exited)"
| read_generation: "cs_phase s t = Holding \<Longrightarrow>
    probe_step ops c t s (set_phase s t (Probing (snd (ha_healthStatus (cs_lb s) t))))"
| exchange_done: "cs_phase s t = Probing g \<Longrightarrow> (cs_canceled s \<or> r \<noteq> activeProbeCanceled) \<Longrightarrow>
    probe_step ops c t s
      (set_phase s t (if r = activeProbeCanceled \<or> cs_canceled s then Exited else Applying g r)
         \<lparr>cs_tokens := cs_tokens s - 1\<rparr>)"
| decide: "cs_phase s t = Applying g r \<Longrightarrow>
    probe_decide (ck_config c) (ha_healthStatus (cs_lb s) t) g r (cs_counters s t) = (counters, mark) \<Longrightarrow>
    probe_step ops c t s (set_phase s t (Marking g mark)\<lparr>cs_counters := (cs_counters s)(t := counters)\<rparr>)"
| commit: "cs_phase s t = Marking g mark \<Longrightarrow>
    probe_commit ops c (cs_lb s) t g mark (cs_counters s t) = (lb', counters, evs) \<Longrightarrow>
    probe_step ops c t s
      (set_phase s t Sleeping\<lparr>cs_lb := lb', cs_counters := (cs_counters s)(t := counters)\<rparr>)"

text \<open>The system: a goroutine steps, another user of the balancer steps, or \<open>Close\<close> cancels.\<close>

inductive checker_step ::
  "'w sw_ops \<Rightarrow> activeHealthChecker \<Rightarrow> 'w checker_state \<Rightarrow> 'w checker_state \<Rightarrow> bool"
  for ops :: "'w sw_ops" and c :: activeHealthChecker where
  goroutine: "t \<in> set (ck_targets c) \<Longrightarrow> probe_step ops c t s s' \<Longrightarrow> checker_step ops c s s'"
| others: "ha_step ops (cs_lb s) evs lb' \<Longrightarrow> checker_step ops c s (s\<lparr>cs_lb := lb'\<rparr>)"
| close: "checker_step ops c s (s\<lparr>cs_canceled := True\<rparr>)"

inductive checker_reachable ::
  "'w sw_ops \<Rightarrow> activeHealthChecker \<Rightarrow> 'w HealthAwareLoadBalance \<Rightarrow> 'w checker_state \<Rightarrow> bool"
  for ops :: "'w sw_ops" and c :: activeHealthChecker and lb :: "'w HealthAwareLoadBalance" where
  checker_init: "checker_reachable ops c lb (checker_Start c lb)"
| checker_more: "checker_reachable ops c lb s \<Longrightarrow> checker_step ops c s s' \<Longrightarrow>
    checker_reachable ops c lb s'"

section \<open>The goroutines hold the tokens\<close>

definition holds_token :: "probe_phase \<Rightarrow> bool" where
  "holds_token p = (case p of Holding \<Rightarrow> True | Probing _ \<Rightarrow> True | _ \<Rightarrow> False)"

definition token_holders :: "'w checker_state \<Rightarrow> string set" where
  "token_holders s = {t. holds_token (cs_phase s t)}"

lemma holds_token_simps [simp]:
  "\<not> holds_token Sleeping" "\<not> holds_token Acquiring" "holds_token Holding" "holds_token (Probing g)"
  "\<not> holds_token (Applying g r)" "\<not> holds_token (Marking g m)" "\<not> holds_token Exited"
  by (simp_all add: holds_token_def)

lemma set_phase_sel [simp]:
  "cs_phase (set_phase s t p) = (cs_phase s)(t := p)" "cs_lb (set_phase s t p) = cs_lb s"
  "cs_counters (set_phase s t p) = cs_counters s" "cs_tokens (set_phase s t p) = cs_tokens s"
  "cs_canceled (set_phase s t p) = cs_canceled s"
  by (simp_all add: set_phase_def)

lemma token_holders_update:
  "token_holders (s\<lparr>cs_lb := lb\<rparr>) = token_holders s"
  "token_holders (s\<lparr>cs_counters := cn\<rparr>) = token_holders s"
  "token_holders (s\<lparr>cs_tokens := n\<rparr>) = token_holders s"
  "token_holders (s\<lparr>cs_canceled := b\<rparr>) = token_holders s"
  "token_holders (set_phase s t p) =
     (if holds_token p then insert t (token_holders s) else token_holders s - {t})"
  by (auto simp: token_holders_def)

text \<open>The tokens in the semaphore are those of the goroutines between acquire and release.\<close>

definition checker_inv :: "activeHealthChecker \<Rightarrow> 'w checker_state \<Rightarrow> bool" where
  "checker_inv c s \<longleftrightarrow> (\<forall>t. t \<notin> set (ck_targets c) \<longrightarrow> cs_phase s t = Exited)
     \<and> cs_tokens s = card (token_holders s) \<and> cs_tokens s \<le> ck_capacity c"

lemma checker_inv_finite: "checker_inv c s \<Longrightarrow> finite (token_holders s)"
  by (rule finite_subset[of _ "set (ck_targets c)"])
    (force simp: checker_inv_def token_holders_def)+

lemma probe_step_frame:
  "probe_step ops c t s s' \<Longrightarrow>
   cs_canceled s' = cs_canceled s \<and> (\<forall>u. u \<noteq> t \<longrightarrow> cs_phase s' u = cs_phase s u)"
  by (induction rule: probe_step.induct) auto

lemma probe_step_inv:
  assumes "probe_step ops c t s s'" and inv: "checker_inv c s" and "t \<in> set (ck_targets c)"
  shows "checker_inv c s'"
proof -
  have fin: "finite (token_holders s)" by (rule checker_inv_finite[OF inv])
  have out: "\<forall>u. u \<notin> set (ck_targets c) \<longrightarrow> cs_phase s' u = Exited"
    using probe_step_frame[OF assms(1)] inv assms(3) by (auto simp: checker_inv_def)
  have keep: "card (token_holders s - {t}) = card (token_holders s)"
    if "\<not> holds_token (cs_phase s t)" using that by (simp add: token_holders_def)
  have drop: "card (token_holders s - {t}) = card (token_holders s) - 1"
    if "holds_token (cs_phase s t)" using that fin by (simp add: token_holders_def)
  have "cs_tokens s' = card (token_holders s') \<and> cs_tokens s' \<le> ck_capacity c"
    using assms(1)
  proof cases
    case acquire_ok
    then have "t \<notin> token_holders s" by (simp add: token_holders_def)
    with acquire_ok inv fin show ?thesis
      by (simp add: checker_inv_def token_holders_update)
  next
    case read_generation
    then have "insert t (token_holders s) = token_holders s" by (auto simp: token_holders_def)
    with read_generation inv show ?thesis
      by (simp add: checker_inv_def token_holders_update)
  next
    case (exchange_done g r)
    with inv drop show ?thesis by (auto simp: checker_inv_def token_holders_update)
  qed (use inv keep in \<open>simp_all add: checker_inv_def token_holders_update\<close>)
  with out show ?thesis by (simp add: checker_inv_def)
qed

lemma probe_commit_step:
  assumes "probe_commit ops c lb t g mark counters = (lb', counters', evs)"
  shows "lb' = lb \<or> ha_step ops lb evs lb'"
proof (cases mark)
  case None
  then show ?thesis using assms by (simp add: probe_commit_def)
next
  case (Some healthy)
  then show ?thesis
    using assms step_MarkHealthyAt step_MarkUnhealthyAt
    by (cases healthy) (auto simp: probe_commit_def split: prod.splits, blast+)
qed

lemma probe_step_lb:
  assumes "probe_step ops c t s s'"
  shows "cs_lb s' = cs_lb s \<or> (\<exists>evs. ha_step ops (cs_lb s) evs (cs_lb s'))"
  using assms
proof cases
  case (commit g mark lb' counters evs)
  then show ?thesis using probe_commit_step by fastforce
qed simp_all

lemma checker_reachable_inv:
  assumes "checker_reachable ops c lb s" and "ha_reachable ops servers priorities checks lb"
  shows "checker_inv c s \<and> ha_reachable ops servers priorities checks (cs_lb s)"
  using assms
proof (induction rule: checker_reachable.induct)
  case checker_init
  then show ?case
    by (auto simp: checker_inv_def checker_Start_def token_holders_def)
next
  case (checker_more s s')
  then have inv: "checker_inv c s" and re: "ha_reachable ops servers priorities checks (cs_lb s)" by auto
  from checker_more.hyps(2) show ?case
  proof cases
    case (goroutine t)
    then show ?thesis
      using probe_step_inv[OF goroutine(2) inv goroutine(1)] probe_step_lb[OF goroutine(2)] re
        reachable_step by fastforce
  next
    case (others evs lb')
    then show ?thesis
      using inv re reachable_step by (fastforce simp: checker_inv_def token_holders_update)
  next
    case close
    then show ?thesis using inv re by (simp add: checker_inv_def token_holders_update)
  qed
qed

section \<open>Close terminates\<close>

text \<open>How many steps a goroutine has left once the context is cancelled.\<close>

definition phase_rank :: "probe_phase \<Rightarrow> nat" where
  "phase_rank p = (case p of Exited \<Rightarrow> 0 | Probing _ \<Rightarrow> 1 | Holding \<Rightarrow> 2 | Acquiring \<Rightarrow> 3
     | Sleeping \<Rightarrow> 4 | Marking _ _ \<Rightarrow> 5 | Applying _ _ \<Rightarrow> 6)"

definition checker_rank :: "activeHealthChecker \<Rightarrow> 'w checker_state \<Rightarrow> nat" where
  "checker_rank c s = (\<Sum>t\<in>set (ck_targets c). phase_rank (cs_phase s t))"

lemma phase_rank_0 [simp]: "phase_rank p = 0 \<longleftrightarrow> p = Exited"
  by (cases p) (simp_all add: phase_rank_def)

lemma probe_step_rank:
  "probe_step ops c t s s' \<Longrightarrow> cs_canceled s \<Longrightarrow>
   phase_rank (cs_phase s' t) < phase_rank (cs_phase s t)"
  by (induction rule: probe_step.induct) (auto simp: phase_rank_def)

lemma probe_step_checker_rank:
  assumes "probe_step ops c t s s'" and "cs_canceled s" and "t \<in> set (ck_targets c)"
  shows "checker_rank c s' < checker_rank c s"
  unfolding checker_rank_def
proof (rule sum_strict_mono_ex1)
  show "\<forall>u\<in>set (ck_targets c). phase_rank (cs_phase s' u) \<le> phase_rank (cs_phase s u)"
    using probe_step_rank[OF assms(1,2)] probe_step_frame[OF assms(1)]
    by (metis less_imp_le order_refl)
  show "\<exists>u\<in>set (ck_targets c). phase_rank (cs_phase s' u) < phase_rank (cs_phase s u)"
    using probe_step_rank[OF assms(1,2)] assms(3) by blast
qed simp

lemma probe_step_enabled:
  assumes "cs_canceled s" and "cs_phase s t \<noteq> Exited"
  shows "\<exists>s'. probe_step ops c t s s'"
proof (cases "cs_phase s t")
  case (Applying g r)
  obtain counters mark where
    "probe_decide (ck_config c) (ha_healthStatus (cs_lb s) t) g r (cs_counters s t) = (counters, mark)"
    by fastforce
  with Applying show ?thesis by (blast intro: probe_step.decide)
next
  case (Marking g mark)
  obtain lb' counters evs where
    "probe_commit ops c (cs_lb s) t g mark (cs_counters s t) = (lb', counters, evs)"
    by (metis prod_cases3)
  with Marking show ?thesis by (blast intro: probe_step.commit)
next
  case (Probing g)
  then show ?thesis using assms by (blast intro: probe_step.exchange_done)
qed (use assms in \<open>blast intro: probe_step.intros\<close>)+

section \<open>Counting failures\<close>

definition failure_results :: "activeProbeResult set" where
  "failure_results = {activeProbeHTTPFailure, activeProbeTCPFailure, activeProbeTimeout}"

definition threshold_of :: "ActiveHealthConfig \<Rightarrow> activeProbeResult \<Rightarrow> int" where
  "threshold_of config r = fst (snd (probe_failure config r (counters_at 0)))"

definition failures_of :: "activeProbeCounters \<Rightarrow> activeProbeResult \<Rightarrow> int" where
  "failures_of counters r =
     (case r of activeProbeHTTPFailure \<Rightarrow> apc_httpFailures counters
      | activeProbeTCPFailure \<Rightarrow> apc_tcpFailures counters
      | activeProbeTimeout \<Rightarrow> apc_timeouts counters | _ \<Rightarrow> 0)"

lemma probe_failure_spec:
  assumes "r \<in> failure_results" and "probe_failure config r counters = (c', threshold, failures)"
  shows "threshold = threshold_of config r" and "failures = failures_of counters r + 1"
    and "failures_of c' u = (if u = r then failures_of counters r + 1 else failures_of counters u)"
    and "apc_generation c' = apc_generation counters"
  using assms
  by (auto simp: failure_results_def probe_failure_def threshold_of_def failures_of_def
      split: activeProbeResult.splits)

lemma failures_of_counters_at [simp]: "failures_of (counters_at g) r = 0"
  by (cases r) (simp_all add: failures_of_def counters_at_def)

lemma failures_of_successes [simp]: "failures_of (c\<lparr>apc_successes := n\<rparr>) r = failures_of c r"
  by (cases r) (simp_all add: failures_of_def)

lemma counters_sync_generation [simp]: "apc_generation (counters_sync g c) = g"
  by (simp add: counters_sync_def counters_at_def)

lemma counters_sync_id [simp]: "apc_generation c = g \<Longrightarrow> counters_sync g c = c"
  by (simp add: counters_sync_def)

definition below_thresholds :: "ActiveHealthConfig \<Rightarrow> activeProbeCounters \<Rightarrow> (activeProbeResult \<Rightarrow> int) \<Rightarrow> bool" where
  "below_thresholds config counters extra \<longleftrightarrow>
     (\<forall>r\<in>failure_results. 0 < threshold_of config r \<longrightarrow>
        failures_of counters r + extra r < threshold_of config r)"

lemma ha_healthStatus_mark:
  assumes "ha_healthStatus lb t = (True, g)"
  shows "ha_markUnhealthyAtGeneration ops lb t g name obs = (ok, lb', evs) \<Longrightarrow>
    ok \<and> ha_healthStatus lb' t = (False, g + 1)"
  using assms
  by (auto simp: ha_healthStatus_def ha_markUnhealthyAtGeneration_def ha_markUnhealthyLocked_def
      split: option.splits)

lemma apply_down:
  assumes "ha_healthStatus lb t = (False, g)" and "r \<in> insert activeProbeNeutral failure_results"
    and "applyProbeResultAtGeneration ops c (\<lambda>lb. lb) lb t g r counters = (lb', counters', evs)"
  shows "lb' = lb"
  using assms
  by (auto simp: applyProbeResultAtGeneration_def probe_decide_def probe_commit_def failure_results_def
      Let_def)

lemma probe_run_down:
  assumes "ha_healthStatus lb t = (False, g)" and "set rs \<subseteq> insert activeProbeNeutral failure_results"
  shows "fst (probe_run ops c lb t counters rs) = lb"
  using assms(2)
proof (induction rs arbitrary: counters)
  case (Cons r rs)
  obtain lb' cn' evs where ap: "applyProbeResultAtGeneration ops c (\<lambda>lb. lb) lb t g r counters = (lb', cn', evs)"
    by (metis prod_cases3)
  then have "lb' = lb" using Cons.prems by (intro apply_down[OF assms(1) _ ap]) simp
  with ap Cons show ?case by (simp add: assms(1))
qed simp

text \<open>A failure of a healthy target: it is counted, or it completes its threshold.\<close>

lemma apply_failure:
  assumes up: "ha_healthStatus lb t = (True, g)" and r: "r \<in> failure_results"
    and ap: "applyProbeResultAtGeneration ops c (\<lambda>lb. lb) lb t g r counters = (lb', counters', evs)"
    and cn: "cn = counters_sync g counters"
  shows "if 0 < threshold_of (ck_config c) r \<and> threshold_of (ck_config c) r \<le> failures_of cn r + 1
     then ha_healthStatus lb' t = (False, g + 1)
     else lb' = lb \<and> apc_generation counters' = g
        \<and> (\<forall>u. failures_of counters' u = (if u = r then failures_of cn r + 1 else failures_of cn u))"
proof -
  obtain c3 threshold failures where
    pf: "probe_failure (ck_config c) r (cn\<lparr>apc_successes := 0\<rparr>) = (c3, threshold, failures)"
    by (metis prod_cases3)
  note spec = probe_failure_spec[OF r pf]
  have ne: "r \<noteq> activeProbeSuccess" "r \<noteq> activeProbeNeutral" using r by (auto simp: failure_results_def)
  have dec: "probe_decide (ck_config c) (True, g) g r counters =
      (if 0 < threshold \<and> threshold \<le> failures then (clear_failures c3, Some False) else (c3, None))"
    using pf ne by (simp add: probe_decide_def Let_def cn)
  show ?thesis
  proof (cases "0 < threshold \<and> threshold \<le> failures")
    case True
    obtain ok lb1 evs1 where
      mk: "ha_markUnhealthyAtGeneration ops lb t g (ck_name c) (ck_observer c) = (ok, lb1, evs1)"
      by (metis prod_cases3)
    have "lb' = lb1" using ap up dec True mk
      by (simp add: applyProbeResultAtGeneration_def probe_commit_def)
    then show ?thesis
      using True spec ha_healthStatus_mark[OF up mk] by simp
  next
    case False
    then have "lb' = lb" "counters' = c3"
      using ap up dec by (auto simp: applyProbeResultAtGeneration_def probe_commit_def)
    then show ?thesis using False spec by (auto simp: cn)
  qed
qed

lemma probe_run_failing:
  assumes "ha_healthStatus lb t = (True, g)" and "set rs \<subseteq> insert activeProbeNeutral failure_results"
    and "below_thresholds (ck_config c) (counters_sync g counters) (\<lambda>_. 0)"
  shows "ha_IsHealthy (fst (probe_run ops c lb t counters rs)) t \<longleftrightarrow>
    below_thresholds (ck_config c) (counters_sync g counters) (\<lambda>r. int (count_list rs r))"
  using assms(2,3)
proof (induction rs arbitrary: counters)
  case Nil
  then show ?case using assms(1) by (simp add: ha_IsHealthy_def)
next
  case (Cons r rs)
  obtain lb' counters' evs where
    ap: "applyProbeResultAtGeneration ops c (\<lambda>lb. lb) lb t g r counters = (lb', counters', evs)"
    by (metis prod_cases3)
  show ?case
  proof (cases "r = activeProbeNeutral")
    case True
    then have "lb' = lb" "counters' = counters_sync g counters"
      using ap assms(1)
      by (auto simp: applyProbeResultAtGeneration_def probe_decide_def probe_commit_def)
    moreover have "activeProbeNeutral \<notin> failure_results" by (simp add: failure_results_def)
    ultimately show ?thesis
      using Cons ap True assms(1) by (auto simp: below_thresholds_def)
  next
    case False
    then have r: "r \<in> failure_results" using Cons.prems(1) by simp
    let ?cn = "counters_sync g counters"
    note spec = apply_failure[OF assms(1) r ap refl]
    show ?thesis
    proof (cases "0 < threshold_of (ck_config c) r \<and> threshold_of (ck_config c) r \<le> failures_of ?cn r + 1")
      case True
      then have down: "ha_healthStatus lb' t = (False, g + 1)" using spec by simp
      then have "fst (probe_run ops c lb' t counters' rs) = lb'"
        using Cons.prems(1) by (intro probe_run_down[OF down]) simp
      with True down ap r show ?thesis
        by (force simp: assms(1) below_thresholds_def ha_IsHealthy_def)
    next
      case False
      then have lb': "lb' = lb" and gen: "apc_generation counters' = g"
        and fs: "\<And>u. failures_of counters' u = (if u = r then failures_of ?cn r + 1 else failures_of ?cn u)"
        using spec by (auto split: if_splits)
      have "below_thresholds (ck_config c) (counters_sync g counters') (\<lambda>_. 0)"
        using Cons.prems(2) False by (auto simp: below_thresholds_def gen fs)
      from Cons.IH[OF _ this] Cons.prems(1) have
        "ha_IsHealthy (fst (probe_run ops c lb t counters' rs)) t
          = below_thresholds (ck_config c) counters' (\<lambda>r. int (count_list rs r))"
        by (simp add: gen)
      also have "\<dots> = below_thresholds (ck_config c) ?cn (\<lambda>u. int (count_list (r # rs) u))"
        by (auto simp: below_thresholds_def fs)
      finally show ?thesis using ap lb' by (simp add: assms(1))
    qed
  qed
qed

section \<open>Counting successes\<close>

lemma apply_up:
  assumes "ha_healthStatus lb t = (True, g)" and "r \<in> {activeProbeNeutral, activeProbeSuccess}"
    and "applyProbeResultAtGeneration ops c (\<lambda>lb. lb) lb t g r counters = (lb', counters', evs)"
  shows "lb' = lb"
  using assms
  by (auto simp: applyProbeResultAtGeneration_def probe_decide_def probe_commit_def Let_def)

lemma probe_run_up:
  assumes "ha_healthStatus lb t = (True, g)" and "set rs \<subseteq> {activeProbeNeutral, activeProbeSuccess}"
  shows "fst (probe_run ops c lb t counters rs) = lb"
  using assms(2)
proof (induction rs arbitrary: counters)
  case (Cons r rs)
  obtain lb' cn' evs where ap: "applyProbeResultAtGeneration ops c (\<lambda>lb. lb) lb t g r counters = (lb', cn', evs)"
    by (metis prod_cases3)
  then have "lb' = lb" using Cons.prems by (intro apply_up[OF assms(1) _ ap]) simp
  with ap Cons show ?case by (simp add: assms(1))
qed simp

lemma apply_success:
  assumes "ha_healthStatus lb t = (False, g)" and "map_of (ha_states lb) t \<noteq> None"
    and "applyProbeResultAtGeneration ops c (\<lambda>lb. lb) lb t g activeProbeSuccess counters = (lb', counters', evs)"
    and "cn = counters_sync g counters"
  shows "if ahc_HealthySuccesses (ck_config c) \<le> apc_successes cn + 1
     then ha_healthStatus lb' t = (True, g + 1)
     else lb' = lb \<and> apc_generation counters' = g \<and> apc_successes counters' = apc_successes cn + 1"
  using assms
  by (auto simp: applyProbeResultAtGeneration_def probe_decide_def probe_commit_def Let_def
      clear_failures_def ha_healthStatus_def ha_markHealthyAtGeneration_def ha_markHealthyLocked_def
      hs_reset_def split: option.splits if_splits)

lemma probe_run_recovering:
  assumes "ha_healthStatus lb t = (False, g)" and "map_of (ha_states lb) t \<noteq> None"
    and "set rs \<subseteq> {activeProbeNeutral, activeProbeSuccess}"
    and "apc_successes (counters_sync g counters) < ahc_HealthySuccesses (ck_config c)"
  shows "ha_IsHealthy (fst (probe_run ops c lb t counters rs)) t \<longleftrightarrow>
    ahc_HealthySuccesses (ck_config c)
      \<le> apc_successes (counters_sync g counters) + int (count_list rs activeProbeSuccess)"
  using assms(3,4)
proof (induction rs arbitrary: counters)
  case Nil
  then show ?case using assms(1) by (simp add: ha_IsHealthy_def)
next
  case (Cons r rs)
  obtain lb' counters' evs where
    ap: "applyProbeResultAtGeneration ops c (\<lambda>lb. lb) lb t g r counters = (lb', counters', evs)"
    by (metis prod_cases3)
  let ?cn = "counters_sync g counters"
  consider (neutral) "r = activeProbeNeutral" | (success) "r = activeProbeSuccess"
    using Cons.prems(1) by auto
  then show ?case
  proof cases
    case neutral
    then have "lb' = lb" "counters' = ?cn"
      using ap assms(1)
      by (auto simp: applyProbeResultAtGeneration_def probe_decide_def probe_commit_def)
    then show ?thesis using Cons ap neutral assms(1) by simp
  next
    case success
    note spec = apply_success[OF assms(1,2) ap[unfolded success] refl]
    show ?thesis
    proof (cases "ahc_HealthySuccesses (ck_config c) \<le> apc_successes ?cn + 1")
      case True
      then have up: "ha_healthStatus lb' t = (True, g + 1)" using spec by simp
      then have "fst (probe_run ops c lb' t counters' rs) = lb'"
        using Cons.prems(1) by (intro probe_run_up[OF up]) simp
      with True up ap success show ?thesis by (simp add: assms(1) ha_IsHealthy_def)
    next
      case False
      then have "lb' = lb" "apc_generation counters' = g" "apc_successes counters' = apc_successes ?cn + 1"
        using spec by auto
      with Cons False ap success assms(1) show ?thesis by (simp add: add.assoc)
    qed
  qed
qed

section \<open>A concrete checker\<close>

definition demo_checker :: activeHealthChecker where
  "demo_checker = newActiveHealthChecker active_defaults demo_servers ''up'' True (HTTPTransport 0)"

section \<open>Properties\<close>

text \<open>C10. Probes are bounded. However the probe goroutines, the other users of the balancer and
  \<open>Close\<close> interleave, the goroutines between acquiring and releasing the semaphore, the only ones
  that can be in an exchange, are never more than the configured concurrency, and the semaphore
  holds one token for each; and the balancer stays in a reachable state, so the properties of the
  balancer hold of it.\<close>

theorem probes_bounded:
  assumes "checker_reachable ops (newActiveHealthChecker config targets name obs base) lb s"
    and "ha_reachable ops servers priorities checks lb" and "0 < ahc_Concurrency config"
  shows "card {t. \<exists>g. cs_phase s t = Probing g} \<le> nat (ahc_Concurrency config)
    \<and> cs_tokens s = card {t. holds_token (cs_phase s t)}
    \<and> ha_reachable ops servers priorities checks (cs_lb s)"
proof -
  let ?c = "newActiveHealthChecker config targets name obs base"
  have inv: "checker_inv ?c s" and re: "ha_reachable ops servers priorities checks (cs_lb s)"
    using checker_reachable_inv[OF assms(1,2)] by auto
  have "{t. \<exists>g. cs_phase s t = Probing g} \<subseteq> token_holders s" by (auto simp: token_holders_def)
  then have "card {t. \<exists>g. cs_phase s t = Probing g} \<le> card (token_holders s)"
    using checker_inv_finite[OF inv] by (rule card_mono[rotated])
  also have "\<dots> \<le> nat (ahc_Concurrency config)"
    using inv assms(3) by (simp add: checker_inv_def newActiveHealthChecker_def)
  finally show ?thesis using inv re by (simp add: checker_inv_def token_holders_def)
qed

lemma probes_bounded_witness:
  "checker_reachable smooth_ops demo_checker demo_lb (checker_Start demo_checker demo_lb)
   \<and> card {t. \<exists>g. cs_phase (checker_Start demo_checker demo_lb) t = Probing g}
      \<le> nat (ahc_Concurrency active_defaults)"
proof -
  have start: "checker_reachable smooth_ops demo_checker demo_lb (checker_Start demo_checker demo_lb)"
    by (rule checker_init)
  have "0 < ahc_Concurrency active_defaults" by (simp add: active_defaults_def)
  from probes_bounded[OF start[unfolded demo_checker_def] demo_reachable(2) this] start
  show ?thesis unfolding demo_checker_def by blast
qed

text \<open>C11. \<open>Close\<close> returns. Once the context is cancelled, every step of a probe goroutine brings
  the checker strictly closer to its end, nothing anyone else does moves it back, as long as a
  goroutine has not returned one of them can step, and at rank 0 all have: \<open>wg.Wait\<close> waits for at
  most six steps of each goroutine.\<close>

theorem close_terminates:
  assumes "cs_canceled s"
  shows "(\<forall>t\<in>set (ck_targets c). \<forall>s'. probe_step ops c t s s' \<longrightarrow>
            checker_rank c s' < checker_rank c s \<and> cs_canceled s')
    \<and> (\<forall>s'. checker_step ops c s s' \<longrightarrow> checker_rank c s' \<le> checker_rank c s \<and> cs_canceled s')
    \<and> (checker_rank c s \<noteq> 0 \<longrightarrow> (\<exists>t\<in>set (ck_targets c). \<exists>s'. probe_step ops c t s s'))
    \<and> (checker_rank c s = 0 \<longleftrightarrow> (\<forall>t\<in>set (ck_targets c). cs_phase s t = Exited))
    \<and> checker_rank c s \<le> 6 * length (ck_targets c)"
proof -
  have dec: "checker_rank c s' < checker_rank c s \<and> cs_canceled s'"
    if "t \<in> set (ck_targets c)" "probe_step ops c t s s'" for t s'
    using probe_step_checker_rank[OF that(2) assms that(1)] probe_step_frame[OF that(2)] assms by simp
  have "checker_rank c s' \<le> checker_rank c s \<and> cs_canceled s'" if "checker_step ops c s s'" for s'
    using that
  proof cases
    case (goroutine t)
    then show ?thesis using dec by (meson less_imp_le)
  qed (use assms in \<open>simp_all add: checker_rank_def\<close>)
  moreover have zero: "checker_rank c s = 0 \<longleftrightarrow> (\<forall>t\<in>set (ck_targets c). cs_phase s t = Exited)"
    by (simp add: checker_rank_def)
  moreover have "\<exists>t\<in>set (ck_targets c). \<exists>s'. probe_step ops c t s s'" if "checker_rank c s \<noteq> 0"
  proof -
    from that obtain t where "t \<in> set (ck_targets c)" "cs_phase s t \<noteq> Exited" using zero by auto
    then show ?thesis using probe_step_enabled[OF assms, of t ops c] by blast
  qed
  moreover have "checker_rank c s \<le> 6 * length (ck_targets c)"
  proof -
    have "phase_rank p \<le> 6" for p by (cases p) (simp_all add: phase_rank_def)
    then have "checker_rank c s \<le> (\<Sum>t\<in>set (ck_targets c). 6)"
      unfolding checker_rank_def by (intro sum_mono)
    also have "\<dots> \<le> 6 * length (ck_targets c)" by (simp add: card_length)
    finally show ?thesis .
  qed
  ultimately show ?thesis using dec by blast
qed

lemma close_terminates_witness:
  "\<exists>t\<in>set (ck_targets demo_checker).
     \<exists>s'. probe_step smooth_ops demo_checker t (checker_Start demo_checker demo_lb\<lparr>cs_canceled := True\<rparr>) s'"
proof -
  let ?s = "checker_Start demo_checker demo_lb\<lparr>cs_canceled := True\<rparr>"
  have "checker_rank demo_checker ?s \<noteq> 0"
    by (simp add: checker_rank_def checker_Start_def demo_checker_def newActiveHealthChecker_def
        demo_servers_def phase_rank_def Let_def)
  moreover have "cs_canceled ?s" by simp
  note close_terminates[OF this, of demo_checker smooth_ops]
  ultimately show ?thesis by (elim conjE) (erule (1) mp)
qed



text \<open>C13. A probe result that is out of date changes nothing. A probe reads the generation of its
  target; other goroutines run, then the result is applied, and others may run again between the
  decision and the mark. If the target's health changed at all since the generation was read, at
  most \<open>2 ^ 64 - 1\<close> times, the balancer is left as the others made it and nobody is notified.\<close>

theorem stale_result_ignored:
  assumes "sw_laws ops items" and "servers_ok servers"
    and "ha_reachable ops servers priorities checks lb0" and "t \<in> dom (map_of servers)"
    and "ha_flips ops t lb0 j lb" and "ha_flips ops t lb0 k (env lb)" and "0 < k" and "k < 2 ^ 64"
    and "applyProbeResultAtGeneration ops c env lb t (snd (ha_healthStatus lb0 t)) r counters
         = (lb', counters', evs)"
  shows "lb' = env lb \<and> evs = []"
proof -
  have inv: "ha_inv items lb0" and "t \<in> dom (map_of (ha_states lb0))"
    using ha_reachable_inv[OF assms(3,1,2)] assms(4) by auto
  then obtain s where s: "map_of (ha_states lb0) t = Some s" by blast
  obtain s' where s': "map_of (ha_states (env lb)) t = Some s'"
    "hs_generation s' = hs_generation s + of_nat k"
    using ha_flips_generation[OF assms(6,1) inv s] by blast
  have "(of_nat k :: u64) \<noteq> 0"
    using assms(7,8) by (simp add: word_of_nat_eq_0_iff nat_dvd_not_less)
  then have "hs_generation s' \<noteq> snd (ha_healthStatus lb0 t)"
    using s s' by (simp add: ha_healthStatus_def)
  then have refused:
    "ha_markHealthyAtGeneration ops (env lb) t (snd (ha_healthStatus lb0 t)) n b = (False, env lb, [])"
    "ha_markUnhealthyAtGeneration ops (env lb) t (snd (ha_healthStatus lb0 t)) n b = (False, env lb, [])"
    for n b
    using s' by (simp_all add: ha_markHealthyAtGeneration_def ha_markUnhealthyAtGeneration_def
        ha_markHealthyLocked_def ha_markUnhealthyLocked_def)
  obtain cn mark where "probe_decide (ck_config c) (ha_healthStatus lb t)
      (snd (ha_healthStatus lb0 t)) r counters = (cn, mark)" by fastforce
  then show ?thesis
    using assms(9) refused
    by (cases mark) (auto simp: applyProbeResultAtGeneration_def probe_commit_def split: if_splits)
qed

lemma stale_result_ignored_witness:
  "\<exists>counters'. applyProbeResultAtGeneration smooth_ops demo_checker
      (\<lambda>lb. snd (ha_MarkUnhealthy smooth_ops lb ''a'')) demo_lb ''a'' 0 activeProbeTCPFailure
      (counters_at 0\<lparr>apc_tcpFailures := 1\<rparr>) = (demo_down, counters', [])"
proof -
  let ?env = "\<lambda>lb. snd (ha_MarkUnhealthy smooth_ops lb ''a'')"
  have st: "snd (ha_healthStatus demo_lb ''a'') = 0" by code_simp
  have step: "ha_step smooth_ops demo_lb [] demo_down"
    unfolding demo_down_def
    by (rule step_MarkUnhealthy[of _ _ "''a''" "fst (ha_MarkUnhealthy smooth_ops demo_lb ''a'')"]) simp
  have "ha_healthy demo_lb ''a''" "\<not> ha_healthy demo_down ''a''" by code_simp+
  then have flips: "ha_flips smooth_ops ''a'' demo_lb (Suc 0) (?env demo_lb)"
    using flips_step[OF flips_refl step, of "''a''"] by (simp add: demo_down_def)
  have dom: "''a'' \<in> dom (map_of demo_servers)" by (simp add: demo_servers_def)
  obtain lb' counters' evs where run: "applyProbeResultAtGeneration smooth_ops demo_checker ?env
      demo_lb ''a'' 0 activeProbeTCPFailure (counters_at 0\<lparr>apc_tcpFailures := 1\<rparr>) = (lb', counters', evs)"
    by (metis prod_cases3)
  from stale_result_ignored[OF smooth_laws demo_reachable(1,2) dom flips_refl flips _ _
      run[folded st]] run
  show ?thesis by (simp add: demo_down_def)
qed

end
