(* ===== verification/Sha256.thy ===== *)
theory Sha256
  imports Go_Prelude
begin

text \<open>
  Bytes, big-endian encodings and the hash \<open>crypto/sha256\<close>, which the cluster identity is built
  from. The hash is written out after FIPS 180-4.
\<close>

unbundle bit_operations_syntax

section \<open>Big-endian integers\<close>

text \<open>\<open>binary.BigEndian.PutUint64\<close> and \<open>PutUint32\<close>.\<close>

definition put_uint64 :: "64 word \<Rightarrow> byte list" where
  "put_uint64 n = map (\<lambda>i. ucast (drop_bit (8 * i) n)) [7, 6, 5, 4, 3, 2, 1, 0]"

definition put_uint32 :: "32 word \<Rightarrow> byte list" where
  "put_uint32 n = map (\<lambda>i. ucast (drop_bit (8 * i) n)) [3, 2, 1, 0]"

definition get_uint32 :: "byte \<Rightarrow> byte \<Rightarrow> byte \<Rightarrow> byte \<Rightarrow> 32 word" where
  "get_uint32 a b c d =
     (push_bit 24 (ucast a) OR push_bit 16 (ucast b) OR push_bit 8 (ucast c) OR ucast d)"

lemma length_put_uint64 [simp]: "length (put_uint64 n) = 8"
  by (simp add: put_uint64_def)

lemma put_uint64_not_Nil [simp]: "put_uint64 n \<noteq> []"
  by (simp add: put_uint64_def)

lemma put_uint64_bit:
  assumes "i < 64"
  shows "bit n i = bit (put_uint64 n ! (7 - i div 8)) (i mod 8)"
proof -
  have "i div 8 = 0 \<or> i div 8 = 1 \<or> i div 8 = 2 \<or> i div 8 = 3 \<or> i div 8 = 4 \<or> i div 8 = 5
      \<or> i div 8 = 6 \<or> i div 8 = 7" using assms by linarith
  then have "put_uint64 n ! (7 - i div 8) = ucast (drop_bit (8 * (i div 8)) n)"
    by (elim disjE) (simp_all add: put_uint64_def)
  then show ?thesis
    by (simp add: bit_ucast_iff bit_drop_bit_eq)
qed

lemma put_uint64_inj: "put_uint64 m = put_uint64 n \<Longrightarrow> m = n"
  by (rule bit_word_eqI) (simp add: put_uint64_bit)

section \<open>SHA-256\<close>

text \<open>The constants are the first 32 bits of the fractional parts of roots of the first primes: cube
  roots for the rounds, square roots for the initial state. \<open>iroot k n\<close> is the integer part of the
  \<open>k\<close>-th root of \<open>n\<close>, found bit by bit.\<close>

definition iroot :: "nat \<Rightarrow> int \<Rightarrow> int" where
  "iroot k n = foldl (\<lambda>r b. if (r + 2 ^ b) ^ k \<le> n then r + 2 ^ b else r) 0 (rev [0..<40])"

definition small_primes :: "int \<Rightarrow> int list" where
  "small_primes m = filter (\<lambda>p. list_all (\<lambda>d. p mod d \<noteq> 0) [2..p - 1]) [2..m]"

definition root_bits :: "nat \<Rightarrow> int \<Rightarrow> 32 word" where
  "root_bits k p = word_of_int (iroot k (p * 2 ^ (32 * k)))"

definition sha_K :: "32 word list" where
  "sha_K = map (root_bits 3) (small_primes 311)"

definition sha_init :: "32 word list" where
  "sha_init = map (root_bits 2) [2, 3, 5, 7, 11, 13, 17, 19]"

definition rotr :: "nat \<Rightarrow> 32 word \<Rightarrow> 32 word" where
  "rotr n x = (drop_bit n x OR push_bit (32 - n) x)"

definition sha_pad :: "byte list \<Rightarrow> byte list" where
  "sha_pad m = m @ [0x80] @ replicate (nat ((55 - int (length m)) mod 64)) 0
     @ put_uint64 (of_nat (8 * length m))"

fun be_words :: "byte list \<Rightarrow> 32 word list" where
  "be_words (a # b # c # d # rest) = get_uint32 a b c d # be_words rest"
| "be_words _ = []"

text \<open>The message schedule, newest word first.\<close>

fun sha_schedule :: "nat \<Rightarrow> 32 word list \<Rightarrow> 32 word list" where
  "sha_schedule 0 ws = rev ws"
| "sha_schedule (Suc n) ws =
     (let w2 = ws ! 1; w15 = ws ! 14;
          s0 = (rotr 7 w15 XOR rotr 18 w15 XOR drop_bit 3 w15);
          s1 = (rotr 17 w2 XOR rotr 19 w2 XOR drop_bit 10 w2)
      in sha_schedule n ((s1 + ws ! 6 + s0 + ws ! 15) # ws))"

definition sha_round :: "32 word list \<Rightarrow> 32 word \<times> 32 word \<Rightarrow> 32 word list" where
  "sha_round s kw =
     (case s of [a, b, c, d, e, f, g, h] \<Rightarrow>
        (let t1 = h + (rotr 6 e XOR rotr 11 e XOR rotr 25 e) + ((e AND f) XOR (NOT e AND g)) + fst kw + snd kw;
             t2 = (rotr 2 a XOR rotr 13 a XOR rotr 22 a) + ((a AND b) XOR (a AND c) XOR (b AND c))
         in [t1 + t2, a, b, c, d + t1, e, f, g])
      | _ \<Rightarrow> s)"

definition sha_block :: "32 word list \<Rightarrow> byte list \<Rightarrow> 32 word list" where
  "sha_block h block =
     map2 (+) h (foldl sha_round h (zip sha_K (sha_schedule 48 (rev (be_words block)))))"

fun sha_blocks :: "nat \<Rightarrow> 32 word list \<Rightarrow> byte list \<Rightarrow> 32 word list" where
  "sha_blocks 0 h bs = h"
| "sha_blocks (Suc n) h bs = sha_blocks n (sha_block h (take 64 bs)) (drop 64 bs)"

text \<open>\<open>sha256.Sum256\<close>; a hash written to in pieces is the sum of their concatenation.\<close>

definition Sum256 :: "byte list \<Rightarrow> byte list" where
  "Sum256 m = concat (map put_uint32 (sha_blocks (length (sha_pad m) div 64) sha_init (sha_pad m)))"

lemma sha_pad_length: "64 dvd length (sha_pad m)"
proof -
  have "int (length (sha_pad m)) = int (length m) + 9 + (55 - int (length m)) mod 64"
    by (simp add: sha_pad_def)
  also have "\<dots> mod 64 = (int (length m) + 9 + (55 - int (length m))) mod 64"
    by (simp add: mod_add_right_eq)
  finally have "int (length (sha_pad m)) mod 64 = 0" by simp
  then show ?thesis by presburger
qed

lemma length_sha_round [simp]: "length (sha_round s kw) = length s"
  by (auto simp: sha_round_def Let_def split: list.splits)

lemma length_sha_rounds [simp]: "length (foldl sha_round s kws) = length s"
  by (induction kws arbitrary: s) simp_all

lemma length_sha_init: "length sha_init = 8"
  by (simp add: sha_init_def)

lemma length_sha_blocks: "length h = 8 \<Longrightarrow> length (sha_blocks n h bs) = 8"
  by (induction n arbitrary: h bs) (simp_all add: sha_block_def)

lemma length_Sum256 [simp]: "length (Sum256 m) = 32"
proof -
  have "length (sha_blocks n sha_init bs) = 8" for n bs
    by (rule length_sha_blocks) (rule length_sha_init)
  then show ?thesis
    by (simp add: Sum256_def length_concat comp_def put_uint32_def sum_list_triv)
qed

end
