(* ===== verification/Transport.thy ===== *)
theory Transport
  imports Sha256
begin

text \<open>
  The options of an upstream transport and the part of them that identifies it,
  \<open>pkg/proxy/transport.go\<close>. Values are copied, so the clone functions of the source are the
  identity here; \<open>NewTransport\<close> only hands the options to \<open>net/http\<close>.
\<close>

section \<open>Options\<close>

definition DefaultDialTimeout :: int where "DefaultDialTimeout = 30 * second"
definition DefaultMaxIdleConnsPerHost :: int where "DefaultMaxIdleConnsPerHost = 250"
definition DefaultMaxIdleConns :: int where "DefaultMaxIdleConns = 1024"
definition DefaultMaxConnsPerHost :: int where "DefaultMaxConnsPerHost = 1024"
definition DefaultIdleConnTimeout :: int where "DefaultIdleConnTimeout = 90 * second"

text \<open>A \<open>tls.Certificate\<close>: the chain, the key if any, and the parsed leaf's bytes if any.\<close>

record tls_certificate =
  tc_Certificate :: "byte list list"
  tc_PrivateKey :: "byte list option"
  tc_Leaf :: "byte list option"

record TransportOption =
  to_maxIdleConnections :: int
  to_maxIdleConnectionsPerHost :: int
  to_maxConnectionsPerHost :: int
  to_insecureSkipVerify :: bool
  to_tlsClientCertificate :: tls_certificate
  to_dialTimeout :: int
  to_responseHeaderTimeout :: int
  to_idleConnTimeout :: int

definition default_if :: "bool \<Rightarrow> int \<Rightarrow> int \<Rightarrow> int" where
  "default_if c d v = (if c then d else v)"

definition TransportOption_Build :: "TransportOption \<Rightarrow> TransportOption" where
  "TransportOption_Build o1 =
     (let o2 = o1\<lparr>to_dialTimeout := default_if (to_dialTimeout o1 \<le> 0) DefaultDialTimeout (to_dialTimeout o1)\<rparr>;
          o3 = o2\<lparr>to_maxIdleConnections := default_if (to_maxIdleConnections o2 \<le> 0)
                    DefaultMaxIdleConns (to_maxIdleConnections o2)\<rparr>;
          o4 = o3\<lparr>to_maxIdleConnectionsPerHost := default_if (to_maxIdleConnectionsPerHost o3 \<le> 0)
                    DefaultMaxIdleConnsPerHost (to_maxIdleConnectionsPerHost o3)\<rparr>;
          o5 = o4\<lparr>to_maxConnectionsPerHost := default_if (to_maxConnectionsPerHost o4 \<le> 0)
                    DefaultMaxConnsPerHost (to_maxConnectionsPerHost o4)\<rparr>
      in o5\<lparr>to_idleConnTimeout := default_if (to_idleConnTimeout o5 = 0)
              DefaultIdleConnTimeout (to_idleConnTimeout o5)\<rparr>)"

section \<open>Identity\<close>

record transportKeyIdentity =
  tk_MaxIdleConns :: int
  tk_MaxIdleConnsPerHost :: int
  tk_MaxConnsPerHost :: int
  tk_InsecureSkipVerify :: bool
  tk_TLSClientCertificateFingerprint :: "byte list"
  tk_DialTimeout :: int
  tk_ResponseHeaderTimeout :: int
  tk_IdleConnTimeout :: int

text \<open>What the loop of \<open>tlsClientCertificateFingerprint\<close> writes to the hash.\<close>

definition frame_chain :: "byte list list \<Rightarrow> byte list" where
  "frame_chain chain = concat (map (\<lambda>der. put_uint64 (of_nat (length der)) @ der) chain)"

definition tlsClientCertificateFingerprint :: "tls_certificate \<Rightarrow> byte list" where
  "tlsClientCertificateFingerprint certificate =
     (if tc_Certificate certificate \<noteq> [] then Sum256 (frame_chain (tc_Certificate certificate))
      else case tc_Leaf certificate of
        Some raw \<Rightarrow> if raw \<noteq> [] then Sum256 raw else replicate 32 0
      | None \<Rightarrow> replicate 32 0)"

definition keyIdentity :: "TransportOption \<Rightarrow> transportKeyIdentity" where
  "keyIdentity t =
     \<lparr>tk_MaxIdleConns = to_maxIdleConnections t, tk_MaxIdleConnsPerHost = to_maxIdleConnectionsPerHost t,
      tk_MaxConnsPerHost = to_maxConnectionsPerHost t, tk_InsecureSkipVerify = to_insecureSkipVerify t,
      tk_TLSClientCertificateFingerprint = tlsClientCertificateFingerprint (to_tlsClientCertificate t),
      tk_DialTimeout = to_dialTimeout t, tk_ResponseHeaderTimeout = to_responseHeaderTimeout t,
      tk_IdleConnTimeout = to_idleConnTimeout t\<rparr>"

section \<open>Building options\<close>

definition option_ok :: "TransportOption \<Rightarrow> bool" where
  "option_ok t \<longleftrightarrow> 0 < to_dialTimeout t \<and> 0 < to_maxIdleConnections t \<and> 0 < to_maxIdleConnectionsPerHost t
     \<and> 0 < to_maxConnectionsPerHost t \<and> to_idleConnTimeout t \<noteq> 0"

lemma Build_ok: "option_ok (TransportOption_Build t)"
  by (simp add: option_ok_def TransportOption_Build_def Let_def default_if_def DefaultDialTimeout_def
      DefaultMaxIdleConnsPerHost_def DefaultMaxIdleConns_def DefaultMaxConnsPerHost_def
      DefaultIdleConnTimeout_def)

lemma Build_id: "option_ok t \<Longrightarrow> TransportOption_Build t = t"
  by (simp add: option_ok_def TransportOption_Build_def Let_def default_if_def)

section \<open>The framing of a certificate chain\<close>

lemma frame_chain_simps [simp]:
  "frame_chain [] = []"
  "frame_chain (der # chain) = put_uint64 (of_nat (length der)) @ der @ frame_chain chain"
  by (simp_all add: frame_chain_def)

text \<open>Two chains of certificates of less than \<open>2 ^ 64\<close> bytes with the same framing are the same:
  the lengths say where one certificate ends and the next begins.\<close>

lemma frame_chain_inj:
  assumes "\<forall>der\<in>set xs \<union> set ys. length der < 2 ^ 64" and "frame_chain xs = frame_chain ys"
  shows "xs = ys"
  using assms
proof (induction xs arbitrary: ys)
  case Nil
  have "length (frame_chain ys) = 0" using Nil.prems(2) by simp
  then show ?case by (cases ys) (auto simp del: length_greater_0_conv)
next
  case (Cons x xs)
  have "length (frame_chain (x # xs)) \<noteq> 0" by simp
  then obtain y ys' where ys: "ys = y # ys'"
    using Cons.prems(2) by (cases ys) auto
  have split: "put_uint64 (of_nat (length x)) = put_uint64 (of_nat (length y))"
    and rest: "x @ frame_chain xs = y @ frame_chain ys'"
    using Cons.prems(2) ys by (simp_all add: append_eq_append_conv)
  have "(of_nat (length x) :: 64 word) = of_nat (length y)"
    by (rule put_uint64_inj[OF split])
  then have "unat (of_nat (length x) :: 64 word) = unat (of_nat (length y) :: 64 word)" by simp
  moreover have "length x < 2 ^ 64" "length y < 2 ^ 64" using Cons.prems(1) ys by auto
  ultimately have "length x = length y" by (simp add: unat_of_nat)
  then have "x = y" "frame_chain xs = frame_chain ys'" using rest by auto
  moreover have "xs = ys'"
    using Cons.IH[of ys'] Cons.prems(1) ys calculation by auto
  ultimately show ?case using ys by simp
qed

text \<open>Options of the same identity present the same chain, unless the framings of their two chains
  are a SHA-256 collision.\<close>

lemma keyIdentity_chain:
  assumes "\<forall>der\<in>set xs \<union> set ys. length der < 2 ^ 64" and "xs \<noteq> []" and "ys \<noteq> []"
    and "tc_Certificate (to_tlsClientCertificate s) = xs" and "tc_Certificate (to_tlsClientCertificate t) = ys"
    and "keyIdentity s = keyIdentity t"
    and "Sum256 (frame_chain xs) = Sum256 (frame_chain ys) \<longrightarrow> frame_chain xs = frame_chain ys"
  shows "xs = ys"
proof -
  have "Sum256 (frame_chain xs) = Sum256 (frame_chain ys)"
    using assms(2-6) by (simp add: keyIdentity_def tlsClientCertificateFingerprint_def)
  then show ?thesis using frame_chain_inj[OF assms(1)] assms(7) by blast
qed

end
