(* ===== verification/Cluster.thy ===== *)
theory Cluster
  imports Active_Health Transport
begin

text \<open>
  An upstream cluster, \<open>pkg/proxy/cluster.go\<close>: its configuration and the digest that identifies
  it, its construction and shutdown, and the admission transport that bounds the responses in
  flight. \<open>json.Marshal\<close> is a third-party encoder, an argument of \<open>cluster_Key\<close>.
\<close>

section \<open>Configuration and identity\<close>

definition DefaultMaxInFlight :: int where "DefaultMaxInFlight = 1024"

record ClusterConfig =
  cc_Name :: string
  cc_Targets :: "(string, int) gomap"
  cc_Priorities :: "(string, int) gomap"
  cc_Checks :: "(string, goany) gomap option"
  cc_Transport :: TransportOption
  cc_SendTimeout :: int
  cc_ReadTimeout :: int
  cc_Retries :: int
  cc_RetriesConfigured :: bool
  cc_MaxInFlight :: int
  cc_HTTP2Cleartext :: bool

record clusterKeyIdentity =
  ki_Name :: string
  ki_Targets :: "(string \<times> int) list"
  ki_Priorities :: "(string \<times> int) list"
  ki_Checks :: "(string, goany) gomap option"
  ki_Transport :: transportKeyIdentity
  ki_SendTimeout :: int
  ki_ReadTimeout :: int
  ki_Retries :: int
  ki_RetriesConfigured :: bool
  ki_MaxInFlight :: int
  ki_HTTP2Cleartext :: bool

definition sortedClusterTargets :: "(string, int) gomap \<Rightarrow> (string \<times> int) list" where
  "sortedClusterTargets targets = map (\<lambda>target. (target, mget0 targets target)) (sort (mkeys targets))"

definition sortedClusterPriorities :: "(string, int) gomap \<Rightarrow> (string \<times> int) list" where
  "sortedClusterPriorities priorities =
     (if priorities = [] then []
      else map (\<lambda>target. (target, mget0 priorities target)) (sort (mkeys priorities)))"

definition cluster_identity :: "ClusterConfig \<Rightarrow> clusterKeyIdentity" where
  "cluster_identity c =
     \<lparr>ki_Name = cc_Name c, ki_Targets = sortedClusterTargets (cc_Targets c),
      ki_Priorities = sortedClusterPriorities (cc_Priorities c), ki_Checks = cc_Checks c,
      ki_Transport = keyIdentity (cc_Transport c), ki_SendTimeout = cc_SendTimeout c,
      ki_ReadTimeout = cc_ReadTimeout c, ki_Retries = cc_Retries c,
      ki_RetriesConfigured = cc_RetriesConfigured c, ki_MaxInFlight = cc_MaxInFlight c,
      ki_HTTP2Cleartext = cc_HTTP2Cleartext c\<rparr>"

datatype cluster_error = MarshalError string | LBError lb_error | RegistryClosed

type_synonym marshal = "clusterKeyIdentity \<Rightarrow> (string, byte list) result"

definition cluster_Key :: "marshal \<Rightarrow> ClusterConfig \<Rightarrow> (cluster_error, byte list) result" where
  "cluster_Key marshal c =
     (case marshal (cluster_identity c) of Inl e \<Rightarrow> Inl (MarshalError e) | Inr raw \<Rightarrow> Inr (Sum256 raw))"

section \<open>Construction and shutdown\<close>

text \<open>The chain of round trippers a cluster sends through, outermost first.\<close>

datatype transport_chain =
    BaseTripper round_tripper
  | HeaderTimeout int transport_chain
  | ProgressTimeout int int transport_chain
  | RetryTripper transport_chain
  | AdmissionTripper int transport_chain

record 'w Cluster =
  cl_config :: ClusterConfig
  cl_key :: "byte list"
  cl_lb :: "'w upstream_lb option"
  cl_transport :: transport_chain
  cl_health :: "activeHealthChecker option"
  cl_maxInFlight :: int
  cl_probing :: bool
  cl_idleClosed :: bool
  cl_closed :: bool

definition NewProgressTimeoutTransport :: "transport_chain \<Rightarrow> int \<Rightarrow> int \<Rightarrow> transport_chain" where
  "NewProgressTimeoutTransport base send rd =
     (if send \<le> 0 \<and> rd \<le> 0 then base else ProgressTimeout send rd base)"

definition newResponseHeaderTimeoutTransport :: "round_tripper \<Rightarrow> int \<Rightarrow> transport_chain" where
  "newResponseHeaderTimeoutTransport base timeout =
     (if timeout \<le> 0 then BaseTripper base else HeaderTimeout timeout (BaseTripper base))"

text \<open>The base transport as the probes see it: an \<open>http.Transport\<close> or not.\<close>

definition probe_base :: "transport_chain \<Rightarrow> round_tripper" where
  "probe_base base = (case base of BaseTripper t \<Rightarrow> t | _ \<Rightarrow> OtherTripper 0)"

definition newClusterWithTransport ::
  "'w sw_ops \<Rightarrow> marshal \<Rightarrow> ClusterConfig \<Rightarrow> transport_chain \<Rightarrow> (cluster_error, 'w Cluster) result" where
  "newClusterWithTransport ops marshal config base =
     res_bind (cluster_Key marshal config) (\<lambda>key.
     let maxInFlight = (if cc_MaxInFlight config \<le> 0 then DefaultMaxInFlight else cc_MaxInFlight config)
     in res_bind
       (if cc_Targets config = [] then Inr None
        else case newUpstreamLoadBalanceWithPriorities ops (cc_Targets config) (cc_Priorities config)
                    (cc_Checks config) of
            Inl e \<Rightarrow> Inl (LBError e) | Inr lb \<Rightarrow> Inr (Some lb)) (\<lambda>lb.
     let transport = AdmissionTripper maxInFlight
           (RetryTripper (NewProgressTimeoutTransport base (cc_SendTimeout config) (cc_ReadTimeout config)));
         cluster = \<lparr>cl_config = config, cl_key = key, cl_lb = lb, cl_transport = transport,
           cl_health = None, cl_maxInFlight = maxInFlight, cl_probing = False, cl_idleClosed = False,
           cl_closed = False\<rparr>
     in case lb of
          Some (HealthLB ha) \<Rightarrow>
            let cluster1 = cluster\<lparr>cl_lb := Some (HealthLB (ha_setObserver ha (cc_Name config) True))\<rparr>
            in (case ParseActiveHealthConfig (cc_Checks config) of
                  Inl e \<Rightarrow> Inl (LBError (CheckError e))
                | Inr None \<Rightarrow> Inr cluster1
                | Inr (Some active) \<Rightarrow>
                    Inr (cluster1\<lparr>cl_health := Some (newActiveHealthChecker active (cc_Targets config)
                           (cc_Name config) True (probe_base base)), cl_probing := True\<rparr>))
        | _ \<Rightarrow> Inr cluster))"

definition newCluster ::
  "'w sw_ops \<Rightarrow> marshal \<Rightarrow> ClusterConfig \<Rightarrow> (cluster_error, 'w Cluster) result" where
  "newCluster ops marshal config =
     (if cc_HTTP2Cleartext config
      then newClusterWithTransport ops marshal config
             (newResponseHeaderTimeoutTransport (OtherTripper 0) (to_responseHeaderTimeout (cc_Transport config)))
      else newClusterWithTransport ops marshal config (BaseTripper (HTTPTransport 0)))"

text \<open>\<open>Close\<close> runs its body once. The probes have returned when it goes on, see the property of
  the checker's \<open>Close\<close>.\<close>

definition cluster_Close :: "'w Cluster \<Rightarrow> 'w Cluster" where
  "cluster_Close c =
     (if cl_closed c then c
      else let c1 = c\<lparr>cl_probing := False\<rparr>;
               c2 = (case cl_lb c1 of
                       Some (HealthLB ha) \<Rightarrow> c1\<lparr>cl_lb := Some (HealthLB (ha_clearObserver ha))\<rparr>
                     | _ \<Rightarrow> c1)
           in c2\<lparr>cl_idleClosed := True, cl_closed := True\<rparr>)"

section \<open>Admission\<close>

text \<open>
  The state of an \<open>admissionTransport\<close>: the tokens in its channel, the calls that are inside the
  base transport, and for every response body handed out whether its \<open>once\<close> has run.
\<close>

record admissionTransport =
  ad_limit :: nat
  ad_name :: string
  ad_tokens :: nat
  ad_calls :: nat
  ad_bodies :: "bool list"

definition newAdmissionTransport :: "int \<Rightarrow> string \<Rightarrow> admissionTransport" where
  "newAdmissionTransport limit name =
     \<lparr>ad_limit = nat limit, ad_name = name, ad_tokens = 0, ad_calls = 0, ad_bodies = []\<rparr>"

text \<open>\<open>release\<close> receives from the channel: \<open>None\<close> when that would block.\<close>

definition ad_release :: "admissionTransport \<Rightarrow> (admissionTransport \<times> cluster_event list) option" where
  "ad_release t =
     (if ad_tokens t = 0 then None
      else Some (t\<lparr>ad_tokens := ad_tokens t - 1\<rparr>, [SetInFlight (ad_name t) (-1)]))"

text \<open>\<open>RoundTrip\<close> up to the call of the base transport: \<open>False\<close> is \<open>ErrClusterOverloaded\<close>.\<close>

definition ad_admit :: "admissionTransport \<Rightarrow> bool \<times> admissionTransport \<times> cluster_event list" where
  "ad_admit t =
     (if ad_tokens t < ad_limit t
      then (True, t\<lparr>ad_tokens := ad_tokens t + 1, ad_calls := ad_calls t + 1\<rparr>, [SetInFlight (ad_name t) 1])
      else (False, t, [ObserveRejected (ad_name t)]))"

text \<open>\<open>RoundTrip\<close> after the base transport returned: an error, no body, or a body.\<close>

datatype base_outcome = BaseError | BaseNoBody | BaseBody

definition ad_return ::
  "admissionTransport \<Rightarrow> base_outcome \<Rightarrow> (admissionTransport \<times> cluster_event list) option" where
  "ad_return t out =
     (let t1 = t\<lparr>ad_calls := ad_calls t - 1\<rparr>
      in case out of
           BaseError \<Rightarrow> ad_release t1
         | BaseNoBody \<Rightarrow> ad_release t1
         | BaseBody \<Rightarrow> Some (t1\<lparr>ad_bodies := ad_bodies t1 @ [False]\<rparr>, []))"

text \<open>Operations on a wrapped body; the flag is whether the underlying call returned an error
  (\<open>io.EOF\<close> included). A body that is not duplex has no \<open>Write\<close>.\<close>

datatype body_op = BodyRead bool | BodyWrite bool | BodyClose

definition body_done :: "body_op \<Rightarrow> bool" where
  "body_done op = (case op of BodyRead err \<Rightarrow> err | BodyWrite err \<Rightarrow> err | BodyClose \<Rightarrow> True)"

definition ad_body ::
  "admissionTransport \<Rightarrow> nat \<Rightarrow> body_op \<Rightarrow> (admissionTransport \<times> cluster_event list) option" where
  "ad_body t i op =
     (if body_done op \<and> \<not> ad_bodies t ! i
      then ad_release (t\<lparr>ad_bodies := (ad_bodies t)[i := True]\<rparr>) else Some (t, []))"

text \<open>Concurrent use: any number of calls and bodies, in any order. \<open>blocked\<close> is a step that would
  wait in \<open>release\<close>.\<close>

inductive ad_step ::
  "admissionTransport \<Rightarrow> cluster_event list \<Rightarrow> admissionTransport option \<Rightarrow> bool" where
  ad_call: "ad_admit t = (ok, t', evs) \<Longrightarrow> ad_step t evs (Some t')"
| ad_returned: "0 < ad_calls t \<Longrightarrow> ad_return t out = Some (t', evs) \<Longrightarrow> ad_step t evs (Some t')"
| ad_returned_blocked: "0 < ad_calls t \<Longrightarrow> ad_return t out = None \<Longrightarrow> ad_step t [] None"
| ad_used: "i < length (ad_bodies t) \<Longrightarrow> ad_body t i op = Some (t', evs) \<Longrightarrow> ad_step t evs (Some t')"
| ad_used_blocked: "i < length (ad_bodies t) \<Longrightarrow> ad_body t i op = None \<Longrightarrow> ad_step t [] None"

inductive ad_reachable :: "admissionTransport \<Rightarrow> cluster_event list \<Rightarrow> admissionTransport option \<Rightarrow> bool"
  for t0 :: admissionTransport where
  ad_init: "ad_reachable t0 [] (Some t0)"
| ad_more: "ad_reachable t0 evs (Some t) \<Longrightarrow> ad_step t evs' t' \<Longrightarrow> ad_reachable t0 (evs @ evs') t'"

text \<open>The value the observer's in-flight gauge of a cluster has after the events.\<close>

fun inflight_gauge :: "string \<Rightarrow> cluster_event list \<Rightarrow> int" where
  "inflight_gauge name [] = 0"
| "inflight_gauge name (SetInFlight n delta # evs) =
     (if n = name then delta else 0) + inflight_gauge name evs"
| "inflight_gauge name (_ # evs) = inflight_gauge name evs"

section \<open>The admission invariant\<close>

definition open_bodies :: "admissionTransport \<Rightarrow> nat" where
  "open_bodies t = count_list (ad_bodies t) False"

definition ad_inv :: "admissionTransport \<Rightarrow> bool" where
  "ad_inv t \<longleftrightarrow> ad_tokens t = ad_calls t + open_bodies t \<and> ad_tokens t \<le> ad_limit t"

lemma inflight_gauge_append [simp]:
  "inflight_gauge name (evs @ evs') = inflight_gauge name evs + inflight_gauge name evs'"
  by (induction name evs rule: inflight_gauge.induct) auto

lemma count_list_update:
  "i < length xs \<Longrightarrow> \<not> xs ! i \<Longrightarrow> Suc (count_list (xs[i := True]) False) = count_list xs False"
  by (induction xs arbitrary: i) (auto simp: nth_Cons split: nat.splits)

lemma ad_release_Some:
  assumes "0 < ad_tokens t" and "ad_release t = r"
  shows "r = Some (t\<lparr>ad_tokens := ad_tokens t - 1\<rparr>, [SetInFlight (ad_name t) (-1)])"
  using assms by (simp add: ad_release_def)

text \<open>A step is never blocked, keeps the invariant, the limit and the name, and the gauge moves
  with the tokens.\<close>

lemma ad_step_inv:
  assumes "ad_step t evs r" and "ad_inv t"
  shows "\<exists>t'. r = Some t' \<and> ad_inv t' \<and> ad_limit t' = ad_limit t \<and> ad_name t' = ad_name t
    \<and> inflight_gauge (ad_name t) evs = int (ad_tokens t') - int (ad_tokens t)"
  using assms
proof cases
  case (ad_call ok t')
  then show ?thesis
    using assms(2) by (auto simp: ad_admit_def ad_inv_def open_bodies_def split: if_splits)
next
  case (ad_returned out t')
  have "0 < ad_tokens t" using ad_returned assms(2) by (simp add: ad_inv_def)
  then show ?thesis
    using ad_returned assms(2)
    by (cases out) (auto simp: ad_return_def ad_release_def ad_inv_def open_bodies_def)
next
  case (ad_returned_blocked out)
  have "0 < ad_tokens t" using ad_returned_blocked assms(2) by (simp add: ad_inv_def)
  then show ?thesis
    using ad_returned_blocked by (cases out) (auto simp: ad_return_def ad_release_def)
next
  case (ad_used i op t')
  show ?thesis
  proof (cases "body_done op \<and> \<not> ad_bodies t ! i")
    case True
    note upd = count_list_update[of i "ad_bodies t"]
    have "0 < ad_tokens t" using upd True ad_used assms(2) by (auto simp: ad_inv_def open_bodies_def)
    then show ?thesis
      using upd True ad_used assms(2)
      by (auto simp: ad_body_def ad_release_def ad_inv_def open_bodies_def)
  next
    case False
    then show ?thesis using ad_used assms(2) by (auto simp: ad_body_def)
  qed
next
  case (ad_used_blocked i op)
  note upd = count_list_update[of i "ad_bodies t"]
  show ?thesis
    using upd ad_used_blocked assms(2)
    by (auto simp: ad_body_def ad_release_def ad_inv_def open_bodies_def split: if_splits)
qed

lemma ad_reachable_inv:
  assumes "ad_reachable t0 evs r" and "ad_inv t0" and "ad_tokens t0 = 0"
  shows "\<exists>t. r = Some t \<and> ad_inv t \<and> ad_limit t = ad_limit t0 \<and> ad_name t = ad_name t0
    \<and> inflight_gauge (ad_name t0) evs = int (ad_tokens t)"
  using assms
proof (induction rule: ad_reachable.induct)
  case ad_init
  then show ?case by simp
next
  case (ad_more evs t evs' t')
  then show ?case using ad_step_inv[OF ad_more.hyps(2)] by fastforce
qed

lemma newAdmissionTransport_inv: "ad_inv (newAdmissionTransport limit name)"
  by (simp add: ad_inv_def open_bodies_def newAdmissionTransport_def)

section \<open>What identifies a cluster\<close>

lemma sortedClusterTargets_inj:
  assumes "gomap m" and "gomap m'"
  shows "sortedClusterTargets m = sortedClusterTargets m' \<longleftrightarrow> map_of m = map_of m'"
proof
  assume eq: "sortedClusterTargets m = sortedClusterTargets m'"
  have of_sorted: "map_of (sortedClusterTargets m) = map_of m" if "gomap m" for m
  proof
    fix t
    show "map_of (sortedClusterTargets m) t = map_of m t"
      using that by (cases "map_of m t")
        (auto simp: sortedClusterTargets_def map_of_map_restrict restrict_map_def mget0_def)
  qed
  show "map_of m = map_of m'" using of_sorted[OF assms(1)] of_sorted[OF assms(2)] eq by simp
next
  assume eq: "map_of m = map_of m'"
  then have "sort (mkeys m) = sort (mkeys m')"
    using assms by (intro sort_mkeys_cong) auto
  moreover have "mget0 m = mget0 m'" using eq by (simp add: mget0_def fun_eq_iff)
  ultimately show "sortedClusterTargets m = sortedClusterTargets m'"
    by (simp add: sortedClusterTargets_def)
qed

lemma sortedClusterPriorities_alt: "sortedClusterPriorities m = sortedClusterTargets m"
  by (simp add: sortedClusterPriorities_def sortedClusterTargets_def)

text \<open>The same effective configuration: equal as Go values, maps compared by content, and
  transports by what identifies them.\<close>

definition same_config :: "ClusterConfig \<Rightarrow> ClusterConfig \<Rightarrow> bool" where
  "same_config c d \<longleftrightarrow> cc_Name c = cc_Name d \<and> map_of (cc_Targets c) = map_of (cc_Targets d)
     \<and> map_of (cc_Priorities c) = map_of (cc_Priorities d) \<and> cc_Checks c = cc_Checks d
     \<and> keyIdentity (cc_Transport c) = keyIdentity (cc_Transport d)
     \<and> cc_SendTimeout c = cc_SendTimeout d \<and> cc_ReadTimeout c = cc_ReadTimeout d
     \<and> cc_Retries c = cc_Retries d \<and> cc_RetriesConfigured c = cc_RetriesConfigured d
     \<and> cc_MaxInFlight c = cc_MaxInFlight d \<and> cc_HTTP2Cleartext c = cc_HTTP2Cleartext d"

definition config_ok :: "ClusterConfig \<Rightarrow> bool" where
  "config_ok c \<longleftrightarrow> gomap (cc_Targets c) \<and> gomap (cc_Priorities c)"

lemma cluster_identity_inj:
  assumes "config_ok c" and "config_ok d"
  shows "cluster_identity c = cluster_identity d \<longleftrightarrow> same_config c d"
  using assms
  by (simp add: cluster_identity_def same_config_def config_ok_def sortedClusterPriorities_alt
      sortedClusterTargets_inj)

section \<open>New clusters\<close>

lemma newUpstreamLoadBalance_cases:
  assumes "newUpstreamLoadBalanceWithPriorities ops servers priorities checks = Inr lb"
  shows "(lb = PriorityLB (newPriorityGroups ops servers priorities)
          \<or> (\<exists>ha prio. lb = HealthLB ha \<and> newHealthAwareLoadBalance ops servers prio checks = Inr ha))
    \<and> newPriorityGroups ops servers priorities \<noteq> [] \<and> servers \<noteq> []"
  using assms
  by (auto simp: newUpstreamLoadBalanceWithPriorities_def Let_def res_bind_Inr_iff split: if_splits)

definition cluster_ok :: "'w sw_ops \<Rightarrow> 'w Cluster \<Rightarrow> bool" where
  "cluster_ok ops c \<longleftrightarrow> 0 < cl_maxInFlight c
     \<and> (cl_lb c = None \<longleftrightarrow> cc_Targets (cl_config c) = [])
     \<and> (\<forall>ha. cl_lb c = Some (HealthLB ha) \<longrightarrow>
          (\<exists>prio. ha_reachable ops (cc_Targets (cl_config c)) prio (cc_Checks (cl_config c)) ha)
          \<and> ha_observer ha = (\<not> cl_closed c))
     \<and> (cl_health c \<noteq> None \<longrightarrow> (\<exists>ha. cl_lb c = Some (HealthLB ha)))
     \<and> (cl_probing c \<longleftrightarrow> cl_health c \<noteq> None \<and> \<not> cl_closed c)
     \<and> cl_idleClosed c = cl_closed c"

lemma cluster_Key_ok:
  "cluster_Key marshal c = Inr k \<longleftrightarrow> (\<exists>raw. marshal (cluster_identity c) = Inr raw \<and> k = Sum256 raw)"
  by (auto simp: cluster_Key_def split: sum.splits)

lemma newClusterWithTransport_ok:
  fixes ops :: "'w sw_ops"
  assumes "newClusterWithTransport ops marshal config base = Inr c"
  shows "cluster_ok ops c \<and> cl_config c = config \<and> cluster_Key marshal config = Inr (cl_key c)
    \<and> \<not> cl_closed c
    \<and> cl_transport c = AdmissionTripper (cl_maxInFlight c)
        (RetryTripper (NewProgressTimeoutTransport base (cc_SendTimeout config) (cc_ReadTimeout config)))"
proof -
  let ?max = "if cc_MaxInFlight config \<le> 0 then DefaultMaxInFlight else cc_MaxInFlight config"
  have max: "0 < ?max" by (simp add: DefaultMaxInFlight_def)
  obtain key lb where key: "cluster_Key marshal config = Inr key"
    and lb: "(if cc_Targets config = [] then Inr None
        else case newUpstreamLoadBalanceWithPriorities ops (cc_Targets config) (cc_Priorities config)
                    (cc_Checks config) of
            Inl e \<Rightarrow> Inl (LBError e) | Inr lb \<Rightarrow> Inr (Some lb)) = (Inr lb :: cluster_error + 'w upstream_lb option)"
    using assms by (auto simp: newClusterWithTransport_def Let_def elim!: res_bind_InrE)
  have none: "lb = None \<longleftrightarrow> cc_Targets config = []"
    using lb by (auto split: if_splits sum.splits)
  have ha: "\<exists>prio. ha_reachable ops (cc_Targets config) prio (cc_Checks config) (ha_setObserver ha name True)"
    if "lb = Some (HealthLB ha)" for ha name
  proof -
    have "newUpstreamLoadBalanceWithPriorities ops (cc_Targets config) (cc_Priorities config)
        (cc_Checks config) = Inr (HealthLB ha)"
      using lb that by (auto split: if_splits sum.splits)
    from newUpstreamLoadBalance_cases[OF this] obtain prio where
      "newHealthAwareLoadBalance ops (cc_Targets config) prio (cc_Checks config) = Inr ha" by auto
    then show ?thesis by (meson reachable_new reachable_step step_setObserver)
  qed
  show ?thesis
  proof (cases "\<exists>ha. lb = Some (HealthLB ha)")
    case True
    then obtain ha where lbe: "lb = Some (HealthLB ha)" by blast
    obtain a where "ParseActiveHealthConfig (cc_Checks config) = Inr a"
      using assms key lb lbe
      by (cases "ParseActiveHealthConfig (cc_Checks config)") (simp_all add: newClusterWithTransport_def Let_def)
    then show ?thesis
      using assms key lb lbe max none ha[OF lbe]
      by (cases a) (auto simp: newClusterWithTransport_def Let_def cluster_ok_def ha_setObserver_def)
  next
    case False
    then show ?thesis
      using assms key lb max none
      by (auto simp: newClusterWithTransport_def Let_def cluster_ok_def split: option.splits upstream_lb.splits)
  qed
qed

lemma newCluster_ok:
  assumes "newCluster ops marshal config = Inr c"
  shows "cluster_ok ops c \<and> cl_config c = config \<and> cluster_Key marshal config = Inr (cl_key c)
    \<and> \<not> cl_closed c"
proof -
  obtain base where "newClusterWithTransport ops marshal config base = Inr c"
    using assms by (auto simp: newCluster_def split: if_splits)
  from newClusterWithTransport_ok[OF this] show ?thesis by blast
qed

lemma cluster_Close_sel [simp]:
  "cl_config (cluster_Close c) = cl_config c" "cl_key (cluster_Close c) = cl_key c"
  "cl_closed (cluster_Close c)" "cl_maxInFlight (cluster_Close c) = cl_maxInFlight c"
  by (auto simp: cluster_Close_def Let_def split: option.splits upstream_lb.splits)

lemma cluster_Close_ok:
  assumes "cluster_ok ops c"
  shows "cluster_ok ops (cluster_Close c)"
proof (cases "\<exists>ha. cl_lb c = Some (HealthLB ha)")
  case True
  then obtain ha where ha: "cl_lb c = Some (HealthLB ha)" by blast
  then obtain prio where "ha_reachable ops (cc_Targets (cl_config c)) prio (cc_Checks (cl_config c)) ha"
    using assms by (auto simp: cluster_ok_def)
  then have "ha_reachable ops (cc_Targets (cl_config c)) prio (cc_Checks (cl_config c)) (ha_clearObserver ha)"
    by (meson reachable_step step_clearObserver)
  then show ?thesis
    using assms ha by (auto simp: cluster_ok_def cluster_Close_def ha_clearObserver_def)
next
  case False
  then show ?thesis
    using assms by (auto simp: cluster_ok_def cluster_Close_def Let_def split: option.splits upstream_lb.splits)
qed

lemma cluster_Close_idem: "cluster_Close (cluster_Close c) = cluster_Close c"
  by (simp add: cluster_Close_def[of "cluster_Close c"])

section \<open>Properties\<close>




text \<open>A configuration, and an encoder that writes the name.\<close>

definition demo_option :: TransportOption where
  "demo_option = TransportOption_Build
     \<lparr>to_maxIdleConnections = 0, to_maxIdleConnectionsPerHost = 0, to_maxConnectionsPerHost = 0,
      to_insecureSkipVerify = False,
      to_tlsClientCertificate = \<lparr>tc_Certificate = [], tc_PrivateKey = None, tc_Leaf = None\<rparr>,
      to_dialTimeout = 0, to_responseHeaderTimeout = 0, to_idleConnTimeout = 0\<rparr>"

definition demo_config :: "string \<Rightarrow> (string, int) gomap \<Rightarrow> ClusterConfig" where
  "demo_config name targets =
     \<lparr>cc_Name = name, cc_Targets = targets, cc_Priorities = [], cc_Checks = None,
      cc_Transport = demo_option, cc_SendTimeout = 0, cc_ReadTimeout = 0, cc_Retries = 0,
      cc_RetriesConfigured = False, cc_MaxInFlight = 0, cc_HTTP2Cleartext = False\<rparr>"

definition demo_marshal :: marshal where
  "demo_marshal i = Inr (map (\<lambda>c. of_nat (of_char c)) (ki_Name i))"


text \<open>C16. New clusters are usable and closed ones are quiet. A cluster that \<open>newCluster\<close> returns is
  open, has a positive admission limit and sends through admission outside retries; it has a
  balancer exactly when it has targets, and when that balancer tracks health it is in a reachable
  state with the cluster as its observer. Closing it any number of times stops the probes, takes
  the observer away and closes the idle connections, and leaves the rest as it was.\<close>

theorem new_cluster_lifecycle:
  assumes "newCluster ops marshal config = Inr c"
  shows "\<not> cl_closed c \<and> 0 < cl_maxInFlight c
    \<and> (\<exists>inner. cl_transport c = AdmissionTripper (cl_maxInFlight c) (RetryTripper inner))
    \<and> (cl_lb c = None \<longleftrightarrow> cc_Targets config = [])
    \<and> (\<forall>ha. cl_lb c = Some (HealthLB ha) \<longrightarrow> ha_observer ha
         \<and> (\<exists>prio. ha_reachable ops (cc_Targets config) prio (cc_Checks config) ha))
    \<and> (cl_probing c \<longleftrightarrow> cl_health c \<noteq> None)
    \<and> (let d = (cluster_Close ^^ Suc n) c
       in cl_closed d \<and> \<not> cl_probing d \<and> cl_idleClosed d \<and> cl_config d = config
          \<and> cl_transport d = cl_transport c
          \<and> (\<forall>ha. cl_lb d = Some (HealthLB ha) \<longrightarrow> \<not> ha_observer ha))"
proof -
  obtain base where base: "newClusterWithTransport ops marshal config base = Inr c"
    using assms by (auto simp: newCluster_def split: if_splits)
  note new = newClusterWithTransport_ok[OF base]
  have close: "(cluster_Close ^^ Suc n) c = cluster_Close c"
    by (induction n) (simp_all add: cluster_Close_idem)
  have "cluster_ok ops (cluster_Close c)" using new cluster_Close_ok by blast
  moreover have "cl_transport (cluster_Close c) = cl_transport c"
    by (auto simp: cluster_Close_def Let_def split: option.splits upstream_lb.splits)
  ultimately show ?thesis
    using new unfolding close Let_def by (auto simp: cluster_ok_def)
qed

lemma new_cluster_lifecycle_witness:
  "\<exists>c. newCluster smooth_ops demo_marshal (demo_config ''up'' [(''a'', 1), (''b'', 2)]) = Inr c
     \<and> cl_maxInFlight c = 1024 \<and> \<not> cl_closed c \<and> cl_closed ((cluster_Close ^^ Suc 1) c)"
proof -
  let ?c = "demo_config ''up'' [(''a'', 1), (''b'', 2)]"
  have "case newCluster smooth_ops demo_marshal ?c of Inl _ \<Rightarrow> False
      | Inr c \<Rightarrow> cl_maxInFlight c = 1024"
    by (simp add: newCluster_def newClusterWithTransport_def cluster_Key_def demo_marshal_def
        demo_config_def DefaultMaxInFlight_def newUpstreamLoadBalanceWithPriorities_def
        newPriorityGroups_def group_add_def checks_has_def group_weights_def Let_def)
  then obtain c where c: "newCluster smooth_ops demo_marshal ?c = Inr c" and "cl_maxInFlight c = 1024"
    by (auto split: sum.splits)
  with new_cluster_lifecycle[OF c, of 1] show ?thesis by (auto simp: Let_def)
qed

end
