(* ===== verification/Registry.thy ===== *)
theory Registry
  imports Cluster
begin

text \<open>
  The registry of clusters, \<open>pkg/proxy/registry.go\<close>: it interns configurations by key, counts the
  leases of each cluster and closes a cluster with its last lease. Clusters and leases are shared
  objects, so the registry state has a heap of each, and a pointer is an index. \<open>Acquire\<close>, the
  release of a lease and the first part of \<open>Close\<close> run under the registry's mutex; what \<open>Close\<close>
  does after it touches only clusters no entry refers to any more.
\<close>

section \<open>State\<close>

record clusterEntry =
  ce_cluster :: nat
  ce_refs :: int

record ClusterLease =
  ls_key :: "byte list"
  ls_cluster :: nat
  ls_stopped :: bool

record 'w ClusterRegistry =
  cr_entries :: "(byte list, clusterEntry) gomap"
  cr_status :: bool
  cr_closed :: bool
  cr_clusters :: "'w Cluster list"
  cr_leases :: "ClusterLease list"

text \<open>The flag is whether the observer is an \<open>UpstreamStatusObserver\<close> too.\<close>

definition NewClusterRegistry :: "bool \<Rightarrow> 'w ClusterRegistry" where
  "NewClusterRegistry status =
     \<lparr>cr_entries = [], cr_status = status, cr_closed = False, cr_clusters = [], cr_leases = []\<rparr>"

section \<open>Operations\<close>

definition add_lease :: "'w ClusterRegistry \<Rightarrow> byte list \<Rightarrow> nat \<Rightarrow> 'w ClusterRegistry" where
  "add_lease r key cluster =
     r\<lparr>cr_leases := cr_leases r @ [\<lparr>ls_key = key, ls_cluster = cluster, ls_stopped = False\<rparr>]\<rparr>"

text \<open>\<open>Acquire\<close> returns the index of the new lease.\<close>

definition registry_Acquire ::
  "'w sw_ops \<Rightarrow> marshal \<Rightarrow> 'w ClusterRegistry \<Rightarrow> ClusterConfig
     \<Rightarrow> (cluster_error, nat) result \<times> 'w ClusterRegistry \<times> cluster_event list" where
  "registry_Acquire ops marshal r config =
     (case cluster_Key marshal config of
        Inl e \<Rightarrow> (Inl e, r, [])
      | Inr key \<Rightarrow>
          if cr_closed r then (Inl RegistryClosed, r, [])
          else case map_of (cr_entries r) key of
            Some entry \<Rightarrow>
              (Inr (length (cr_leases r)),
               add_lease (r\<lparr>cr_entries := mput key (entry\<lparr>ce_refs := ce_refs entry + 1\<rparr>) (cr_entries r)\<rparr>)
                 key (ce_cluster entry), [])
          | None \<Rightarrow>
              (case newCluster ops marshal config of
                 Inl e \<Rightarrow> (Inl e, r, [])
               | Inr cluster \<Rightarrow>
                   let evs = (if cr_status r
                         then map (\<lambda>(target, _). SetUpstreamStatus (cc_Name config) target True)
                                (sortedClusterTargets (cc_Targets config)) else []);
                       addr = length (cr_clusters r)
                   in (Inr (length (cr_leases r)),
                       add_lease (r\<lparr>cr_clusters := cr_clusters r @ [cluster],
                           cr_entries := mput key \<lparr>ce_cluster = addr, ce_refs = 1\<rparr> (cr_entries r)\<rparr>) key addr,
                       evs)))"

definition entry_cluster :: "'w ClusterRegistry \<Rightarrow> clusterEntry \<Rightarrow> 'w Cluster" where
  "entry_cluster r e = cr_clusters r ! ce_cluster e"

definition entry_config :: "'w ClusterRegistry \<Rightarrow> clusterEntry \<Rightarrow> ClusterConfig" where
  "entry_config r e = cl_config (entry_cluster r e)"

definition registry_release ::
  "'w ClusterRegistry \<Rightarrow> byte list \<Rightarrow> 'w ClusterRegistry \<times> cluster_event list" where
  "registry_release r key =
     (case map_of (cr_entries r) key of
        None \<Rightarrow> (r, [])
      | Some entry \<Rightarrow>
          if 0 < ce_refs entry - 1
          then (r\<lparr>cr_entries := mput key (entry\<lparr>ce_refs := ce_refs entry - 1\<rparr>) (cr_entries r)\<rparr>, [])
          else
            let name = cc_Name (entry_config r entry);
                rest = mdel key (cr_entries r);
                same = filter (\<lambda>(_, e). cc_Name (entry_config r e) = name) rest;
                remaining = concat (map (\<lambda>(_, e). mkeys (cc_Targets (entry_config r e))) same);
                r1 = r\<lparr>cr_entries := rest,
                       cr_clusters := (cr_clusters r)[ce_cluster entry := cluster_Close (entry_cluster r entry)]\<rparr>
            in if same \<noteq> []
               then (r1, if cr_status r
                         then map (DeleteUpstreamStatus name)
                                (filter (\<lambda>t. t \<notin> set remaining) (mkeys (cc_Targets (entry_config r entry))))
                         else [])
               else (r1, [DeleteCluster name]))"

text \<open>\<open>Stop\<close> of lease \<open>i\<close>.\<close>

definition lease_Stop :: "'w ClusterRegistry \<Rightarrow> nat \<Rightarrow> 'w ClusterRegistry \<times> cluster_event list" where
  "lease_Stop r i =
     (let l = cr_leases r ! i
      in if ls_stopped l then (r, [])
         else registry_release (r\<lparr>cr_leases := (cr_leases r)[i := l\<lparr>ls_stopped := True\<rparr>]\<rparr>) (ls_key l))"

definition registry_Len :: "'w ClusterRegistry \<Rightarrow> nat" where
  "registry_Len r = length (cr_entries r)"

definition registry_Close :: "'w ClusterRegistry \<Rightarrow> 'w ClusterRegistry \<times> cluster_event list" where
  "registry_Close r =
     (if cr_closed r then (r, [])
      else let addrs = map (\<lambda>(_, e). ce_cluster e) (cr_entries r);
               names = remdups (map (\<lambda>(_, e). cc_Name (entry_config r e)) (cr_entries r));
               clusters = foldl (\<lambda>cs a. cs[a := cluster_Close (cs ! a)]) (cr_clusters r) addrs
           in (r\<lparr>cr_closed := True, cr_entries := [], cr_clusters := clusters\<rparr>, map DeleteCluster names))"

section \<open>Histories\<close>

text \<open>Requests and probes change the clusters too, but not what identifies them or whether they
  are closed.\<close>

definition same_cluster :: "'w Cluster \<Rightarrow> 'w Cluster \<Rightarrow> bool" where
  "same_cluster c d \<longleftrightarrow> cl_config d = cl_config c \<and> cl_key d = cl_key c \<and> cl_closed d = cl_closed c"

inductive registry_step ::
  "'w sw_ops \<Rightarrow> marshal \<Rightarrow> 'w ClusterRegistry \<Rightarrow> cluster_event list \<Rightarrow> 'w ClusterRegistry \<Rightarrow> bool"
  for ops :: "'w sw_ops" and marshal :: marshal where
  step_Acquire: "config_ok config \<Longrightarrow> registry_Acquire ops marshal r config = (res, r', evs) \<Longrightarrow>
    registry_step ops marshal r evs r'"
| step_Stop: "i < length (cr_leases r) \<Longrightarrow> lease_Stop r i = (r', evs) \<Longrightarrow> registry_step ops marshal r evs r'"
| step_Close: "registry_Close r = (r', evs) \<Longrightarrow> registry_step ops marshal r evs r'"
| step_use: "list_all2 same_cluster (cr_clusters r) cs \<Longrightarrow>
    registry_step ops marshal r [] (r\<lparr>cr_clusters := cs\<rparr>)"

inductive registry_reachable ::
  "'w sw_ops \<Rightarrow> marshal \<Rightarrow> bool \<Rightarrow> cluster_event list \<Rightarrow> 'w ClusterRegistry \<Rightarrow> bool"
  for ops :: "'w sw_ops" and marshal :: marshal and status :: bool where
  registry_new: "registry_reachable ops marshal status [] (NewClusterRegistry status)"
| registry_more: "registry_reachable ops marshal status evs r \<Longrightarrow> registry_step ops marshal r evs' r' \<Longrightarrow>
    registry_reachable ops marshal status (evs @ evs') r'"

section \<open>The invariant\<close>

definition live_leases :: "'w ClusterRegistry \<Rightarrow> byte list \<Rightarrow> nat" where
  "live_leases r key = length (filter (\<lambda>l. ls_key l = key \<and> \<not> ls_stopped l) (cr_leases r))"

definition entry_ok :: "'w ClusterRegistry \<Rightarrow> byte list \<Rightarrow> clusterEntry \<Rightarrow> bool" where
  "entry_ok r key e \<longleftrightarrow> ce_cluster e < length (cr_clusters r) \<and> cl_key (entry_cluster r e) = key
     \<and> \<not> cl_closed (entry_cluster r e) \<and> gomap (cc_Targets (entry_config r e))
     \<and> 0 < ce_refs e \<and> ce_refs e = int (live_leases r key)"

text \<open>The cluster a key selects.\<close>

definition addr_of :: "'w ClusterRegistry \<Rightarrow> byte list \<Rightarrow> nat option" where
  "addr_of r key = map_option ce_cluster (map_of (cr_entries r) key)"

definition registry_inv :: "'w ClusterRegistry \<Rightarrow> bool" where
  "registry_inv r \<longleftrightarrow> gomap (cr_entries r) \<and> (cr_closed r \<longrightarrow> cr_entries r = [])
     \<and> (\<forall>key e. map_of (cr_entries r) key = Some e \<longrightarrow> entry_ok r key e)
     \<and> (\<forall>l\<in>set (cr_leases r). \<not> ls_stopped l \<longrightarrow> \<not> cr_closed r \<longrightarrow>
          addr_of r (ls_key l) = Some (ls_cluster l))
     \<and> (\<forall>i<length (cr_clusters r). \<not> cl_closed (cr_clusters r ! i) \<longrightarrow> (\<exists>key. addr_of r key = Some i))"

text \<open>The upstream status series an observer shows after events.\<close>

fun apply_event :: "(string \<times> string) set \<Rightarrow> cluster_event \<Rightarrow> (string \<times> string) set" where
  "apply_event S (SetUpstreamStatus name target _) = insert (name, target) S"
| "apply_event S (DeleteUpstreamStatus name target) = S - {(name, target)}"
| "apply_event S (DeleteCluster name) = {(n, t). (n, t) \<in> S \<and> n \<noteq> name}"
| "apply_event S _ = S"

definition status_series :: "cluster_event list \<Rightarrow> (string \<times> string) set" where
  "status_series evs = foldl apply_event {} evs"

text \<open>The series the clusters in the registry call for.\<close>

definition cluster_series :: "'w Cluster \<Rightarrow> (string \<times> string) set" where
  "cluster_series c = {cc_Name (cl_config c)} \<times> dom (map_of (cc_Targets (cl_config c)))"

definition registry_series :: "'w ClusterRegistry \<Rightarrow> (string \<times> string) set" where
  "registry_series r = (\<Union>a\<in>ran (addr_of r). cluster_series (cr_clusters r ! a))"

section \<open>Counting leases\<close>

lemma live_leases_add [simp]:
  "live_leases (add_lease r key a) k = live_leases r k + (if k = key then 1 else 0)"
  by (simp add: live_leases_def add_lease_def)

lemma length_filter_update:
  assumes "i < length xs" and "P (xs ! i)" and "\<not> P y"
  shows "Suc (length (filter P (xs[i := y]))) = length (filter P xs)"
  using assms by (induction xs arbitrary: i) (auto simp: nth_Cons split: nat.splits)

lemma length_filter_update_other:
  assumes "i < length xs" and "\<not> P (xs ! i)" and "\<not> P y"
  shows "length (filter P (xs[i := y])) = length (filter P xs)"
  using assms by (induction xs arbitrary: i) (auto simp: nth_Cons split: nat.splits)

lemma live_leases_stop:
  assumes "i < length (cr_leases r)" and "\<not> ls_stopped (cr_leases r ! i)"
    and "r' = r\<lparr>cr_leases := (cr_leases r)[i := (cr_leases r ! i)\<lparr>ls_stopped := True\<rparr>]\<rparr>"
  shows "live_leases r k = live_leases r' k + (if k = ls_key (cr_leases r ! i) then 1 else 0)"
proof (cases "k = ls_key (cr_leases r ! i)")
  case True
  then show ?thesis
    using length_filter_update[of i "cr_leases r" "\<lambda>l. ls_key l = k \<and> \<not> ls_stopped l"] assms
    by (simp add: live_leases_def)
next
  case False
  then show ?thesis
    using length_filter_update_other[of i "cr_leases r" "\<lambda>l. ls_key l = k \<and> \<not> ls_stopped l"] assms
    by (simp add: live_leases_def)
qed

lemma live_leases_frame [simp]:
  "live_leases (r\<lparr>cr_entries := es\<rparr>) = live_leases r"
  "live_leases (r\<lparr>cr_clusters := cs\<rparr>) = live_leases r"
  "live_leases (r\<lparr>cr_closed := b\<rparr>) = live_leases r"
  by (simp_all add: live_leases_def fun_eq_iff)

lemma add_lease_sel [simp]:
  "cr_entries (add_lease r k a) = cr_entries r" "cr_clusters (add_lease r k a) = cr_clusters r"
  "cr_closed (add_lease r k a) = cr_closed r" "cr_status (add_lease r k a) = cr_status r"
  "cr_leases (add_lease r k a) = cr_leases r @ [\<lparr>ls_key = k, ls_cluster = a, ls_stopped = False\<rparr>]"
  by (simp_all add: add_lease_def)

section \<open>Operations keep the invariant\<close>

lemma registry_invD:
  assumes "registry_inv r"
  shows "gomap (cr_entries r)" and "cr_closed r \<Longrightarrow> cr_entries r = []"
    and "map_of (cr_entries r) key = Some e \<Longrightarrow> entry_ok r key e"
    and "l \<in> set (cr_leases r) \<Longrightarrow> \<not> ls_stopped l \<Longrightarrow> \<not> cr_closed r \<Longrightarrow>
           addr_of r (ls_key l) = Some (ls_cluster l)"
    and "i < length (cr_clusters r) \<Longrightarrow> \<not> cl_closed (cr_clusters r ! i) \<Longrightarrow> \<exists>key. addr_of r key = Some i"
  using assms by (auto simp: registry_inv_def)

lemma addr_of_Some: "addr_of r key = Some a \<longleftrightarrow> (\<exists>e. map_of (cr_entries r) key = Some e \<and> ce_cluster e = a)"
  by (auto simp: addr_of_def)

lemma addr_ok:
  assumes "registry_inv r" and "addr_of r key = Some a"
  shows "a < length (cr_clusters r)" and "cl_key (cr_clusters r ! a) = key"
    and "\<not> cl_closed (cr_clusters r ! a)" and "gomap (cc_Targets (cl_config (cr_clusters r ! a)))"
  using assms(2) registry_invD(3)[OF assms(1)]
  by (auto simp: addr_of_Some entry_ok_def entry_cluster_def entry_config_def)

lemma addr_of_inj:
  assumes "registry_inv r" and "addr_of r k = Some a" and "addr_of r k' = Some a"
  shows "k = k'"
  using addr_ok(2)[OF assms(1,2)] addr_ok(2)[OF assms(1,3)] by simp

lemma registry_invI:
  assumes "gomap (cr_entries r)" and "cr_closed r \<Longrightarrow> cr_entries r = []"
    and "\<And>key e. map_of (cr_entries r) key = Some e \<Longrightarrow> entry_ok r key e"
    and "\<And>l. l \<in> set (cr_leases r) \<Longrightarrow> \<not> ls_stopped l \<Longrightarrow> \<not> cr_closed r \<Longrightarrow>
           addr_of r (ls_key l) = Some (ls_cluster l)"
    and "\<And>i. i < length (cr_clusters r) \<Longrightarrow> \<not> cl_closed (cr_clusters r ! i) \<Longrightarrow> \<exists>key. addr_of r key = Some i"
  shows "registry_inv r"
  using assms by (auto simp: registry_inv_def)

lemma registry_series_cong:
  "addr_of r' = addr_of r \<Longrightarrow> cr_clusters r' = cr_clusters r \<Longrightarrow> registry_series r' = registry_series r"
  by (simp add: registry_series_def)

lemma acquire_existing_inv:
  assumes inv: "registry_inv r" and some: "map_of (cr_entries r) key = Some entry"
    and "\<not> cr_closed r"
    and r': "r' = add_lease (r\<lparr>cr_entries := mput key (entry\<lparr>ce_refs := ce_refs entry + 1\<rparr>) (cr_entries r)\<rparr>)
                 key (ce_cluster entry)"
  shows "registry_inv r' \<and> registry_series r' = registry_series r"
proof -
  have addr: "addr_of r' = addr_of r" using some by (auto simp: addr_of_def fun_eq_iff r')
  have cl: "cr_clusters r' = cr_clusters r" by (simp add: r')
  have live: "live_leases r' k = live_leases r k + (if k = key then 1 else 0)" for k
    by (simp add: r')
  have ok: "entry_ok r' k e" if "map_of (cr_entries r') k = Some e" for k e
  proof (cases "k = key")
    case True
    then have "e = entry\<lparr>ce_refs := ce_refs entry + 1\<rparr>" using that by (simp add: r')
    then show ?thesis
      using registry_invD(3)[OF inv some] True
      by (simp add: entry_ok_def live entry_cluster_def entry_config_def cl)
  next
    case False
    then have "entry_ok r k e" using that registry_invD(3)[OF inv] by (simp add: r')
    then show ?thesis using False by (simp add: entry_ok_def live entry_cluster_def entry_config_def cl)
  qed
  have lease: "addr_of r' (ls_key l) = Some (ls_cluster l)"
    if l: "l \<in> set (cr_leases r')" "\<not> ls_stopped l" for l
  proof (cases "l \<in> set (cr_leases r)")
    case True
    then show ?thesis using registry_invD(4)[OF inv True l(2) assms(3)] by (simp add: addr)
  next
    case False
    then have "l = \<lparr>ls_key = key, ls_cluster = ce_cluster entry, ls_stopped = False\<rparr>"
      using l(1) by (simp add: r')
    then show ?thesis using some by (simp add: addr addr_of_Some)
  qed
  have "registry_inv r'"
  proof (rule registry_invI)
    show "gomap (cr_entries r')" using registry_invD(1)[OF inv] by (simp add: r')
    show "\<exists>k. addr_of r' k = Some i"
      if "i < length (cr_clusters r')" "\<not> cl_closed (cr_clusters r' ! i)" for i
      using registry_invD(5)[OF inv] that by (simp add: addr cl)
  qed (use ok lease assms(3) in \<open>simp_all add: r'\<close>)
  with registry_series_cong[OF addr cl] show ?thesis by blast
qed

lemma acquire_new_inv:
  assumes inv: "registry_inv r" and none: "map_of (cr_entries r) key = None"
    and "\<not> cr_closed r" and c: "cl_key c = key" "\<not> cl_closed c" "gomap (cc_Targets (cl_config c))"
    and r': "r' = add_lease (r\<lparr>cr_clusters := cr_clusters r @ [c],
        cr_entries := mput key \<lparr>ce_cluster = length (cr_clusters r), ce_refs = 1\<rparr> (cr_entries r)\<rparr>)
        key (length (cr_clusters r))"
  shows "registry_inv r' \<and> registry_series r' =
    registry_series r \<union> cluster_series c"
proof -
  let ?n = "length (cr_clusters r)"
  have addr: "addr_of r' = (addr_of r)(key \<mapsto> ?n)" by (auto simp: addr_of_def fun_eq_iff r')
  have no: "addr_of r key = None" using none by (simp add: addr_of_def)
  have cl: "cr_clusters r' = cr_clusters r @ [c]" by (simp add: r')
  have live: "live_leases r' k = live_leases r k + (if k = key then 1 else 0)" for k
    by (simp add: r')
  have zero: "live_leases r key = 0"
  proof -
    have "\<not> (ls_key l = key \<and> \<not> ls_stopped l)" if "l \<in> set (cr_leases r)" for l
      using registry_invD(4)[OF inv that _ assms(3)] no by fastforce
    then show ?thesis by (simp add: live_leases_def)
  qed
  have ok: "entry_ok r' k e" if "map_of (cr_entries r') k = Some e" for k e
  proof (cases "k = key")
    case True
    then have "e = \<lparr>ce_cluster = ?n, ce_refs = 1\<rparr>" using that by (simp add: r')
    then show ?thesis
      using True c zero by (simp add: entry_ok_def live entry_cluster_def entry_config_def cl)
  next
    case False
    then have "entry_ok r k e" using that registry_invD(3)[OF inv] by (simp add: r')
    then show ?thesis
      using False by (simp add: entry_ok_def live entry_cluster_def entry_config_def cl nth_append)
  qed
  have leases: "addr_of r' (ls_key l) = Some (ls_cluster l)"
    if "l \<in> set (cr_leases r')" "\<not> ls_stopped l" for l
  proof (cases "l \<in> set (cr_leases r)")
    case True
    then have "addr_of r (ls_key l) = Some (ls_cluster l)"
      using registry_invD(4)[OF inv True that(2) assms(3)] by simp
    then show ?thesis using no by (auto simp: addr)
  next
    case False
    then have "l = \<lparr>ls_key = key, ls_cluster = ?n, ls_stopped = False\<rparr>"
      using that(1) by (simp add: r')
    then show ?thesis by (simp add: addr)
  qed
  have clusters: "\<exists>k. addr_of r' k = Some i"
    if "i < length (cr_clusters r')" "\<not> cl_closed (cr_clusters r' ! i)" for i
  proof (cases "i < ?n")
    case True
    have "\<not> cl_closed (cr_clusters r ! i)" using that(2) True by (simp add: cl nth_append)
    then obtain k where "addr_of r k = Some i" using registry_invD(5)[OF inv True] by blast
    with no show ?thesis by (intro exI[of _ k]) (auto simp: addr)
  next
    case False
    then show ?thesis using that by (intro exI[of _ key]) (simp add: addr cl)
  qed
  have "a < ?n" if "a \<in> ran (addr_of r)" for a
    using that addr_ok(1)[OF inv] by (auto simp: ran_def)
  then have "registry_series r' = registry_series r \<union> cluster_series c"
    using no by (auto simp: registry_series_def addr cl nth_append)
  moreover have "registry_inv r'"
  proof (rule registry_invI)
    show "gomap (cr_entries r')" using registry_invD(1)[OF inv] by (simp add: r')
    show "cr_closed r' \<Longrightarrow> cr_entries r' = []" using assms(3) by (simp add: r')
  qed (use ok leases clusters in blast)+
  ultimately show ?thesis by blast
qed

lemma addr_of_update_inj:
  assumes "registry_inv r" and "addr_of r key = Some a"
  shows "ran ((addr_of r)(key := None)) = ran (addr_of r) - {a}"
proof (intro set_eqI iffI)
  fix b assume "b \<in> ran ((addr_of r)(key := None))"
  then obtain k where "k \<noteq> key" "addr_of r k = Some b" by (auto simp: ran_def split: if_splits)
  then show "b \<in> ran (addr_of r) - {a}"
    using addr_of_inj[OF assms(1) _ assms(2), of k] by (auto simp: ran_def)
next
  fix b assume "b \<in> ran (addr_of r) - {a}"
  then obtain k where "addr_of r k = Some b" "b \<noteq> a" by (auto simp: ran_def)
  then show "b \<in> ran ((addr_of r)(key := None))" using assms(2) by (auto simp: ran_def intro!: exI[of _ k])
qed

text \<open>Giving up one of several references.\<close>

lemma release_some_inv:
  assumes inv: "registry_inv r" and i: "i < length (cr_leases r)" and live: "\<not> ls_stopped (cr_leases r ! i)"
    and key: "key = ls_key (cr_leases r ! i)" and some: "map_of (cr_entries r) key = Some entry"
    and r0: "r0 = r\<lparr>cr_leases := (cr_leases r)[i := (cr_leases r ! i)\<lparr>ls_stopped := True\<rparr>]\<rparr>"
    and more: "0 < ce_refs entry - 1"
    and r': "r' = r0\<lparr>cr_entries := mput key (entry\<lparr>ce_refs := ce_refs entry - 1\<rparr>) (cr_entries r0)\<rparr>"
  shows "registry_inv r' \<and> registry_series r' = registry_series r"
proof -
  have addr: "addr_of r' = addr_of r" using some by (auto simp: addr_of_def fun_eq_iff r' r0)
  have cl: "cr_clusters r' = cr_clusters r" by (simp add: r' r0)
  have cnt: "live_leases r k = live_leases r' k + (if k = key then 1 else 0)" for k
    using live_leases_stop[OF i live r0, of k] by (simp add: r' key)
  have ok: "entry_ok r' k e" if "map_of (cr_entries r') k = Some e" for k e
  proof (cases "k = key")
    case True
    then have "e = entry\<lparr>ce_refs := ce_refs entry - 1\<rparr>" using that by (simp add: r')
    then show ?thesis
      using registry_invD(3)[OF inv some] True more cnt[of key]
      by (simp add: entry_ok_def entry_cluster_def entry_config_def cl)
  next
    case False
    then have "entry_ok r k e" using that registry_invD(3)[OF inv] by (simp add: r' r0)
    then show ?thesis
      using False cnt[of k] by (simp add: entry_ok_def entry_cluster_def entry_config_def cl)
  qed
  have "registry_inv r'"
  proof (rule registry_invI)
    show "gomap (cr_entries r')" using registry_invD(1)[OF inv] by (simp add: r' r0)
    show "addr_of r' (ls_key l) = Some (ls_cluster l)"
      if "l \<in> set (cr_leases r')" "\<not> ls_stopped l" "\<not> cr_closed r'" for l
    proof -
      have "l \<in> set (cr_leases r)"
        using that(1,2) set_update_subset_insert by (fastforce simp: r' r0)
      moreover have "\<not> cr_closed r" using that(3) by (simp add: r' r0)
      ultimately show ?thesis using registry_invD(4)[OF inv _ that(2)] unfolding addr by blast
    qed
    show "cr_closed r' \<Longrightarrow> cr_entries r' = []"
      using registry_invD(2)[OF inv] some by (auto simp: r' r0)
    show "\<exists>k. addr_of r' k = Some n"
      if "n < length (cr_clusters r')" "\<not> cl_closed (cr_clusters r' ! n)" for n
      using registry_invD(5)[OF inv] that by (simp add: addr cl)
  qed (rule ok)
  with registry_series_cong[OF addr cl] show ?thesis by blast
qed

text \<open>Giving up the last reference closes the cluster.\<close>

lemma release_last_inv:
  assumes inv: "registry_inv r" and i: "i < length (cr_leases r)" and live: "\<not> ls_stopped (cr_leases r ! i)"
    and key: "key = ls_key (cr_leases r ! i)" and some: "map_of (cr_entries r) key = Some entry"
    and r0: "r0 = r\<lparr>cr_leases := (cr_leases r)[i := (cr_leases r ! i)\<lparr>ls_stopped := True\<rparr>]\<rparr>"
    and last: "\<not> 0 < ce_refs entry - 1"
    and r': "r' = r0\<lparr>cr_entries := mdel key (cr_entries r0),
       cr_clusters := (cr_clusters r0)[ce_cluster entry := cluster_Close (entry_cluster r0 entry)]\<rparr>"
  shows "registry_inv r' \<and> registry_series r = cluster_series (entry_cluster r entry) \<union> registry_series r'"
proof -
  let ?a = "ce_cluster entry"
  have addr: "addr_of r' = (addr_of r)(key := None)" by (auto simp: addr_of_def fun_eq_iff r' r0)
  have some': "addr_of r key = Some ?a" using some by (simp add: addr_of_Some)
  have cl: "cr_clusters r' = (cr_clusters r)[?a := cluster_Close (cr_clusters r ! ?a)]"
    by (simp add: r' r0 entry_cluster_def)
  have cnt: "live_leases r k = live_leases r' k + (if k = key then 1 else 0)" for k
    using live_leases_stop[OF i live r0, of k] by (simp add: r' key)
  then have none: "live_leases r' key = 0"
    using registry_invD(3)[OF inv some] last cnt[of key] by (simp add: entry_ok_def)
  have apart: "b \<noteq> ?a" if "addr_of r k = Some b" "k \<noteq> key" for k b
    using addr_of_inj[OF inv that(1)] some' that(2) by auto
  have ok: "entry_ok r' k e" if "map_of (cr_entries r') k = Some e" for k e
  proof -
    have ne: "k \<noteq> key" and old: "map_of (cr_entries r) k = Some e"
      using that by (auto simp: r' r0 split: if_splits)
    have "ce_cluster e \<noteq> ?a" using apart[of k "ce_cluster e"] ne old by (simp add: addr_of_Some)
    then show ?thesis
      using registry_invD(3)[OF inv old] ne cnt[of k]
      by (simp add: entry_ok_def entry_cluster_def entry_config_def cl)
  qed
  have "registry_inv r'"
  proof (rule registry_invI)
    show "gomap (cr_entries r')" using registry_invD(1)[OF inv] by (simp add: r' r0)
    show "addr_of r' (ls_key l) = Some (ls_cluster l)"
      if "l \<in> set (cr_leases r')" "\<not> ls_stopped l" "\<not> cr_closed r'" for l
    proof -
      have l: "l \<in> set (cr_leases r)"
        using that(1,2) set_update_subset_insert by (fastforce simp: r' r0)
      have "ls_key l \<noteq> key" using none that(1,2) by (auto simp: live_leases_def filter_empty_conv)
      moreover have "\<not> cr_closed r" using that(3) by (simp add: r' r0)
      ultimately show ?thesis using registry_invD(4)[OF inv l that(2)] unfolding addr by simp
    qed
    show "cr_closed r' \<Longrightarrow> cr_entries r' = []"
      using registry_invD(2)[OF inv] some by (auto simp: r' r0)
    show "\<exists>k. addr_of r' k = Some n"
      if n: "n < length (cr_clusters r')" "\<not> cl_closed (cr_clusters r' ! n)" for n
    proof -
      have "n \<noteq> ?a" using n by (auto simp: cl)
      then obtain k where k: "addr_of r k = Some n"
        using registry_invD(5)[OF inv, of n] n unfolding cl by auto
      then have "k \<noteq> key" using some' \<open>n \<noteq> ?a\<close> by auto
      then show ?thesis using k by (intro exI[of _ k]) (simp add: addr)
    qed
  qed (rule ok)
  moreover have "registry_series r' = (\<Union>b\<in>ran (addr_of r) - {?a}. cluster_series (cr_clusters r ! b))"
    unfolding registry_series_def addr addr_of_update_inj[OF inv some'] cl
    by (intro SUP_cong refl) simp
  moreover have "?a \<in> ran (addr_of r)" using some' by (auto simp: ran_def)
  ultimately show ?thesis
    by (auto simp: registry_series_def entry_cluster_def)
qed

section \<open>Events and series\<close>

lemma foldl_set_status:
  "foldl apply_event S (map (\<lambda>(t, _). SetUpstreamStatus n t True) xs) = S \<union> {n} \<times> fst ` set xs"
  by (induction xs arbitrary: S) (auto simp del: image_fst_dom)

lemma foldl_delete_status:
  "foldl apply_event S (map (DeleteUpstreamStatus n) ts) = S - {n} \<times> set ts"
  by (induction ts arbitrary: S) auto

lemma foldl_delete_clusters:
  "foldl apply_event S (map DeleteCluster ns) = {(n, t). (n, t) \<in> S \<and> n \<notin> set ns}"
  by (induction ns arbitrary: S) auto

lemma registry_series_entries:
  assumes "gomap (cr_entries r)"
  shows "x \<in> registry_series r \<longleftrightarrow> (\<exists>(k, e)\<in>set (cr_entries r). x \<in> cluster_series (entry_cluster r e))"
proof -
  have "a \<in> ran (addr_of r) \<longleftrightarrow> (\<exists>(k, e)\<in>set (cr_entries r). a = ce_cluster e)" for a
    using assms by (auto simp: ran_def addr_of_Some gomap_map_of_iff)
  then show ?thesis by (fastforce simp: registry_series_def entry_cluster_def)
qed

lemma cluster_series_Close [simp]: "cluster_series (cluster_Close c) = cluster_series c"
  by (simp add: cluster_series_def)

lemma config_update [simp]: "cl_config ((cs[a := cluster_Close (cs ! a)]) ! j) = cl_config (cs ! j)"
  by (cases "j = a"; cases "a < length cs") (simp_all add: list_update_beyond)

lemma remaining_mem:
  "(\<exists>(k, e)\<in>set xs. (n, t) \<in> cluster_series (entry_cluster r e)) \<longleftrightarrow>
     t \<in> set (concat (map (\<lambda>(_, e). mkeys (cc_Targets (entry_config r e)))
              (filter (\<lambda>(_, e). cc_Name (entry_config r e) = n) xs)))"
  by (induction xs) (auto simp: cluster_series_def entry_config_def)

text \<open>What a step promises: the invariant, and series that follow the events.\<close>

definition registry_ok :: "'w ClusterRegistry \<Rightarrow> cluster_event list \<Rightarrow> 'w ClusterRegistry \<Rightarrow> bool" where
  "registry_ok r evs r' \<longleftrightarrow> registry_inv r' \<and> cr_status r' = cr_status r
     \<and> (cr_closed r \<longrightarrow> cr_closed r')
     \<and> (cr_status r \<longrightarrow> registry_series r' = foldl apply_event (registry_series r) evs)"

lemma registry_ok_refl: "registry_inv r \<Longrightarrow> registry_ok r [] r"
  by (simp add: registry_ok_def)

lemma sortedClusterTargets_keys: "fst ` set (sortedClusterTargets m) = dom (map_of m)"
  by (simp add: sortedClusterTargets_def image_image del: image_fst_dom flip: image_fst_dom)

lemma registry_Acquire_ok:
  assumes inv: "registry_inv r" and cfg: "config_ok config"
    and run: "registry_Acquire ops marshal r config = (res, r', evs)"
  shows "registry_ok r evs r'"
proof (cases "cluster_Key marshal config")
  case (Inl e)
  then show ?thesis using run registry_ok_refl[OF inv] by (simp add: registry_Acquire_def)
next
  case (Inr key)
  show ?thesis
  proof (cases "cr_closed r")
    case True
    then show ?thesis using Inr run registry_ok_refl[OF inv] by (simp add: registry_Acquire_def)
  next
    case False
    show ?thesis
    proof (cases "map_of (cr_entries r) key")
      case (Some entry)
      then have r': "r' = add_lease (r\<lparr>cr_entries := mput key (entry\<lparr>ce_refs := ce_refs entry + 1\<rparr>)
          (cr_entries r)\<rparr>) key (ce_cluster entry)" "evs = []"
        using Inr False run by (auto simp: registry_Acquire_def)
      show ?thesis
        using acquire_existing_inv[OF inv Some False r'(1)] False by (simp add: registry_ok_def r')
    next
      case None
      show ?thesis
      proof (cases "newCluster ops marshal config")
        case (Inl e)
        then show ?thesis using Inr False None run registry_ok_refl[OF inv]
          by (simp add: registry_Acquire_def)
      next
        case (Inr c)
        note new = newCluster_ok[OF this]
        have r': "r' = add_lease (r\<lparr>cr_clusters := cr_clusters r @ [c],
            cr_entries := mput key \<lparr>ce_cluster = length (cr_clusters r), ce_refs = 1\<rparr> (cr_entries r)\<rparr>)
            key (length (cr_clusters r))"
          and evs: "evs = (if cr_status r then map (\<lambda>(target, _). SetUpstreamStatus (cc_Name config) target True)
             (sortedClusterTargets (cc_Targets config)) else [])"
          using \<open>cluster_Key marshal config = Inr key\<close> False None Inr run
          by (auto simp: registry_Acquire_def Let_def)
        have c: "cl_key c = key" "\<not> cl_closed c" "gomap (cc_Targets (cl_config c))"
          using new cfg \<open>cluster_Key marshal config = Inr key\<close> by (auto simp: config_ok_def)
        have "cluster_series c = {cc_Name config} \<times> fst ` set (sortedClusterTargets (cc_Targets config))"
          using new by (simp add: cluster_series_def sortedClusterTargets_keys del: image_fst_dom)
        with acquire_new_inv[OF inv None False c r'] show ?thesis
          by (simp add: registry_ok_def evs foldl_set_status del: image_fst_dom) (simp add: r' False)
      qed
    qed
  qed
qed

text \<open>The events of the last release take away exactly the series no other cluster calls for.\<close>

lemma release_events:
  assumes inv: "registry_inv r" and i: "i < length (cr_leases r)" and live: "\<not> ls_stopped (cr_leases r ! i)"
    and key: "key = ls_key (cr_leases r ! i)" and some: "map_of (cr_entries r) key = Some entry"
    and r0: "r0 = r\<lparr>cr_leases := (cr_leases r)[i := (cr_leases r ! i)\<lparr>ls_stopped := True\<rparr>]\<rparr>"
    and last: "\<not> 0 < ce_refs entry - 1"
    and r': "r' = r0\<lparr>cr_entries := mdel key (cr_entries r0),
       cr_clusters := (cr_clusters r0)[ce_cluster entry := cluster_Close (entry_cluster r0 entry)]\<rparr>"
    and rel: "registry_release r0 key = (r', evs)" and status: "cr_status r"
  shows "foldl apply_event (registry_series r) evs = registry_series r'"
proof -
  let ?name = "cc_Name (entry_config r entry)" and ?rest = "mdel key (cr_entries r)"
  let ?same = "filter (\<lambda>(_, e). cc_Name (entry_config r e) = ?name) ?rest"
  let ?remaining = "concat (map (\<lambda>(_, e). mkeys (cc_Targets (entry_config r e))) ?same)"
  let ?T = "dom (map_of (cc_Targets (entry_config r entry)))"
  have series: "registry_series r = {?name} \<times> ?T \<union> registry_series r'"
    using release_last_inv[OF inv i live key some r0 last r']
    by (simp add: cluster_series_def entry_config_def)
  have sel: "cr_entries r0 = cr_entries r" "cr_clusters r0 = cr_clusters r" "cr_status r0 = cr_status r"
    by (simp_all add: r0)
  have cfg: "entry_config r0 = entry_config r" "cluster_series (entry_cluster r' e) = cluster_series (entry_cluster r e)"
    for e by (simp_all add: fun_eq_iff entry_config_def entry_cluster_def r0 r' cluster_series_def)
  have "gomap (cr_entries r')" using registry_invD(1)[OF inv] by (simp add: r' r0)
  then have mem: "x \<in> registry_series r' \<longleftrightarrow> (\<exists>(k, e)\<in>set ?rest. x \<in> cluster_series (entry_cluster r e))" for x
    using registry_series_entries[of r' x] by (simp add: cfg(2)) (simp add: r' r0)
  have rem: "(?name, t) \<in> registry_series r' \<longleftrightarrow> t \<in> set ?remaining" for t
    unfolding mem by (rule remaining_mem)
  show ?thesis
  proof (cases "?same = []")
    case True
    then have "evs = [DeleteCluster ?name]"
      using rel some last by (simp add: registry_release_def Let_def cfg(1) sel)
    moreover have "(?name, t) \<notin> registry_series r'" for t using rem True by simp
    ultimately show ?thesis by (auto simp: series)
  next
    case False
    then have "evs = map (DeleteUpstreamStatus ?name)
        (filter (\<lambda>t. t \<notin> set ?remaining) (mkeys (cc_Targets (entry_config r entry))))"
      using rel some last status by (simp add: registry_release_def Let_def cfg(1) sel)
    then show ?thesis
      using rem by (simp add: foldl_delete_status series del: set_concat) blast
  qed
qed

lemma lease_Stop_ok:
  assumes inv: "registry_inv r" and i: "i < length (cr_leases r)" and run: "lease_Stop r i = (r', evs)"
  shows "registry_ok r evs r'"
proof (cases "ls_stopped (cr_leases r ! i)")
  case True
  then show ?thesis using run registry_ok_refl[OF inv] by (simp add: lease_Stop_def)
next
  case False
  let ?key = "ls_key (cr_leases r ! i)"
  define r0 where "r0 = r\<lparr>cr_leases := (cr_leases r)[i := (cr_leases r ! i)\<lparr>ls_stopped := True\<rparr>]\<rparr>"
  have rel: "registry_release r0 ?key = (r', evs)"
    using False run by (simp add: lease_Stop_def r0_def Let_def)
  have sel: "cr_entries r0 = cr_entries r" "cr_clusters r0 = cr_clusters r" "cr_status r0 = cr_status r"
    "cr_closed r0 = cr_closed r" by (simp_all add: r0_def)
  have cfg: "entry_config r0 = entry_config r" "entry_cluster r0 = entry_cluster r"
    by (simp_all add: fun_eq_iff entry_config_def entry_cluster_def sel)
  show ?thesis
  proof (cases "map_of (cr_entries r) ?key")
    case None
    then have closed: "cr_closed r"
      using registry_invD(4)[OF inv nth_mem[OF i] False] by (auto simp: addr_of_def)
    have "r' = r0" "evs = []" using rel None by (auto simp: registry_release_def sel)
    moreover have "cr_entries r = []" "addr_of r0 = addr_of r"
      using registry_invD(2)[OF inv closed] by (simp_all add: addr_of_def fun_eq_iff sel)
    ultimately show ?thesis
      using inv closed by (simp add: registry_ok_def registry_inv_def registry_series_def sel)
  next
    case (Some entry)
    show ?thesis
    proof (cases "0 < ce_refs entry - 1")
      case True
      then have "r' = r0\<lparr>cr_entries := mput ?key (entry\<lparr>ce_refs := ce_refs entry - 1\<rparr>) (cr_entries r0)\<rparr>"
        and "evs = []" using rel Some by (auto simp: registry_release_def sel)
      with release_some_inv[OF inv i False refl Some r0_def True] show ?thesis
        by (simp add: registry_ok_def sel)
    next
      case last: False
      let ?r1 = "r0\<lparr>cr_entries := mdel ?key (cr_entries r0),
         cr_clusters := (cr_clusters r0)[ce_cluster entry := cluster_Close (entry_cluster r0 entry)]\<rparr>"
      have r': "r' = ?r1" using rel Some last by (simp add: registry_release_def Let_def sel split: if_splits)
      note inv' = release_last_inv[OF inv i False refl Some r0_def last r']
      have "foldl apply_event (registry_series r) evs = registry_series r'" if "cr_status r"
        using release_events[OF inv i False refl Some r0_def last r' rel that] inv' by blast
      with inv' show ?thesis by (simp add: registry_ok_def) (simp add: r' sel)
    qed
  qed
qed

lemma close_all:
  "length (foldl (\<lambda>cs a. cs[a := cluster_Close (cs ! a)]) cs as) = length cs"
  "i < length cs \<Longrightarrow> cl_closed (foldl (\<lambda>cs a. cs[a := cluster_Close (cs ! a)]) cs as ! i)
     \<longleftrightarrow> cl_closed (cs ! i) \<or> i \<in> set as"
proof (induction as arbitrary: cs)
  case (Cons a as)
  { case 1 then show ?case using Cons.IH(1) by simp }
  { case 2 then show ?case
      using Cons.IH(2)[of "cs[a := cluster_Close (cs ! a)]"]
      by (cases "a < length cs") (auto simp: nth_list_update list_update_beyond) }
qed simp_all

lemma registry_Close_ok:
  assumes inv: "registry_inv r" and run: "registry_Close r = (r', evs)"
  shows "registry_ok r evs r' \<and> cr_closed r'"
proof (cases "cr_closed r")
  case True
  then show ?thesis using run registry_ok_refl[OF inv] by (simp add: registry_Close_def)
next
  case False
  let ?addrs = "map (\<lambda>(_, e). ce_cluster e) (cr_entries r)"
  let ?cs = "foldl (\<lambda>cs a. cs[a := cluster_Close (cs ! a)]) (cr_clusters r) ?addrs"
  have r': "r' = r\<lparr>cr_closed := True, cr_entries := [], cr_clusters := ?cs\<rparr>"
    and evs: "evs = map DeleteCluster (remdups (map (\<lambda>(_, e). cc_Name (entry_config r e)) (cr_entries r)))"
    using False run by (auto simp: registry_Close_def Let_def)
  have "cl_closed (?cs ! i)" if i: "i < length (cr_clusters r)" for i
  proof (cases "cl_closed (cr_clusters r ! i)")
    case True
    then show ?thesis using close_all(2)[OF i] by simp
  next
    case False
    then obtain k e where "(k, e) \<in> set (cr_entries r)" "ce_cluster e = i"
      using registry_invD(5)[OF inv i] by (auto simp: addr_of_Some dest: map_of_SomeD)
    then have "i \<in> set ?addrs" by force
    then show ?thesis using close_all(2)[OF i] by blast
  qed
  then have "registry_inv r'"
    by (simp add: registry_inv_def r' close_all(1) addr_of_def)
  moreover have "foldl apply_event (registry_series r) evs = {}"
  proof -
    have "fst x \<in> (\<lambda>(_, e). cc_Name (entry_config r e)) ` set (cr_entries r)" if "x \<in> registry_series r" for x
      using that by (force simp: registry_series_entries[OF registry_invD(1)[OF inv]] cluster_series_def entry_config_def)
    then show ?thesis by (force simp: evs foldl_delete_clusters)
  qed
  moreover have "registry_series r' = {}"
    by (simp add: r' registry_series_def addr_of_def ran_def)
  ultimately show ?thesis by (simp add: registry_ok_def) (simp add: r')
qed

lemma use_ok:
  assumes inv: "registry_inv r" and cs: "list_all2 same_cluster (cr_clusters r) cs"
  shows "registry_ok r [] (r\<lparr>cr_clusters := cs\<rparr>)"
proof -
  let ?r = "r\<lparr>cr_clusters := cs\<rparr>"
  have len: "length cs = length (cr_clusters r)" using cs by (simp add: list_all2_lengthD)
  have same: "same_cluster (cr_clusters r ! i) (cs ! i)" if "i < length (cr_clusters r)" for i
    using cs that by (rule list_all2_nthD)
  have addr: "addr_of ?r = addr_of r" by (simp add: addr_of_def fun_eq_iff)
  have "registry_inv ?r"
  proof (rule registry_invI)
    show "entry_ok ?r key e" if "map_of (cr_entries ?r) key = Some e" for key e
      using registry_invD(3)[OF inv, of key e] same[of "ce_cluster e"] that
      by (simp add: entry_ok_def entry_cluster_def entry_config_def len same_cluster_def)
    show "\<exists>key. addr_of ?r key = Some i" if "i < length (cr_clusters ?r)" "\<not> cl_closed (cr_clusters ?r ! i)" for i
      using registry_invD(5)[OF inv, of i] same[of i] that by (simp add: addr len same_cluster_def)
  qed (use registry_invD[OF inv] in \<open>simp_all add: addr\<close>)
  moreover have "registry_series ?r = registry_series r"
    unfolding registry_series_def addr
  proof (rule SUP_cong[OF refl])
    fix a assume "a \<in> ran (addr_of r)"
    then have "a < length (cr_clusters r)" using addr_ok(1)[OF inv] by (auto simp: ran_def)
    then show "cluster_series (cr_clusters ?r ! a) = cluster_series (cr_clusters r ! a)"
      using same[of a] by (simp add: cluster_series_def same_cluster_def)
  qed
  ultimately show ?thesis by (simp add: registry_ok_def)
qed

lemma registry_step_ok:
  assumes "registry_step ops marshal r evs r'" and "registry_inv r"
  shows "registry_ok r evs r'"
  using assms registry_Acquire_ok lease_Stop_ok registry_Close_ok use_ok
  by (cases rule: registry_step.cases) blast+

lemma registry_reachable_ok:
  assumes "registry_reachable ops marshal status evs r"
  shows "registry_inv r \<and> cr_status r = status \<and> (status \<longrightarrow> registry_series r = status_series evs)"
  using assms
proof (induction rule: registry_reachable.induct)
  case registry_new
  then show ?case
    by (simp add: registry_inv_def NewClusterRegistry_def registry_series_def addr_of_def ran_def status_series_def)
next
  case (registry_more evs r evs' r')
  then show ?case
    using registry_step_ok[OF registry_more.hyps(2)] by (auto simp: registry_ok_def status_series_def)
qed

section \<open>A concrete registry\<close>

definition demo_registry :: "smooth ClusterRegistry" where
  "demo_registry = fst (snd (registry_Acquire smooth_ops demo_marshal (NewClusterRegistry True)
     (demo_config ''up'' [(''a'', 1)])))"

definition demo_events :: "cluster_event list" where
  "demo_events = snd (snd (registry_Acquire smooth_ops demo_marshal (NewClusterRegistry True :: smooth ClusterRegistry)
     (demo_config ''up'' [(''a'', 1)])))"

lemma demo_registry_reachable:
  "registry_reachable smooth_ops demo_marshal True demo_events demo_registry"
proof -
  let ?c = "demo_config ''up'' [(''a'', 1)]"
  have "registry_step smooth_ops demo_marshal (NewClusterRegistry True) demo_events demo_registry"
    by (rule step_Acquire[of ?c _ _ _ "fst (registry_Acquire smooth_ops demo_marshal (NewClusterRegistry True) ?c)"])
      (simp_all add: config_ok_def demo_config_def gomap_def demo_registry_def demo_events_def)
  from registry_more[OF registry_new this] show ?thesis by simp
qed

lemma demo_registry_sel:
  "cr_closed demo_registry = False" "length (cr_clusters demo_registry) = 1"
  "map ls_stopped (cr_leases demo_registry) = [False]" "demo_events = [SetUpstreamStatus ''up'' ''a'' True]"
  by (simp_all add: demo_registry_def demo_events_def registry_Acquire_def NewClusterRegistry_def
      newCluster_def newClusterWithTransport_def cluster_Key_def demo_marshal_def demo_config_def
      newUpstreamLoadBalanceWithPriorities_def newPriorityGroups_def group_add_def checks_has_def
      group_weights_def sortedClusterTargets_def mget0_def Let_def)

section \<open>Properties\<close>

text \<open>C17. Reference counting. In every history of \<open>Acquire\<close>, \<open>Stop\<close>, \<open>Close\<close> and use of the
  clusters: while the registry is open, the cluster of every lease that has not been stopped is
  open and has the lease's key; a cluster that is open has such a lease, and the count in its
  entry is the number of them; and a closed registry holds no cluster open.\<close>

theorem registry_leases:
  assumes "registry_reachable ops marshal status evs r"
  shows "(\<forall>l\<in>set (cr_leases r). \<not> ls_stopped l \<longrightarrow> \<not> cr_closed r \<longrightarrow>
            ls_cluster l < length (cr_clusters r) \<and> \<not> cl_closed (cr_clusters r ! ls_cluster l)
          \<and> cl_key (cr_clusters r ! ls_cluster l) = ls_key l)
    \<and> (\<forall>i<length (cr_clusters r). \<not> cl_closed (cr_clusters r ! i) \<longrightarrow> \<not> cr_closed r
          \<and> 0 < live_leases r (cl_key (cr_clusters r ! i)))
    \<and> (\<forall>key e. map_of (cr_entries r) key = Some e \<longrightarrow> ce_refs e = int (live_leases r key))"
proof -
  have inv: "registry_inv r" using registry_reachable_ok[OF assms] by blast
  have "ls_cluster l < length (cr_clusters r) \<and> \<not> cl_closed (cr_clusters r ! ls_cluster l)
      \<and> cl_key (cr_clusters r ! ls_cluster l) = ls_key l"
    if "l \<in> set (cr_leases r)" "\<not> ls_stopped l" "\<not> cr_closed r" for l
    using addr_ok[OF inv registry_invD(4)[OF inv that]] by blast
  moreover have "\<not> cr_closed r \<and> 0 < live_leases r (cl_key (cr_clusters r ! i))"
    if i: "i < length (cr_clusters r)" "\<not> cl_closed (cr_clusters r ! i)" for i
  proof -
    obtain key e where e: "map_of (cr_entries r) key = Some e" "ce_cluster e = i"
      using registry_invD(5)[OF inv i] by (auto simp: addr_of_Some)
    then have "entry_ok r key e" using registry_invD(3)[OF inv] by blast
    then show ?thesis
      using e registry_invD(2)[OF inv] by (auto simp: entry_ok_def entry_cluster_def)
  qed
  moreover have "ce_refs e = int (live_leases r key)" if "map_of (cr_entries r) key = Some e" for key e
    using registry_invD(3)[OF inv that] by (simp add: entry_ok_def)
  ultimately show ?thesis by blast
qed

lemma registry_leases_witness:
  "registry_reachable smooth_ops demo_marshal True demo_events demo_registry
   \<and> length (cr_leases demo_registry) = 1
   \<and> \<not> cl_closed (cr_clusters demo_registry ! ls_cluster (hd (cr_leases demo_registry)))"
proof -
  obtain l where l: "cr_leases demo_registry = [l]" "\<not> ls_stopped l"
    using demo_registry_sel(3) by auto
  have "\<forall>l\<in>set (cr_leases demo_registry). \<not> ls_stopped l \<longrightarrow> \<not> cr_closed demo_registry \<longrightarrow>
      \<not> cl_closed (cr_clusters demo_registry ! ls_cluster l)"
    using registry_leases[OF demo_registry_reachable] by blast
  then show ?thesis using l demo_registry_sel(1) demo_registry_reachable by simp
qed

text \<open>C18. Published series. When the observer exports upstream status, then after every history the
  series it shows are exactly the targets of the clusters the registry holds, under their names:
  neither releasing one of several clusters of a name nor replacing one deletes a series another
  still needs or leaves one behind.\<close>

theorem registry_published_series:
  assumes "registry_reachable ops marshal True evs r"
  shows "status_series evs = {(name, t). \<exists>key e. map_of (cr_entries r) key = Some e
     \<and> cc_Name (entry_config r e) = name \<and> t \<in> dom (map_of (cc_Targets (entry_config r e)))}"
proof -
  have "status_series evs = registry_series r" using registry_reachable_ok[OF assms] by blast
  then show ?thesis
    by (auto simp: registry_series_def ran_def addr_of_Some cluster_series_def entry_config_def entry_cluster_def)
qed

lemma registry_published_series_witness:
  "registry_reachable smooth_ops demo_marshal True [SetUpstreamStatus ''up'' ''a'' True] demo_registry
   \<and> (\<exists>key e. map_of (cr_entries demo_registry) key = Some e \<and> cc_Name (entry_config demo_registry e) = ''up''
        \<and> ''a'' \<in> dom (map_of (cc_Targets (entry_config demo_registry e))))"
proof -
  have re: "registry_reachable smooth_ops demo_marshal True [SetUpstreamStatus ''up'' ''a'' True] demo_registry"
    using demo_registry_reachable by (simp add: demo_registry_sel)
  have "(''up'', ''a'') \<in> status_series [SetUpstreamStatus ''up'' ''a'' True]"
    by (simp add: status_series_def)
  then show ?thesis using re registry_published_series[OF re] by blast
qed

text \<open>C19. Interning. In an open registry, \<open>Acquire\<close> of a configuration whose key is held returns a
  lease of the cluster that holds it and creates none; stopping a lease again changes nothing; and
  after \<open>Close\<close>, which a second \<open>Close\<close> does not repeat, \<open>Acquire\<close> fails and every cluster is
  closed.\<close>

theorem registry_interning:
  assumes "registry_reachable ops marshal status evs r"
    and "cluster_Key marshal config = Inr key"
  shows "(\<not> cr_closed r \<and> map_of (cr_entries r) key = Some e \<longrightarrow>
           (\<exists>r' i. registry_Acquire ops marshal r config = (Inr i, r', [])
              \<and> cr_clusters r' = cr_clusters r \<and> ls_cluster (cr_leases r' ! i) = ce_cluster e
              \<and> \<not> ls_stopped (cr_leases r' ! i)))
    \<and> (i < length (cr_leases r) \<longrightarrow> lease_Stop (fst (lease_Stop r i)) i = (fst (lease_Stop r i), []))
    \<and> (let r' = fst (registry_Close r)
       in registry_Close r' = (r', []) \<and> registry_Acquire ops marshal r' config = (Inl RegistryClosed, r', [])
          \<and> (\<forall>j<length (cr_clusters r'). cl_closed (cr_clusters r' ! j)))"
proof -
  have inv: "registry_inv r" using registry_reachable_ok[OF assms(1)] by blast
  obtain r' evs' where close: "registry_Close r = (r', evs')" by fastforce
  have "registry_inv r'" and closed: "cr_closed r'"
    using registry_Close_ok[OF inv close] by (auto simp: registry_ok_def)
  then have "cl_closed (cr_clusters r' ! j)" if "j < length (cr_clusters r')" for j
    using registry_invD(2,5)[of r'] that by (force simp: addr_of_def)
  moreover have "ls_stopped (cr_leases (fst (lease_Stop r i)) ! i)" if "i < length (cr_leases r)"
    using that by (auto simp: lease_Stop_def registry_release_def Let_def split: option.splits)
  ultimately show ?thesis
    using assms(2) close closed
    by (simp add: registry_Acquire_def nth_append) (simp add: registry_Close_def lease_Stop_def)
qed

lemma registry_interning_witness:
  "lease_Stop (fst (lease_Stop demo_registry 0)) 0 = (fst (lease_Stop demo_registry 0), [])
   \<and> registry_Close (fst (registry_Close demo_registry)) = (fst (registry_Close demo_registry), [])"
proof -
  have key: "cluster_Key demo_marshal (demo_config ''up'' []) = Inr (Sum256 (map (\<lambda>c. of_nat (of_char c)) ''up''))"
    by (simp only: cluster_Key_def demo_marshal_def demo_config_def cluster_identity_def
        clusterKeyIdentity.simps ClusterConfig.simps sum.case)
  have "0 < length (cr_leases demo_registry)" using demo_registry_sel(3) by auto
  with registry_interning[OF demo_registry_reachable key, of _ 0] show ?thesis unfolding Let_def by blast
qed

end
