(* ===== verification/Go_Strings.thy ===== *)
theory Go_Strings
  imports Go_Prelude
begin

text \<open>
  The string functions of the Go library the components use: decimal integers (\<open>strconv.Itoa\<close>,
  \<open>strconv.Atoi\<close>), \<open>strings.Join\<close>, \<open>strings.Split\<close> on a separator byte, and the \<open>Cut\<close> family.
\<close>

section \<open>Decimal integers\<close>

definition digit_char :: "nat \<Rightarrow> char" where
  "digit_char d = char_of (48 + d)"

definition digit_of :: "char \<Rightarrow> nat option" where
  "digit_of c = (let n = of_char c :: nat in if 48 \<le> n \<and> n \<le> 57 then Some (n - 48) else None)"

fun itoa_nat :: "nat \<Rightarrow> string" where
  "itoa_nat n = (if n < 10 then [digit_char n] else itoa_nat (n div 10) @ [digit_char (n mod 10)])"

declare itoa_nat.simps [simp del]

definition Itoa :: "int \<Rightarrow> string" where
  "Itoa i = (if i < 0 then CHR ''-'' # itoa_nat (nat (- i)) else itoa_nat (nat i))"

text \<open>The value of a run of digits, \<open>None\<close> at another character.\<close>

fun digits_value :: "nat \<Rightarrow> string \<Rightarrow> nat option" where
  "digits_value acc [] = Some acc"
| "digits_value acc (c # cs) =
     (case digit_of c of None \<Rightarrow> None | Some d \<Rightarrow> digits_value (10 * acc + d) cs)"

definition parse_uint :: "string \<Rightarrow> nat option" where
  "parse_uint s = (if s = [] then None else digits_value 0 s)"

definition Atoi :: "string \<Rightarrow> int option" where
  "Atoi s =
     (let (neg, body) = (case s of c # cs \<Rightarrow> if c = CHR ''-'' then (True, cs)
            else if c = CHR ''+'' then (False, cs) else (False, s) | [] \<Rightarrow> (False, []))
      in case parse_uint body of None \<Rightarrow> None
         | Some n \<Rightarrow> let i = (if neg then - int n else int n)
                    in if - (2 ^ 63) \<le> i \<and> i \<le> max_int64 then Some i else None)"

lemma digit_of_char [simp]: "d < 10 \<Longrightarrow> digit_of (digit_char d) = Some d"
  by (simp add: digit_of_def digit_char_def of_char_of)

lemma digits_value_append:
  "digits_value acc (xs @ ys) = Option.bind (digits_value acc xs) (\<lambda>a. digits_value a ys)"
  by (induction xs arbitrary: acc) (auto split: option.splits)

lemma itoa_nat_not_Nil [simp]: "itoa_nat n \<noteq> []"
  by (subst itoa_nat.simps) simp

lemma digits_value_itoa [simp]: "digits_value 0 (itoa_nat n) = Some n"
proof (induction n rule: itoa_nat.induct)
  case (1 n)
  then show ?case
    by (subst itoa_nat.simps) (auto simp: digits_value_append)
qed

lemma parse_uint_itoa [simp]: "parse_uint (itoa_nat n) = Some n"
  by (simp add: parse_uint_def)

lemma itoa_nat_digits: "c \<in> set (itoa_nat n) \<Longrightarrow> digit_of c \<noteq> None"
proof (induction n rule: itoa_nat.induct)
  case (1 n)
  then show ?case
    by (subst (asm) (2) itoa_nat.simps) (auto split: if_splits)
qed

lemma itoa_nat_hd: "\<exists>d cs. itoa_nat n = digit_char d # cs \<and> d < 10"
proof (induction n rule: itoa_nat.induct)
  case (1 n)
  show ?case
  proof (cases "n < 10")
    case True
    then show ?thesis by (subst itoa_nat.simps) auto
  next
    case False
    then show ?thesis using 1 by (subst itoa_nat.simps) fastforce
  qed
qed

lemma digit_char_sign: "d < 10 \<Longrightarrow> digit_char d \<noteq> CHR ''-'' \<and> digit_char d \<noteq> CHR ''+'' \<and> digit_char d \<noteq> CHR '',''"
  using digit_of_char[of d] by (auto simp: digit_of_def)

text \<open>Printing and parsing an \<open>int\<close> is the identity.\<close>

lemma Atoi_Itoa:
  assumes "- (2 ^ 63) \<le> i" and "i \<le> max_int64"
  shows "Atoi (Itoa i) = Some i"
proof -
  obtain d cs where hd: "itoa_nat (nat i) = digit_char d # cs" "d < 10"
    using itoa_nat_hd by blast
  then have body: "parse_uint (digit_char d # cs) = Some (nat i)"
    using parse_uint_itoa[of "nat i"] by simp
  show ?thesis
    using assms hd body digit_char_sign[OF hd(2)]
    by (auto simp: Atoi_def Itoa_def Let_def)
qed

section \<open>Joining and splitting\<close>

fun Join :: "string list \<Rightarrow> string \<Rightarrow> string" where
  "Join [] sep = []"
| "Join [x] sep = x"
| "Join (x # xs) sep = x @ sep @ Join xs sep"

text \<open>\<open>strings.Cut\<close> at a byte: the parts around its first occurrence.\<close>

fun Cut :: "string \<Rightarrow> char \<Rightarrow> (string \<times> string) option" where
  "Cut [] sep = None"
| "Cut (c # cs) sep =
     (if c = sep then Some ([], cs)
      else map_option (\<lambda>(before, after). (c # before, after)) (Cut cs sep))"

text \<open>\<open>strings.Split\<close> on a byte; the parts are never fewer than one.\<close>

fun Split :: "string \<Rightarrow> char \<Rightarrow> string list" where
  "Split [] sep = [[]]"
| "Split (c # cs) sep =
     (if c = sep then [] # Split cs sep
      else case Split cs sep of p # ps \<Rightarrow> (c # p) # ps | [] \<Rightarrow> [[c]])"

lemma Split_not_Nil [simp]: "Split s sep \<noteq> []"
  by (cases s) (auto split: list.splits)

lemma Split_no_sep: "sep \<notin> set s \<Longrightarrow> Split s sep = [s]"
  by (induction s) auto

lemma Split_append_sep: "sep \<notin> set x \<Longrightarrow> Split (x @ sep # s) sep = x # Split s sep"
  by (induction x) auto

text \<open>Splitting a join at the separator gives the parts back.\<close>

lemma Split_Join:
  "xs \<noteq> [] \<Longrightarrow> \<forall>x\<in>set xs. sep \<notin> set x \<Longrightarrow> Split (Join xs [sep]) sep = xs"
  by (induction xs "[sep]" rule: Join.induct) (auto simp: Split_no_sep Split_append_sep)

lemma Join_Split: "Join (Split s sep) [sep] = s"
proof (induction s)
  case (Cons c cs)
  then show ?case by (cases "Split cs sep") (auto split: list.splits, (cases "tl (Split cs sep)"; simp)+)
qed simp

lemma Cut_Some: "Cut s sep = Some (a, b) \<Longrightarrow> s = a @ sep # b \<and> sep \<notin> set a"
  by (induction s arbitrary: a b) (auto split: if_splits)

lemma Cut_None: "Cut s sep = None \<longleftrightarrow> sep \<notin> set s"
  by (induction s) auto

section \<open>Prefixes and white space\<close>

definition HasPrefix :: "string \<Rightarrow> string \<Rightarrow> bool" where
  "HasPrefix s pre = (take (length pre) s = pre)"

definition is_space :: "char \<Rightarrow> bool" where
  "is_space c = (c \<in> {CHR '' '', CHR 0x09, CHR 0x0A, CHR 0x0B, CHR 0x0C, CHR 0x0D})"

definition TrimSpace :: "string \<Rightarrow> string" where
  "TrimSpace s = rev (dropWhile is_space (rev (dropWhile is_space s)))"

lemma HasPrefix_iff: "HasPrefix s pre \<longleftrightarrow> (\<exists>rest. s = pre @ rest)"
  unfolding HasPrefix_def by (metis append_eq_conv_conj append_take_drop_id)

end
