(* ===== verification/Retry.thy ===== *)
theory Retry
  imports Health Go_Strings
begin

text \<open>
  Retries of a request, \<open>pkg/proxy/retry.go\<close>, and the health owner a request carries,
  \<open>pkg/proxy/health.go\<close>. What the network and the request's context do is the environment: the
  outcome of the \<open>k\<close>-th call of the base transport, whether the context is cancelled before the
  \<open>k\<close>-th retry, whether the target selector finds a target then, and whether \<open>GetBody\<close> succeeds.
\<close>

section \<open>The health owner of a request\<close>

text \<open>The request context holds no state, or a state with a reporter and the selected target.\<close>

record 'r healthRequestState =
  hr_reporter :: "'r option"
  hr_target :: string

type_synonym 'r health_context = "'r healthRequestState option"

definition WithHealthReporter :: "'r health_context \<Rightarrow> 'r option \<Rightarrow> 'r health_context" where
  "WithHealthReporter ctx reporter =
     (case reporter of
        None \<Rightarrow> ctx
      | Some r \<Rightarrow>
          let state = (case ctx of None \<Rightarrow> \<lparr>hr_reporter = None, hr_target = ''''\<rparr> | Some s \<Rightarrow> s)
          in Some (state\<lparr>hr_reporter := Some r\<rparr>))"

definition SetSelectedTarget :: "'r health_context \<Rightarrow> string \<Rightarrow> 'r health_context" where
  "SetSelectedTarget ctx target = map_option (\<lambda>state. state\<lparr>hr_target := target\<rparr>) ctx"

definition healthStateFromRequest :: "'r health_context \<Rightarrow> ('r \<times> string) option" where
  "healthStateFromRequest ctx =
     (case ctx of
        None \<Rightarrow> None
      | Some state \<Rightarrow>
          (case hr_reporter state of
             None \<Rightarrow> None
           | Some r \<Rightarrow> if hr_target state = '''' then None else Some (r, hr_target state)))"

text \<open>The report a request makes: the call of the reporter, if any.\<close>

definition ReportHTTPOutcome :: "'r health_context \<Rightarrow> int \<Rightarrow> ('r \<times> string \<times> int) option" where
  "ReportHTTPOutcome ctx status = map_option (\<lambda>(r, t). (r, t, status)) (healthStateFromRequest ctx)"

definition ReportTCPFailureOutcome :: "'r health_context \<Rightarrow> bool \<Rightarrow> ('r \<times> string \<times> bool) option" where
  "ReportTCPFailureOutcome ctx timeout = map_option (\<lambda>(r, t). (r, t, timeout)) (healthStateFromRequest ctx)"

section \<open>Which requests may be retried\<close>

datatype req_body = NilBody | NoBody | RealBody

record request =
  rq_Method :: string
  rq_IdempotencyKey :: string
  rq_XIdempotencyKey :: string
  rq_Body :: req_body
  rq_GetBody :: bool

definition replayable :: "request \<Rightarrow> bool" where
  "replayable r \<longleftrightarrow> rq_Body r = NilBody \<or> rq_Body r = NoBody \<or> rq_GetBody r"

definition retryRequestAllowed :: "request \<Rightarrow> bool" where
  "retryRequestAllowed r =
     (if rq_Method r \<in> {''GET'', ''HEAD'', ''OPTIONS'', ''TRACE'', ''PUT'', ''DELETE''}
      then replayable r
      else if rq_Method r \<in> {''POST'', ''PATCH''}
      then (rq_IdempotencyKey r \<noteq> '''' \<or> rq_XIdempotencyKey r \<noteq> '''') \<and> replayable r
      else False)"

text \<open>The retry state attached to the request, \<open>None\<close> when it is left unchanged; \<open>has_next\<close> is
  whether a selector was given.\<close>

definition WithRetries :: "request \<Rightarrow> int \<Rightarrow> bool \<Rightarrow> int option" where
  "WithRetries r count has_next =
     (if count \<le> 0 \<or> \<not> has_next \<or> \<not> retryRequestAllowed r then None else Some count)"

section \<open>Outcomes of an attempt\<close>

text \<open>What the code asks of an error: is it or does it wrap \<open>context.Canceled\<close>, does it wrap
  \<open>context.DeadlineExceeded\<close>, is the first \<open>net.Error\<close> in its chain a timeout, and is it a
  \<open>net.Error\<close> itself.\<close>

record transport_error =
  te_isCanceled :: bool
  te_wrapsCanceled :: bool
  te_wrapsDeadline :: bool
  te_chainTimeout :: bool
  te_netError :: "bool option"

text \<open>The statuses recorded for one failed attempt; \<open>RecordUpstreamStatus\<close> ignores a status that
  is not positive.\<close>

definition RecordUpstreamStatus :: "int list \<Rightarrow> int \<Rightarrow> int list" where
  "RecordUpstreamStatus statuses status = (if status \<le> 0 then statuses else statuses @ [status])"

definition recordUpstreamTransportFailure :: "int list \<Rightarrow> transport_error option \<Rightarrow> int list" where
  "recordUpstreamTransportFailure statuses err =
     (case err of
        None \<Rightarrow> statuses
      | Some e \<Rightarrow>
          if te_wrapsCanceled e then statuses
          else if te_wrapsDeadline e \<or> te_chainTimeout e then RecordUpstreamStatus statuses 504
          else RecordUpstreamStatus statuses 502)"

definition UpstreamStatusChain :: "int list \<Rightarrow> string" where
  "UpstreamStatusChain statuses = (if statuses = [] then '''' else Join (map Itoa statuses) '', '')"

definition reportRetryFailure ::
  "'r health_context \<Rightarrow> transport_error option \<Rightarrow> ('r \<times> string \<times> bool) list" where
  "reportRetryFailure ctx err =
     (case err of
        None \<Rightarrow> []
      | Some e \<Rightarrow>
          if te_isCanceled e then []
          else case (case te_netError e of Some timeout \<Rightarrow> ReportTCPFailureOutcome ctx timeout
                     | None \<Rightarrow> ReportTCPFailureOutcome ctx False) of
                 None \<Rightarrow> [] | Some call \<Rightarrow> [call])"

section \<open>The round trip\<close>

text \<open>The environment. \<open>en_base k\<close> is the outcome of the call number \<open>k\<close> of the base transport,
  \<open>None\<close> for a response; the others are asked before retry \<open>k\<close>, which is call \<open>k + 1\<close>. The
  selector changes the target in the request's health state.\<close>

record retry_env =
  en_base :: "nat \<Rightarrow> transport_error option"
  en_canceled :: "nat \<Rightarrow> bool"
  en_next :: "nat \<Rightarrow> string option"
  en_getBody :: "nat \<Rightarrow> bool"

definition resetRequestBody :: "request \<Rightarrow> bool \<Rightarrow> bool" where
  "resetRequestBody r getBody_ok =
     (case rq_Body r of NilBody \<Rightarrow> True | NoBody \<Rightarrow> True | RealBody \<Rightarrow> rq_GetBody r \<and> getBody_ok)"

record 'r retry_log =
  lg_calls :: nat
  lg_err :: "transport_error option"
  lg_stopped :: bool
  lg_attempts :: nat
  lg_statuses :: "int list"
  lg_reports :: "('r \<times> string \<times> bool) list"
  lg_health :: "'r health_context"

text \<open>The loop of \<open>RoundTrip\<close> with \<open>remaining\<close> retries left, before retry \<open>k\<close>.\<close>

fun retry_loop :: "retry_env \<Rightarrow> request \<Rightarrow> nat \<Rightarrow> nat \<Rightarrow> 'r retry_log \<Rightarrow> 'r retry_log" where
  "retry_loop env r 0 k lg = lg"
| "retry_loop env r (Suc remaining) k lg =
     (if lg_err lg = None then lg
      else if en_canceled env k \<or> \<not> resetRequestBody r (en_getBody env k) then lg\<lparr>lg_stopped := True\<rparr>
      else
        let lg1 = lg\<lparr>lg_reports := lg_reports lg @ reportRetryFailure (lg_health lg) (lg_err lg)\<rparr>
        in case en_next env k of
             None \<Rightarrow> lg1\<lparr>lg_stopped := True\<rparr>
           | Some target \<Rightarrow>
               let err = en_base env (Suc k)
               in retry_loop env r remaining (Suc k)
                    (lg1\<lparr>lg_health := SetSelectedTarget (lg_health lg1) target,
                         lg_attempts := lg_attempts lg1 + 1, lg_calls := lg_calls lg1 + 1, lg_err := err,
                         lg_statuses := recordUpstreamTransportFailure (lg_statuses lg1) err\<rparr>))"

definition first_call :: "retry_env \<Rightarrow> 'r health_context \<Rightarrow> int list \<Rightarrow> 'r retry_log" where
  "first_call env ctx statuses =
     \<lparr>lg_calls = 1, lg_err = en_base env 0, lg_stopped = False, lg_attempts = 0,
      lg_statuses = recordUpstreamTransportFailure statuses (en_base env 0), lg_reports = [],
      lg_health = ctx\<rparr>"

definition observeResult :: "transport_error option \<Rightarrow> bool \<Rightarrow> string" where
  "observeResult err stopped =
     (if stopped then ''stopped'' else if err \<noteq> None then ''error'' else ''success'')"

text \<open>\<open>RoundTrip\<close>: what it did, and the label it observed.\<close>

definition retry_RoundTrip ::
  "retry_env \<Rightarrow> request \<Rightarrow> int option \<Rightarrow> 'r health_context \<Rightarrow> int list \<Rightarrow> 'r retry_log \<times> string" where
  "retry_RoundTrip env r state ctx statuses =
     (let lg = (case state of
                  None \<Rightarrow> first_call env ctx statuses
                | Some count \<Rightarrow> retry_loop env r (nat count) 0 (first_call env ctx statuses))
      in (lg, observeResult (lg_err lg) (lg_stopped lg)))"

text \<open>\<open>httpRetryCount\<close> of \<open>pkg/route/builder.go\<close>: the configured count, or one retry per further
  node.\<close>

definition httpRetryCount :: "int option \<Rightarrow> nat \<Rightarrow> int" where
  "httpRetryCount configured nodes =
     (case configured of Some n \<Rightarrow> max n 0 | None \<Rightarrow> max (int nodes - 1) 0)"

section \<open>What the loop does\<close>

lemma record_append:
  "recordUpstreamTransportFailure statuses err = statuses @ recordUpstreamTransportFailure [] err"
  by (simp add: recordUpstreamTransportFailure_def RecordUpstreamStatus_def split: option.splits)

text \<open>The health context in which call \<open>k\<close> runs.\<close>

fun ctx_at :: "retry_env \<Rightarrow> 'r health_context \<Rightarrow> nat \<Rightarrow> 'r health_context" where
  "ctx_at env ctx 0 = ctx"
| "ctx_at env ctx (Suc k) =
     (case en_next env k of None \<Rightarrow> ctx_at env ctx k | Some t \<Rightarrow> SetSelectedTarget (ctx_at env ctx k) t)"

definition failed_statuses :: "retry_env \<Rightarrow> nat \<Rightarrow> nat \<Rightarrow> int list" where
  "failed_statuses env i j = concat (map (\<lambda>k. recordUpstreamTransportFailure [] (en_base env k)) [i..<j])"

definition failed_reports ::
  "retry_env \<Rightarrow> 'r health_context \<Rightarrow> nat \<Rightarrow> nat \<Rightarrow> ('r \<times> string \<times> bool) list" where
  "failed_reports env ctx i j =
     concat (map (\<lambda>k. reportRetryFailure (ctx_at env ctx k) (en_base env k)) [i..<j])"

definition may_retry :: "retry_env \<Rightarrow> request \<Rightarrow> nat \<Rightarrow> bool" where
  "may_retry env r k \<longleftrightarrow> en_base env k \<noteq> None \<and> \<not> en_canceled env k
     \<and> resetRequestBody r (en_getBody env k) \<and> en_next env k \<noteq> None"

text \<open>The failure of the last call is reported too when only the selector stopped the loop.\<close>

definition reported :: "retry_env \<Rightarrow> request \<Rightarrow> nat \<Rightarrow> bool \<Rightarrow> nat" where
  "reported env r k left =
     (if left \<and> en_base env k \<noteq> None \<and> \<not> en_canceled env k \<and> resetRequestBody r (en_getBody env k)
      then Suc k else k)"

lemma retry_loop_spec:
  assumes "lg_err lg = en_base env k" and "\<not> lg_stopped lg" and "lg_health lg = ctx_at env ctx k"
    and "lg' = retry_loop env r remaining k lg"
  shows "\<exists>n\<le>remaining.
      (\<forall>j<n. may_retry env r (k + j))
    \<and> lg_err lg' = en_base env (k + n)
    \<and> (lg_stopped lg' \<longleftrightarrow> n < remaining \<and> en_base env (k + n) \<noteq> None)
    \<and> (n < remaining \<longrightarrow> \<not> may_retry env r (k + n))
    \<and> lg_calls lg' = lg_calls lg + n \<and> lg_attempts lg' = lg_attempts lg + n
    \<and> lg_statuses lg' = lg_statuses lg @ failed_statuses env (Suc k) (Suc k + n)
    \<and> lg_reports lg' = lg_reports lg @ failed_reports env ctx k (reported env r (k + n) (n < remaining))"
  using assms
proof (induction remaining arbitrary: k lg)
  case 0
  then show ?case by (simp add: failed_statuses_def failed_reports_def reported_def)
next
  case (Suc remaining)
  let ?rep = "lg_reports lg @ reportRetryFailure (lg_health lg) (lg_err lg)"
  show ?case
  proof (cases "may_retry env r k")
    case False
    then consider (ok) "en_base env k = None"
      | (guard) "en_base env k \<noteq> None" "en_canceled env k \<or> \<not> resetRequestBody r (en_getBody env k)"
      | (target) "en_base env k \<noteq> None" "\<not> en_canceled env k" "resetRequestBody r (en_getBody env k)"
          "en_next env k = None"
      by (auto simp: may_retry_def)
    then show ?thesis
    proof cases
      case ok
      then show ?thesis
        using Suc.prems False
        by (intro exI[of _ 0]) (simp add: failed_statuses_def failed_reports_def reported_def)
    next
      case guard
      then show ?thesis
        using Suc.prems False
        by (intro exI[of _ 0]) (simp add: failed_statuses_def failed_reports_def reported_def)
    next
      case target
      then obtain e where "en_base env k = Some e" by auto
      with target show ?thesis
        using Suc.prems False
        by (intro exI[of _ 0]) (simp add: failed_statuses_def failed_reports_def reported_def Let_def)
    qed
  next
    case True
    then obtain t where t: "en_base env k \<noteq> None" "\<not> en_canceled env k"
      "resetRequestBody r (en_getBody env k)" "en_next env k = Some t" by (auto simp: may_retry_def)
    let ?lg = "lg\<lparr>lg_reports := ?rep, lg_health := SetSelectedTarget (lg_health lg) t,
        lg_attempts := lg_attempts lg + 1, lg_calls := lg_calls lg + 1, lg_err := en_base env (Suc k),
        lg_statuses := recordUpstreamTransportFailure (lg_statuses lg) (en_base env (Suc k))\<rparr>"
    have lg': "lg' = retry_loop env r remaining (Suc k) ?lg"
      using Suc.prems t by (simp add: Let_def)
    obtain n where n: "n \<le> remaining" and
      spec: "\<forall>j<n. may_retry env r (Suc k + j)" "lg_err lg' = en_base env (Suc k + n)"
      "lg_stopped lg' \<longleftrightarrow> n < remaining \<and> en_base env (Suc k + n) \<noteq> None"
      "n < remaining \<longrightarrow> \<not> may_retry env r (Suc k + n)"
      "lg_calls lg' = lg_calls ?lg + n" "lg_attempts lg' = lg_attempts ?lg + n"
      "lg_statuses lg' = lg_statuses ?lg @ failed_statuses env (Suc (Suc k)) (Suc (Suc k) + n)"
      "lg_reports lg' = lg_reports ?lg @ failed_reports env ctx (Suc k) (reported env r (Suc k + n) (n < remaining))"
      using Suc.IH[OF _ _ _ lg'] Suc.prems t by auto
    have retry: "may_retry env r (k + j)" if "j < Suc n" for j
      using that True spec(1) by (cases j) auto
    have statuses: "lg_statuses lg' = lg_statuses lg @ failed_statuses env (Suc k) (Suc k + Suc n)"
      using spec(7) record_append[of "lg_statuses lg"]
      by (simp add: failed_statuses_def upt_conv_Cons[of "Suc k"] del: upt_Suc)
    have "k < reported env r (Suc k + n) (n < remaining)" by (simp add: reported_def)
    then have reports: "lg_reports lg' = lg_reports lg @ failed_reports env ctx k (reported env r (Suc k + n) (n < remaining))"
      using spec(8) Suc.prems by (simp add: failed_reports_def upt_conv_Cons[of k] del: upt_Suc)
    show ?thesis
      using n spec(2-6) retry statuses reports by (intro exI[of _ "Suc n"]) simp
  qed
qed

section \<open>Reading a status chain\<close>

lemma TrimSpace_id:
  assumes "s \<noteq> []" and "\<not> is_space (hd s)" and "\<not> is_space (last s)"
  shows "TrimSpace s = s" and "TrimSpace (CHR '' '' # s) = s"
proof -
  have "dropWhile is_space s = s" using assms by (cases s) simp_all
  moreover have "dropWhile is_space (rev s) = rev s"
    using assms by (cases "rev s") (auto simp: hd_rev[symmetric])
  ultimately show "TrimSpace s = s" "TrimSpace (CHR '' '' # s) = s"
    by (simp_all add: TrimSpace_def is_space_def)
qed

lemma Itoa_chars:
  "Itoa i \<noteq> [] \<and> CHR '','' \<notin> set (Itoa i) \<and> (\<forall>c\<in>set (Itoa i). \<not> is_space c)"
proof -
  have digits: "c \<noteq> CHR '','' \<and> \<not> is_space c" if "c \<in> set (itoa_nat n)" for c n
    using itoa_nat_digits[OF that] by (auto simp: digit_of_def is_space_def split: if_splits)
  show ?thesis
    using digits by (auto simp: Itoa_def is_space_def)
qed

lemma TrimSpace_Itoa [simp]: "TrimSpace (Itoa i) = Itoa i" "TrimSpace (CHR '' '' # Itoa i) = Itoa i"
  using TrimSpace_id[of "Itoa i"] Itoa_chars[of i] by auto

lemma Split_chain:
  "xs \<noteq> [] \<Longrightarrow> \<forall>x\<in>set xs. CHR '','' \<notin> set x \<Longrightarrow>
   Split (Join xs '', '') CHR '','' = hd xs # map (\<lambda>x. CHR '' '' # x) (tl xs)"
proof (induction xs "'', ''" rule: Join.induct)
  case (3 x y ys)
  then have "Split (Join (y # ys) '', '') CHR '','' = y # map (\<lambda>x. CHR '' '' # x) ys" by simp
  then show ?case using 3 by (simp add: Split_append_sep)
qed (simp_all add: Split_no_sep)

section \<open>Properties\<close>

text \<open>C20. Bounded retries. With a retry state of \<open>count\<close>, the base transport is called \<open>n + 1\<close>
  times for some \<open>n\<close> not above \<open>count\<close>: each of the first \<open>n\<close> calls failed and could be retried, and
  the result is that of the last. It stops before \<open>count\<close> retries only with a response or when no
  retry is possible; the label is success, stopped or error accordingly; \<open>n\<close> attempts are counted;
  the status chain grows by the failures of these calls in order; and the failures that were
  retried, and a last one the selector had no target for, are reported, each against the target of
  the call that failed. Without a state there is
  one call and no report.\<close>

theorem retry_exact:
  fixes ctx :: "'r health_context"
  assumes "retry_RoundTrip env r state ctx statuses = (lg, label)"
    and "count = (case state of None \<Rightarrow> 0 | Some c \<Rightarrow> nat c)"
  shows "\<exists>n\<le>count.
      lg_calls lg = Suc n \<and> lg_attempts lg = n \<and> lg_err lg = en_base env n
    \<and> (\<forall>j<n. may_retry env r j)
    \<and> (n < count \<longrightarrow> \<not> may_retry env r n)
    \<and> label = (if en_base env n = None then ''success'' else if n < count then ''stopped'' else ''error'')
    \<and> lg_statuses lg = statuses @ failed_statuses env 0 (Suc n)
    \<and> lg_reports lg = failed_reports env ctx 0 (reported env r n (n < count))"
proof -
  let ?lg0 = "first_call env ctx statuses"
  have lg: "lg = retry_loop env r count 0 ?lg0" and label: "label = observeResult (lg_err lg) (lg_stopped lg)"
    using assms by (auto simp: retry_RoundTrip_def Let_def split: option.splits)
  have "failed_statuses env 0 (Suc n) = recordUpstreamTransportFailure [] (en_base env 0) @ failed_statuses env 1 (Suc n)"
    for n by (simp add: failed_statuses_def upt_conv_Cons[of 0] del: upt_Suc)
  then have first: "lg_statuses ?lg0 @ failed_statuses env 1 (Suc n) = statuses @ failed_statuses env 0 (Suc n)" for n
    using record_append[of statuses] by (simp add: first_call_def)
  have "lg_err ?lg0 = en_base env 0" "\<not> lg_stopped ?lg0" "lg_health ?lg0 = ctx_at env ctx 0"
    by (simp_all add: first_call_def)
  from retry_loop_spec[OF this lg] obtain n where n: "n \<le> count" "\<forall>j<n. may_retry env r j"
    "lg_err lg = en_base env n" "lg_stopped lg \<longleftrightarrow> n < count \<and> en_base env n \<noteq> None"
    "n < count \<longrightarrow> \<not> may_retry env r n" "lg_calls lg = lg_calls ?lg0 + n" "lg_attempts lg = lg_attempts ?lg0 + n"
    "lg_statuses lg = lg_statuses ?lg0 @ failed_statuses env 1 (Suc n)"
    "lg_reports lg = lg_reports ?lg0 @ failed_reports env ctx 0 (reported env r n (n < count))" by auto
  show ?thesis
    by (rule exI[of _ n]) (simp add: n first[unfolded One_nat_def] label observeResult_def, simp add: first_call_def)
qed

definition demo_error :: transport_error where
  "demo_error = \<lparr>te_isCanceled = False, te_wrapsCanceled = False, te_wrapsDeadline = False,
     te_chainTimeout = True, te_netError = Some True\<rparr>"

definition demo_env :: retry_env where
  "demo_env = \<lparr>en_base = (\<lambda>k. if k < 2 then Some demo_error else None), en_canceled = (\<lambda>_. False),
     en_next = (\<lambda>k. Some ''b''), en_getBody = (\<lambda>_. True)\<rparr>"

definition demo_request :: request where
  "demo_request = \<lparr>rq_Method = ''GET'', rq_IdempotencyKey = '''', rq_XIdempotencyKey = '''',
     rq_Body = NilBody, rq_GetBody = False\<rparr>"

lemma retry_exact_witness:
  "\<exists>lg. retry_RoundTrip demo_env demo_request (Some 3) (None :: nat health_context) [] = (lg, ''success'')
     \<and> lg_calls lg = 3 \<and> lg_attempts lg = 2 \<and> lg_statuses lg = [504, 504]"
proof -
  obtain lg label where run:
    "retry_RoundTrip demo_env demo_request (Some 3) (None :: nat health_context) [] = (lg, label)" by fastforce
  obtain n where n: "n \<le> 3" "\<forall>j<n. may_retry demo_env demo_request j" "lg_calls lg = Suc n"
    "lg_attempts lg = n" "n < 3 \<longrightarrow> \<not> may_retry demo_env demo_request n"
    "label = (if en_base demo_env n = None then ''success'' else if n < 3 then ''stopped'' else ''error'')"
    "lg_statuses lg = [] @ failed_statuses demo_env 0 (Suc n)"
    using retry_exact[OF run refl] by auto
  have retry: "may_retry demo_env demo_request k \<longleftrightarrow> k < 2" for k
    by (simp add: may_retry_def demo_env_def demo_request_def resetRequestBody_def)
  have "\<not> 2 < n" using n(2) retry[of 2] by auto
  then have "n < 3" by simp
  then have n2: "n = 2" using n(5) retry[of n] by simp
  have "failed_statuses demo_env 0 3 = [504, 504]"
    by (simp add: failed_statuses_def demo_env_def demo_error_def recordUpstreamTransportFailure_def
        RecordUpstreamStatus_def upt_rec)
  then have "label = ''success''" "lg_calls lg = 3" "lg_attempts lg = 2" "lg_statuses lg = [504, 504]"
    using n(3,4,6,7) n2 by (simp_all add: demo_env_def numeral_3_eq_3)
  with run show ?thesis by blast
qed

text \<open>C21. The status chain can be read back. Splitting what \<open>UpstreamStatusChain\<close> prints at the
  commas, trimming the parts and parsing them gives the recorded statuses in order.\<close>

theorem status_chain_roundtrip:
  assumes "statuses \<noteq> []" and "\<forall>s\<in>set statuses. 0 < s \<and> s \<le> max_int64"
  shows "map (\<lambda>p. Atoi (TrimSpace p)) (Split (UpstreamStatusChain statuses) CHR '','') = map Some statuses"
proof -
  have "Split (UpstreamStatusChain statuses) CHR '','' =
      Itoa (hd statuses) # map (\<lambda>s. CHR '' '' # Itoa s) (tl statuses)"
    using Split_chain[of "map Itoa statuses"] assms(1) Itoa_chars
    by (simp add: UpstreamStatusChain_def hd_map map_tl comp_def)
  moreover have "Atoi (Itoa s) = Some s" if "s \<in> set statuses" for s
    using that assms(2) by (intro Atoi_Itoa) (auto simp: max_int64_def)
  ultimately show ?thesis
    using assms(1) by (cases statuses) auto
qed

lemma status_chain_roundtrip_witness:
  "UpstreamStatusChain [502, 504, 200] = ''502, 504, 200''
   \<and> map (\<lambda>p. Atoi (TrimSpace p)) (Split ''502, 504, 200'' CHR '','') = [Some 502, Some 504, Some 200]"
proof -
  have chain: "UpstreamStatusChain [502, 504, 200] = ''502, 504, 200''" by code_simp
  have "\<forall>s\<in>set [502, 504, 200]. 0 < s \<and> s \<le> max_int64" by (simp add: max_int64_def)
  from status_chain_roundtrip[OF _ this] chain show ?thesis by simp
qed



end
