(* ===== verification/Timeout.thy ===== *)
theory Timeout
  imports Retry
begin

text \<open>
  The timeout transports, \<open>pkg/proxy/timeout.go\<close>: bodies whose reads and writes must make progress,
  the transport that puts them around a request and its response, and the transport that bounds the
  wait for response headers. A timer set with \<open>time.AfterFunc\<close> starts its function in a goroutine of
  its own once its time has come, which then waits for the mutex; stopping the timer later does not
  take that function back. The goroutines started and not yet run are part of the state.
\<close>

section \<open>A timer with an epoch\<close>

record go_timer =
  tm_epoch :: u64
  tm_when :: int
  tm_active :: bool

record epoch_timer =
  et_timeout :: int
  et_timer :: "go_timer option"
  et_epoch :: u64
  et_stopped :: bool
  et_timedOut :: bool
  et_started :: "u64 list"

text \<open>When a timer of duration \<open>d\<close> set at \<open>now\<close> is due; the addition saturates.\<close>

definition timer_due :: "int \<Rightarrow> int \<Rightarrow> int" where
  "timer_due now d = (if d \<le> 0 then now else min max_int64 (now + d))"

definition armLocked :: "int \<Rightarrow> epoch_timer \<Rightarrow> epoch_timer" where
  "armLocked now b =
     (if et_stopped b then b
      else let epoch = et_epoch b + 1
           in b\<lparr>et_timer := Some \<lparr>tm_epoch = epoch, tm_when = timer_due now (et_timeout b), tm_active = True\<rparr>,
                et_epoch := epoch\<rparr>)"

definition arm :: "int \<Rightarrow> epoch_timer \<Rightarrow> epoch_timer" where
  "arm now b = (if et_timeout b \<le> 0 then b else armLocked now b)"

text \<open>\<open>timeoutExpired\<close>: the new state, and whether the context is cancelled and the body closed.\<close>

definition timeoutExpired :: "u64 \<Rightarrow> epoch_timer \<Rightarrow> epoch_timer \<times> bool" where
  "timeoutExpired epoch b =
     (if et_stopped b \<or> epoch \<noteq> et_epoch b then (b, False)
      else (b\<lparr>et_stopped := True, et_timedOut := True\<rparr>, True))"

definition et_stop :: "epoch_timer \<Rightarrow> epoch_timer" where
  "et_stop b =
     (if et_stopped b then b
      else b\<lparr>et_timer := map_option (\<lambda>t. t\<lparr>tm_active := False\<rparr>) (et_timer b),
             et_epoch := et_epoch b + 1, et_stopped := True\<rparr>)"

text \<open>The runtime starts the function of a timer that is due.\<close>

definition et_fire :: "int \<Rightarrow> epoch_timer \<Rightarrow> epoch_timer option" where
  "et_fire now b =
     (case et_timer b of
        None \<Rightarrow> None
      | Some t \<Rightarrow>
          if tm_active t \<and> tm_when t \<le> now
          then Some (b\<lparr>et_timer := Some (t\<lparr>tm_active := False\<rparr>), et_started := tm_epoch t # et_started b\<rparr>)
          else None)"

definition new_epoch_timer :: "int \<Rightarrow> epoch_timer" where
  "new_epoch_timer timeout =
     \<lparr>et_timeout = timeout, et_timer = None, et_epoch = 0, et_stopped = False, et_timedOut = False,
      et_started = []\<rparr>"

section \<open>Bodies\<close>

text \<open>A \<open>progressTimeoutBody\<close> has a read side; a \<open>progressTimeoutDuplexBody\<close> has a write side too.
  The counters are the calls of the context's cancel function and of the inner body's \<open>Close\<close>.\<close>

record progressTimeoutBody =
  pb_now :: int
  pb_read :: epoch_timer
  pb_write :: "epoch_timer option"
  pb_cancels :: nat
  pb_closes :: nat

definition newProgressTimeoutBody :: "int \<Rightarrow> int \<Rightarrow> progressTimeoutBody" where
  "newProgressTimeoutBody now timeout =
     \<lparr>pb_now = now, pb_read = new_epoch_timer timeout, pb_write = None, pb_cancels = 0, pb_closes = 0\<rparr>"

definition wrapProgressTimeoutBody :: "int \<Rightarrow> bool \<Rightarrow> int \<Rightarrow> int \<Rightarrow> progressTimeoutBody" where
  "wrapProgressTimeoutBody now duplex readTimeout writeTimeout =
     (let progress = newProgressTimeoutBody now readTimeout
      in if \<not> duplex then progress else progress\<lparr>pb_write := Some (new_epoch_timer writeTimeout)\<rparr>)"

text \<open>\<open>stop\<close> of the body itself: a duplex body stops both sides.\<close>

definition pb_stop :: "progressTimeoutBody \<Rightarrow> progressTimeoutBody" where
  "pb_stop b = b\<lparr>pb_read := et_stop (pb_read b), pb_write := map_option et_stop (pb_write b)\<rparr>"

definition armRead :: "progressTimeoutBody \<Rightarrow> progressTimeoutBody" where
  "armRead b = b\<lparr>pb_read := arm (pb_now b) (pb_read b)\<rparr>"

definition armWrite :: "progressTimeoutBody \<Rightarrow> progressTimeoutBody" where
  "armWrite b = b\<lparr>pb_write := map_option (arm (pb_now b)) (pb_write b)\<rparr>"

definition writeTimedOut :: "progressTimeoutBody \<Rightarrow> bool" where
  "writeTimedOut b = (case pb_write b of None \<Rightarrow> False | Some w \<Rightarrow> et_timedOut w)"

definition DeadlineExceeded :: transport_error where
  "DeadlineExceeded = \<lparr>te_isCanceled = False, te_wrapsCanceled = False, te_wrapsDeadline = True,
     te_chainTimeout = True, te_netError = Some True\<rparr>"

text \<open>\<open>Read\<close> and \<open>Write\<close> from the return of the inner call on, with the error they return.\<close>

definition progress_Read_end ::
  "progressTimeoutBody \<Rightarrow> nat \<Rightarrow> transport_error option \<Rightarrow> progressTimeoutBody \<times> transport_error option" where
  "progress_Read_end b n err =
     (let b1 = (if 0 < n then armRead b else b);
          b2 = (if err \<noteq> None then b1\<lparr>pb_read := et_stop (pb_read b1)\<rparr> else b1)
      in (b2, if et_timedOut (pb_read b2) then Some DeadlineExceeded else err))"

definition pb_Read_end ::
  "progressTimeoutBody \<Rightarrow> nat \<Rightarrow> transport_error option \<Rightarrow> progressTimeoutBody \<times> transport_error option" where
  "pb_Read_end b n err =
     (let (b1, err1) = progress_Read_end b n err
      in (if pb_write b \<noteq> None \<and> err1 \<noteq> None then pb_stop b1 else b1, err1))"

definition pb_Write_end ::
  "progressTimeoutBody \<Rightarrow> nat \<Rightarrow> transport_error option \<Rightarrow> progressTimeoutBody \<times> transport_error option" where
  "pb_Write_end b n err =
     (let b1 = (if 0 < n then armWrite b else b);
          b2 = (if err \<noteq> None then pb_stop b1 else b1)
      in (b2, if et_timedOut (pb_read b2) \<or> writeTimedOut b2 then Some DeadlineExceeded else err))"

definition pb_Close :: "progressTimeoutBody \<Rightarrow> progressTimeoutBody" where
  "pb_Close b = (let b1 = pb_stop b in b1\<lparr>pb_closes := pb_closes b1 + 1\<rparr>)"

text \<open>A started expiry function runs: the read side's and the write side's, each with the calls of
  cancel and Close.\<close>

definition cancel_and_close :: "bool \<Rightarrow> progressTimeoutBody \<Rightarrow> progressTimeoutBody" where
  "cancel_and_close expired b =
     (if expired then b\<lparr>pb_cancels := pb_cancels b + 1, pb_closes := pb_closes b + 1\<rparr> else b)"

definition expire :: "nat \<Rightarrow> epoch_timer \<Rightarrow> (epoch_timer \<times> bool) option" where
  "expire i s =
     (if i < length (et_started s)
      then Some (timeoutExpired (et_started s ! i)
             (s\<lparr>et_started := take i (et_started s) @ drop (Suc i) (et_started s)\<rparr>))
      else None)"

definition readTimeoutExpired :: "nat \<Rightarrow> progressTimeoutBody \<Rightarrow> progressTimeoutBody option" where
  "readTimeoutExpired i b =
     map_option (\<lambda>(r, expired). cancel_and_close expired (b\<lparr>pb_read := r\<rparr>)) (expire i (pb_read b))"

definition writeTimeoutExpired :: "nat \<Rightarrow> progressTimeoutBody \<Rightarrow> progressTimeoutBody option" where
  "writeTimeoutExpired i b =
     (case pb_write b of
        None \<Rightarrow> None
      | Some w \<Rightarrow> map_option (\<lambda>(w', expired). cancel_and_close expired (b\<lparr>pb_write := Some w'\<rparr>)) (expire i w))"

text \<open>What may happen to a body: time passes, a due timer starts its function, a started function
  runs, and the calls of the body's users begin and end.\<close>

datatype body_event =
    Tick nat
  | FireRead
  | FireWrite
  | ExpireRead nat
  | ExpireWrite nat
  | ReadBegin
  | ReadEnd nat "transport_error option"
  | WriteBegin
  | WriteEnd nat "transport_error option"
  | CloseCall

fun pb_event :: "body_event \<Rightarrow> progressTimeoutBody \<Rightarrow> progressTimeoutBody option" where
  "pb_event (Tick d) b = Some (b\<lparr>pb_now := pb_now b + int d\<rparr>)"
| "pb_event FireRead b = map_option (\<lambda>r. b\<lparr>pb_read := r\<rparr>) (et_fire (pb_now b) (pb_read b))"
| "pb_event FireWrite b =
     (case pb_write b of None \<Rightarrow> None | Some w \<Rightarrow> map_option (\<lambda>w. b\<lparr>pb_write := Some w\<rparr>) (et_fire (pb_now b) w))"
| "pb_event (ExpireRead i) b = readTimeoutExpired i b"
| "pb_event (ExpireWrite i) b = writeTimeoutExpired i b"
| "pb_event ReadBegin b = Some (armRead b)"
| "pb_event (ReadEnd n err) b = Some (fst (pb_Read_end b n err))"
| "pb_event WriteBegin b = (if pb_write b = None then None else Some (armWrite b))"
| "pb_event (WriteEnd n err) b = (if pb_write b = None then None else Some (fst (pb_Write_end b n err)))"
| "pb_event CloseCall b = Some (pb_Close b)"

fun pb_run :: "body_event list \<Rightarrow> progressTimeoutBody \<Rightarrow> progressTimeoutBody option" where
  "pb_run [] b = Some b"
| "pb_run (e # es) b = (case pb_event e b of None \<Rightarrow> None | Some b' \<Rightarrow> pb_run es b')"

section \<open>The transports\<close>

text \<open>What the code asks of a response body.\<close>

datatype resp_body = NilRespBody | NoRespBody | PlainBody | DuplexBody

text \<open>What a transport returns: its error, its body (\<open>None\<close> for no response), the wrapper around
  the body, and whether the context made for the call is cancelled on return.\<close>

datatype body_wrapper = Unwrapped | Progress int "int option" | CancelOnClose bool

record trip_result =
  tr_err :: "transport_error option"
  tr_body :: "resp_body option"
  tr_wrapper :: body_wrapper
  tr_canceled :: bool

text \<open>The send timer a request body gets.\<close>

definition send_body :: "int \<Rightarrow> req_body \<Rightarrow> int option" where
  "send_body send body = (if body \<noteq> NilBody \<and> body \<noteq> NoBody \<and> 0 < send then Some send else None)"

text \<open>\<open>progressTimeoutTransport.RoundTrip\<close> after the base transport returned; \<open>expired\<close> is whether the
  send timer or the caller cancelled the context before.\<close>

definition progress_RoundTrip ::
  "int \<Rightarrow> int \<Rightarrow> bool \<Rightarrow> transport_error option \<Rightarrow> resp_body \<Rightarrow> trip_result" where
  "progress_RoundTrip send rd expired err body =
     (if err \<noteq> None
      then \<lparr>tr_err = err, tr_body = Some body, tr_wrapper = Unwrapped, tr_canceled = True\<rparr>
      else if body = NilRespBody \<or> body = NoRespBody
      then \<lparr>tr_err = None, tr_body = Some body, tr_wrapper = Unwrapped, tr_canceled = True\<rparr>
      else if rd \<le> 0
      then (if body \<noteq> DuplexBody \<or> send \<le> 0
            then \<lparr>tr_err = None, tr_body = Some body, tr_wrapper = Unwrapped, tr_canceled = True\<rparr>
            else \<lparr>tr_err = None, tr_body = Some body, tr_wrapper = Progress 0 (Some send), tr_canceled = expired\<rparr>)
      else \<lparr>tr_err = None, tr_body = Some body,
             tr_wrapper = Progress rd (if body = DuplexBody then Some send else None), tr_canceled = expired\<rparr>)"

text \<open>\<open>responseHeaderTimeoutTransport.RoundTrip\<close> after the base transport returned. \<open>fired\<close> is whether
  the timer ran before it was stopped, \<open>parent\<close> the error of the caller's context; the derived
  context is done when either holds or its cancel function was called.\<close>

definition ctx_done :: "bool \<Rightarrow> transport_error option \<Rightarrow> bool \<Rightarrow> bool" where
  "ctx_done fired parent cancel_called \<longleftrightarrow> fired \<or> parent \<noteq> None \<or> cancel_called"

definition header_RoundTrip ::
  "bool \<Rightarrow> transport_error option \<Rightarrow> transport_error option \<Rightarrow> resp_body option \<Rightarrow> trip_result" where
  "header_RoundTrip fired parent err response =
     (if err \<noteq> None
      then let cancel_called = True
           in if ctx_done fired parent cancel_called \<and> parent = None
              then \<lparr>tr_err = Some DeadlineExceeded, tr_body = response, tr_wrapper = Unwrapped, tr_canceled = True\<rparr>
              else \<lparr>tr_err = err, tr_body = response, tr_wrapper = Unwrapped, tr_canceled = True\<rparr>
      else if ctx_done fired parent False
      then (if parent \<noteq> None
            then \<lparr>tr_err = parent, tr_body = None, tr_wrapper = Unwrapped, tr_canceled = True\<rparr>
            else \<lparr>tr_err = Some DeadlineExceeded, tr_body = None, tr_wrapper = Unwrapped, tr_canceled = True\<rparr>)
      else if response = None \<or> response = Some NilRespBody \<or> response = Some NoRespBody
      then \<lparr>tr_err = None, tr_body = response, tr_wrapper = Unwrapped, tr_canceled = True\<rparr>
      else \<lparr>tr_err = None, tr_body = response,
             tr_wrapper = CancelOnClose (response = Some DuplexBody), tr_canceled = False\<rparr>)"

text \<open>\<open>cancelOnCloseBody\<close> and its duplex form: whether the once has run, that is, whether the context
  is cancelled.\<close>

datatype coc_call = CocRead bool | CocWrite bool | CocClose

fun coc_event :: "coc_call \<Rightarrow> bool \<Rightarrow> bool" where
  "coc_event (CocRead failed) canceled = (if failed then True else canceled)"
| "coc_event (CocWrite failed) canceled = (if failed then True else canceled)"
| "coc_event CocClose canceled = True"

section \<open>One side of a body\<close>

inductive et_step :: "int \<Rightarrow> epoch_timer \<Rightarrow> epoch_timer \<Rightarrow> bool" where
  keep: "et_step now s s"
| arm: "et_step now s (arm now s)"
| stop: "et_step now s (et_stop s)"
| fire: "et_fire now s = Some s' \<Longrightarrow> et_step now s s'"
| expire: "expire i s = Some (s', expired) \<Longrightarrow> et_step now s s'"

lemma et_simps [simp]:
  "et_timedOut (arm now s) = et_timedOut s" "et_timedOut (et_stop s) = et_timedOut s"
  "et_timeout (arm now s) = et_timeout s" "et_timeout (et_stop s) = et_timeout s"
  "et_stopped (arm now s) = et_stopped s" "et_stopped (et_stop s)"
  by (simp_all add: arm_def armLocked_def et_stop_def Let_def)

lemma et_fire_Some:
  "et_fire now s = Some s' \<longleftrightarrow>
     (\<exists>t. et_timer s = Some t \<and> tm_active t \<and> tm_when t \<le> now
        \<and> s' = s\<lparr>et_timer := Some (t\<lparr>tm_active := False\<rparr>), et_started := tm_epoch t # et_started s\<rparr>)"
  by (auto simp: et_fire_def split: option.splits)

text \<open>The invariant of a side after at most \<open>N\<close> changes of its epoch.\<close>

definition et_inv :: "nat \<Rightarrow> int \<Rightarrow> epoch_timer \<Rightarrow> bool" where
  "et_inv N now s \<longleftrightarrow> unat (et_epoch s) \<le> N
     \<and> (et_timedOut s \<longrightarrow> et_stopped s \<and> (\<exists>t. et_timer s = Some t \<and> tm_when t \<le> now))
     \<and> (\<forall>t. et_timer s = Some t \<longrightarrow> 0 < et_timeout s)
     \<and> (\<forall>t. et_timer s = Some t \<and> tm_active t \<longrightarrow> tm_epoch t = et_epoch s \<and> \<not> et_stopped s)
     \<and> (\<forall>e\<in>set (et_started s). unat e \<le> unat (et_epoch s)
          \<and> (e = et_epoch s \<longrightarrow> (\<exists>t. et_timer s = Some t \<and> tm_epoch t = e \<and> \<not> tm_active t \<and> tm_when t \<le> now)))"

lemma et_inv_new: "et_inv 0 now (new_epoch_timer timeout)"
  by (simp add: et_inv_def new_epoch_timer_def)

lemma et_timedOut_new: "\<not> et_timedOut (new_epoch_timer timeout)"
  by (simp add: new_epoch_timer_def)

lemma et_inv_mono: "et_inv N now s \<Longrightarrow> N \<le> N' \<Longrightarrow> now \<le> now' \<Longrightarrow> et_inv N' now' s"
  unfolding et_inv_def by (meson order_trans)

lemma epoch_next:
  fixes epoch :: u64
  assumes "unat epoch \<le> N" and "N < 2 ^ 64 - 1"
  shows "unat (epoch + 1) = Suc (unat epoch)"
proof -
  have "unat epoch + 1 < 2 ^ 64" using assms by simp
  then show ?thesis by (simp add: unat_add_lem[where 'a = 64, simplified, THEN iffD1])
qed

lemma epoch_fresh:
  assumes "et_inv N now s" and "N < 2 ^ 64 - 1"
  shows "unat (et_epoch s + 1) = Suc (unat (et_epoch s))"
    and "e \<in> set (et_started s) \<Longrightarrow> e \<noteq> et_epoch s + 1 \<and> unat e \<le> Suc (unat (et_epoch s))"
proof -
  show next': "unat (et_epoch s + 1) = Suc (unat (et_epoch s))"
    using epoch_next assms by (auto simp: et_inv_def)
  assume "e \<in> set (et_started s)"
  then have "unat e \<le> unat (et_epoch s)" using assms(1) by (auto simp: et_inv_def)
  then show "e \<noteq> et_epoch s + 1 \<and> unat e \<le> Suc (unat (et_epoch s))"
    using next' by (metis le_SucI not_less_eq_eq order_refl)
qed

lemma et_inv_arm:
  assumes "et_inv N now s" and "N < 2 ^ 64 - 1"
  shows "et_inv (Suc N) now (arm now s)"
proof (cases "et_timeout s \<le> 0 \<or> et_stopped s")
  case True
  then have "arm now s = s" by (auto simp: arm_def armLocked_def)
  then show ?thesis using et_inv_mono[OF assms(1)] by simp
next
  case False
  then show ?thesis
    using assms(1) epoch_fresh[OF assms] by (auto simp: et_inv_def arm_def armLocked_def Let_def)
qed

lemma et_inv_stop:
  assumes "et_inv N now s" and "N < 2 ^ 64 - 1"
  shows "et_inv (Suc N) now (et_stop s)"
proof (cases "et_stopped s")
  case True
  then show ?thesis using et_inv_mono[OF assms(1)] by (simp add: et_stop_def)
next
  case False
  then show ?thesis
    using assms(1) epoch_fresh[OF assms] by (auto simp: et_inv_def et_stop_def)
qed

lemma expire_Some:
  "expire i s = Some (s', expired) \<longleftrightarrow>
     i < length (et_started s)
   \<and> (let e = et_started s ! i; rest = take i (et_started s) @ drop (Suc i) (et_started s)
      in expired = (\<not> et_stopped s \<and> e = et_epoch s)
       \<and> s' = s\<lparr>et_started := rest, et_stopped := et_stopped s \<or> expired, et_timedOut := et_timedOut s \<or> expired\<rparr>)"
  by (auto simp: expire_def timeoutExpired_def Let_def)

lemma et_inv_expire:
  assumes "et_inv N now s" and "expire i s = Some (s', expired)"
  shows "et_inv N now s'"
proof -
  let ?e = "et_started s ! i"
  have s': "s' = s\<lparr>et_started := take i (et_started s) @ drop (Suc i) (et_started s),
      et_stopped := et_stopped s \<or> expired, et_timedOut := et_timedOut s \<or> expired\<rparr>"
    and expired: "expired \<longleftrightarrow> \<not> et_stopped s \<and> ?e = et_epoch s" and i: "?e \<in> set (et_started s)"
    using assms(2) by (auto simp: expire_Some Let_def)
  have sub: "set (take i (et_started s) @ drop (Suc i) (et_started s)) \<subseteq> set (et_started s)"
    by (auto dest: in_set_takeD in_set_dropD)
  have fired: "\<exists>t. et_timer s = Some t \<and> tm_epoch t = ?e \<and> \<not> tm_active t \<and> tm_when t \<le> now" if expired
    using assms(1) i that expired by (auto simp: et_inv_def)
  show ?thesis
  proof (cases expired)
    case True
    with assms(1) sub fired show ?thesis by (fastforce simp: et_inv_def s')
  next
    case False
    with assms(1) sub show ?thesis by (fastforce simp: et_inv_def s')
  qed
qed

lemma et_inv_step:
  assumes "et_step now s s'" and "et_inv N now s" and "N < 2 ^ 64 - 1"
  shows "et_inv (Suc N) now s'"
  using assms
proof cases
  case fire
  then show ?thesis using assms(2) by (auto simp: et_fire_Some et_inv_def)
qed (auto intro: et_inv_arm et_inv_stop et_inv_mono[OF et_inv_expire] et_inv_mono)

text \<open>The deadline of the armed timer only moves forward.\<close>

definition et_late :: "int \<Rightarrow> epoch_timer \<Rightarrow> bool" where
  "et_late T s \<longleftrightarrow> (\<forall>t. et_timer s = Some t \<longrightarrow> T \<le> tm_when t)"

lemma et_late_step:
  assumes "et_step now s s'" and "et_late T s" and "T \<le> timer_due now (et_timeout s)"
  shows "et_late T s'"
  using assms
  by cases (auto simp: et_late_def arm_def armLocked_def et_stop_def et_fire_Some expire_Some Let_def)

lemma et_step_timeout: "et_step now s s' \<Longrightarrow> et_timeout s' = et_timeout s"
  by (cases rule: et_step.cases) (auto simp: et_fire_Some expire_Some Let_def)

lemma et_step_stopped: "et_step now s s' \<Longrightarrow> et_stopped s \<Longrightarrow> et_stopped s' \<and> et_timedOut s' = et_timedOut s"
  by (cases rule: et_step.cases) (auto simp: et_fire_Some expire_Some Let_def)

section \<open>Whole bodies\<close>

text \<open>Every event is at most three steps of each side, at the body's time.\<close>

definition et_steps3 :: "int \<Rightarrow> epoch_timer \<Rightarrow> epoch_timer \<Rightarrow> bool" where
  "et_steps3 now s s' \<longleftrightarrow> (\<exists>s1 s2. et_step now s s1 \<and> et_step now s1 s2 \<and> et_step now s2 s')"

lemma et_steps3_simps [simp]:
  "et_steps3 now s s" "et_steps3 now s (arm now s)" "et_steps3 now s (et_stop s)"
  "et_steps3 now s (et_stop (arm now s))" "et_steps3 now s (et_stop (et_stop s))"
  "et_steps3 now s (et_stop (et_stop (arm now s)))"
  "et_fire now s = Some s' \<Longrightarrow> et_steps3 now s s'"
  "expire i s = Some (s', expired) \<Longrightarrow> et_steps3 now s s'"
  unfolding et_steps3_def by (blast intro: et_step.intros)+

lemmas pb_defs = armRead_def armWrite_def pb_Read_end_def progress_Read_end_def pb_Write_end_def
  pb_Close_def pb_stop_def readTimeoutExpired_def writeTimeoutExpired_def cancel_and_close_def Let_def

lemma pb_event_read:
  "pb_event e b = Some b' \<Longrightarrow> et_steps3 (pb_now b) (pb_read b) (pb_read b') \<and> pb_now b \<le> pb_now b'"
  by (cases e)
    (auto simp: pb_defs split: option.splits if_splits prod.splits)

lemma pb_event_write:
  "pb_event e b = Some b' \<Longrightarrow> rel_option (et_steps3 (pb_now b)) (pb_write b) (pb_write b')"
  by (cases e; cases "pb_write b")
    (auto simp: pb_defs split: option.splits if_splits prod.splits)

lemma et_inv_steps3:
  "et_steps3 now s s' \<Longrightarrow> et_inv N now s \<Longrightarrow> N + 3 < 2 ^ 64 \<Longrightarrow> et_inv (N + 3) now s'"
  unfolding et_steps3_def by (fastforce dest!: et_inv_step simp: numeral_3_eq_3)

lemma et_late_steps3:
  "et_steps3 now s s' \<Longrightarrow> et_late T s \<Longrightarrow> T \<le> timer_due now (et_timeout s) \<Longrightarrow> et_late T s' \<and> et_timeout s' = et_timeout s"
  unfolding et_steps3_def by (metis et_late_step et_step_timeout)

lemma et_steps3_stopped:
  "et_steps3 now s s' \<Longrightarrow> et_stopped s \<Longrightarrow> et_stopped s' \<and> et_timedOut s' = et_timedOut s"
  unfolding et_steps3_def by (metis et_step_stopped)

definition pb_inv :: "nat \<Rightarrow> progressTimeoutBody \<Rightarrow> bool" where
  "pb_inv N b \<longleftrightarrow> et_inv N (pb_now b) (pb_read b) \<and> pred_option (et_inv N (pb_now b)) (pb_write b)
     \<and> pb_cancels b = of_bool (et_timedOut (pb_read b)) + of_bool (writeTimedOut b)
     \<and> pb_cancels b \<le> pb_closes b"

lemma expire_timedOut:
  "expire i s = Some (s', expired) \<Longrightarrow> et_inv N now s \<Longrightarrow>
   (of_bool (et_timedOut s') :: nat) = of_bool (et_timedOut s) + of_bool expired"
  by (auto simp: expire_Some et_inv_def Let_def)

lemma et_fire_timedOut: "et_fire now s = Some s' \<Longrightarrow> et_timedOut s' = et_timedOut s"
  by (auto simp: et_fire_Some)

lemma pb_event_cancels:
  assumes "pb_event e b = Some b'" and "pb_inv N b"
  shows "pb_cancels b' = of_bool (et_timedOut (pb_read b')) + of_bool (writeTimedOut b') \<and> pb_cancels b' \<le> pb_closes b'"
proof -
  have reads: "(of_bool (et_timedOut r) :: nat) = of_bool (et_timedOut (pb_read b)) + of_bool x"
    if "expire i (pb_read b) = Some (r, x)" for i r x
    using expire_timedOut[OF that, of N "pb_now b"] assms(2) by (simp add: pb_inv_def)
  have writes: "(of_bool (et_timedOut w') :: nat) = of_bool (et_timedOut w) + of_bool x"
    if "pb_write b = Some w" "expire i w = Some (w', x)" for i w w' x
    using expire_timedOut[OF that(2), of N "pb_now b"] assms(2) that(1) by (simp add: pb_inv_def)
  have count: "pb_cancels b = of_bool (et_timedOut (pb_read b)) + of_bool (writeTimedOut b)"
    "pb_cancels b \<le> pb_closes b" using assms(2) by (auto simp: pb_inv_def)
  show ?thesis
  proof (cases e)
    case (ExpireRead i)
    with assms(1) obtain r x where x: "expire i (pb_read b) = Some (r, x)"
      "b' = cancel_and_close x (b\<lparr>pb_read := r\<rparr>)" by (auto simp: readTimeoutExpired_def)
    with count reads[OF x(1)] show ?thesis by (simp add: cancel_and_close_def writeTimedOut_def)
  next
    case (ExpireWrite i)
    with assms(1) obtain w w' x where x: "pb_write b = Some w" "expire i w = Some (w', x)"
      "b' = cancel_and_close x (b\<lparr>pb_write := Some w'\<rparr>)" by (auto simp: writeTimeoutExpired_def split: option.splits)
    with count writes[OF x(1,2)] show ?thesis by (simp add: cancel_and_close_def writeTimedOut_def)
  qed (use assms(1) count in \<open>auto simp: pb_defs writeTimedOut_def et_fire_timedOut split: option.splits if_splits prod.splits\<close>)
qed

lemma pb_inv_event:
  assumes event: "pb_event e b = Some b'" and inv: "pb_inv N b" and "N + 3 < 2 ^ 64"
  shows "pb_inv (N + 3) b'"
proof -
  have time: "pb_now b \<le> pb_now b'" and "et_steps3 (pb_now b) (pb_read b) (pb_read b')"
    using pb_event_read[OF event] by auto
  then have "et_inv (N + 3) (pb_now b') (pb_read b')"
    using inv assms(3) et_inv_mono[OF et_inv_steps3] by (auto simp: pb_inv_def)
  moreover have "pred_option (et_inv (N + 3) (pb_now b')) (pb_write b')"
    using pb_event_write[OF event] inv time assms(3) et_inv_mono[OF et_inv_steps3]
    by (cases "pb_write b"; cases "pb_write b'") (auto simp: pb_inv_def)
  ultimately show ?thesis
    using pb_event_cancels[OF event inv] by (simp add: pb_inv_def)
qed

lemma pb_run_append: "pb_run (es @ fs) b = (case pb_run es b of None \<Rightarrow> None | Some b' \<Rightarrow> pb_run fs b')"
  by (induction es arbitrary: b) (auto split: option.splits)

lemma pb_inv_run:
  "pb_run es b = Some b' \<Longrightarrow> pb_inv N b \<Longrightarrow> N + 3 * length es < 2 ^ 64 \<Longrightarrow> pb_inv (N + 3 * length es) b'"
proof (induction es arbitrary: b N)
  case (Cons e es)
  then obtain b1 where "pb_event e b = Some b1" "pb_run es b1 = Some b'" by (auto split: option.splits)
  with Cons show ?case using pb_inv_event[of e b b1 N] Cons.IH[of b1 "N + 3"] by (simp add: algebra_simps)
qed simp

lemma pb_inv_new: "pb_inv 0 (wrapProgressTimeoutBody now duplex rt wt)"
  by (simp add: pb_inv_def wrapProgressTimeoutBody_def newProgressTimeoutBody_def et_inv_new
      writeTimedOut_def Let_def et_timedOut_new)

lemma pb_run_timeout: "pb_run es b = Some b' \<Longrightarrow> et_timeout (pb_read b') = et_timeout (pb_read b)"
proof (induction es arbitrary: b)
  case (Cons e es)
  then obtain b1 where b1: "pb_event e b = Some b1" "pb_run es b1 = Some b'" by (auto split: option.splits)
  have "et_timeout (pb_read b1) = et_timeout (pb_read b)"
    using pb_event_read[OF b1(1)] by (auto simp: et_steps3_def dest!: et_step_timeout)
  with Cons.IH[OF b1(2)] show ?case by simp
qed simp

lemma pb_run_late:
  assumes "pb_run es b = Some b'" and "et_late T (pb_read b)" and "T \<le> timer_due (pb_now b) (et_timeout (pb_read b))"
  shows "et_late T (pb_read b') \<and> et_timeout (pb_read b') = et_timeout (pb_read b)"
  using assms
proof (induction es arbitrary: b)
  case (Cons e es)
  then obtain b1 where b1: "pb_event e b = Some b1" "pb_run es b1 = Some b'" by (auto split: option.splits)
  have "et_late T (pb_read b1)" "et_timeout (pb_read b1) = et_timeout (pb_read b)" "pb_now b \<le> pb_now b1"
    using pb_event_read[OF b1(1)] et_late_steps3 Cons.prems by auto
  with Cons.prems b1 show ?case
    using Cons.IH[of b1] by (auto simp: timer_due_def split: if_splits)
qed simp

lemma pb_run_stopped:
  assumes "pb_run es b = Some b'" and "et_stopped (pb_read b)" and "pred_option et_stopped (pb_write b)"
  shows "et_timedOut (pb_read b') = et_timedOut (pb_read b) \<and> writeTimedOut b' = writeTimedOut b"
  using assms
proof (induction es arbitrary: b)
  case (Cons e es)
  then obtain b1 where b1: "pb_event e b = Some b1" "pb_run es b1 = Some b'" by (auto split: option.splits)
  have "et_stopped (pb_read b1) \<and> et_timedOut (pb_read b1) = et_timedOut (pb_read b)"
    using pb_event_read[OF b1(1)] Cons.prems et_steps3_stopped by auto
  moreover have "pred_option et_stopped (pb_write b1) \<and> writeTimedOut b1 = writeTimedOut b"
    using pb_event_write[OF b1(1)] Cons.prems et_steps3_stopped
    by (cases "pb_write b"; cases "pb_write b1") (auto simp: writeTimedOut_def)
  ultimately show ?case using Cons b1 by auto
qed simp

lemmas body_run_defs = pb_defs arm_def armLocked_def et_fire_def timer_due_def expire_def timeoutExpired_def
  wrapProgressTimeoutBody_def newProgressTimeoutBody_def new_epoch_timer_def max_int64_def writeTimedOut_def

section \<open>Properties\<close>

text \<open>C23. When a body times out. In a run of fewer than \<open>2 ^ 64 / 3\<close> events, the context is cancelled
  once per side that timed out and the body closed at least as often; a side times out only with a
  positive timeout and after the deadline of the timer it armed last, whatever functions of older
  timers are still waiting to run.\<close>

theorem timeouts_are_due:
  assumes "pb_run es (wrapProgressTimeoutBody now duplex rt wt) = Some b" and "3 * length es < 2 ^ 64"
  shows "pb_cancels b = of_bool (et_timedOut (pb_read b)) + of_bool (writeTimedOut b)
    \<and> pb_cancels b \<le> pb_closes b
    \<and> (\<forall>s. s = pb_read b \<or> pb_write b = Some s \<longrightarrow> et_timedOut s \<longrightarrow>
         0 < et_timeout s \<and> et_stopped s \<and> (\<exists>t. et_timer s = Some t \<and> tm_when t \<le> pb_now b))"
proof -
  have "pb_inv (3 * length es) b"
    using pb_inv_run[OF assms(1) pb_inv_new] assms(2) by simp
  then show ?thesis by (auto simp: pb_inv_def et_inv_def)
qed

definition stalled_events :: "nat \<Rightarrow> body_event list" where
  "stalled_events d = [ReadBegin, Tick d, FireRead, ExpireRead 0]"

lemma timeouts_are_due_witness:
  "\<exists>b. pb_run (stalled_events 5) (wrapProgressTimeoutBody 0 False 5 0) = Some b
     \<and> et_timedOut (pb_read b) \<and> pb_cancels b = 1 \<and> pb_closes b = 1
     \<and> (\<exists>t. et_timer (pb_read b) = Some t \<and> tm_when t \<le> 5)"
proof -
  let ?run = "pb_run (stalled_events 5) (wrapProgressTimeoutBody 0 False 5 0)"
  have run: "map_option (\<lambda>b. (pb_now b, et_timedOut (pb_read b), pb_closes b, writeTimedOut b)) ?run = Some (5, True, 1, False)"
    by (simp add: stalled_events_def body_run_defs)
  then obtain b where b: "?run = Some b" by auto
  then have "3 * length (stalled_events 5) < 2 ^ 64" by (simp add: stalled_events_def)
  note due = timeouts_are_due[OF b this]
  have facts: "pb_now b = 5" "et_timedOut (pb_read b)" "pb_closes b = 1" "\<not> writeTimedOut b"
    using run unfolding b by simp_all
  have "pb_cancels b = 1" using conjunct1[OF due] facts by simp
  moreover have "\<exists>t. et_timer (pb_read b) = Some t \<and> tm_when t \<le> 5"
    using due[THEN conjunct2, THEN conjunct2, rule_format, of "pb_read b"] facts by simp
  ultimately show ?thesis using b facts by blast
qed

text \<open>C24. Progress postpones the timeout. After a read begins, or returns bytes without error, no
  event sequence times the read side out before the timeout has passed again since.\<close>

theorem progress_postpones_timeout:
  assumes "pb_run es (wrapProgressTimeoutBody now duplex rt wt) = Some b"
    and "e = ReadBegin \<or> (\<exists>n. e = ReadEnd (Suc n) None)"
    and "pb_run (e # fs) b = Some b'" and "3 * (length es + length fs + 1) < 2 ^ 64"
    and "\<not> et_timedOut (pb_read b)" and "\<not> et_stopped (pb_read b)"
    and "0 < rt" and "pb_now b' < timer_due (pb_now b) rt"
  shows "\<not> et_timedOut (pb_read b')"
proof
  assume out: "et_timedOut (pb_read b')"
  let ?T = "timer_due (pb_now b) rt"
  have rt: "et_timeout (pb_read b) = rt"
    using pb_run_timeout[OF assms(1)]
    by (simp add: wrapProgressTimeoutBody_def newProgressTimeoutBody_def new_epoch_timer_def Let_def)
  obtain b1 where b1: "pb_event e b = Some b1" "pb_run fs b1 = Some b'"
    using assms(3) by (auto split: option.splits)
  have armed: "pb_read b1 = arm (pb_now b) (pb_read b) \<and> pb_now b1 = pb_now b"
    using b1(1) assms(2,5) by (auto simp: pb_defs split: if_splits)
  have "et_late ?T (pb_read b1)"
    using armed assms(6,7) rt by (simp add: arm_def armLocked_def et_late_def Let_def)
  moreover have "et_timeout (pb_read b1) = rt" "pb_now b1 = pb_now b" using armed rt by simp_all
  ultimately have "et_late ?T (pb_read b')"
    using pb_run_late[OF b1(2), of ?T] by simp
  moreover have "pb_run (es @ e # fs) (wrapProgressTimeoutBody now duplex rt wt) = Some b'"
    using assms(1,3) by (simp add: pb_run_append)
  from pb_inv_run[OF this pb_inv_new] have "pb_inv (3 * length (es @ e # fs)) b'"
    using assms(4) by simp
  then obtain t where "et_timer (pb_read b') = Some t" "tm_when t \<le> pb_now b'"
    using out by (auto simp: pb_inv_def et_inv_def)
  ultimately show False
    using assms(8) by (simp add: et_late_def)
qed

lemma progress_postpones_timeout_witness:
  "\<exists>b b'. pb_run [ReadBegin, Tick 3] (wrapProgressTimeoutBody 0 False 5 0) = Some b
     \<and> pb_run [ReadEnd 1 None, Tick 4] b = Some b' \<and> pb_now b' = 7 \<and> \<not> et_timedOut (pb_read b')"
proof -
  let ?run = "pb_run [ReadBegin, Tick 3] (wrapProgressTimeoutBody 0 False 5 0)"
  have run: "map_option (\<lambda>b. (pb_now b, et_timedOut (pb_read b), et_stopped (pb_read b),
      map_option pb_now (pb_run [ReadEnd 1 None, Tick 4] b))) ?run = Some (3, False, False, Some 7)"
    by (simp add: body_run_defs)
  then obtain b b' where b: "?run = Some b" "pb_run (ReadEnd (Suc 0) None # [Tick 4]) b = Some b'"
    "pb_now b = 3" "\<not> et_timedOut (pb_read b)" "\<not> et_stopped (pb_read b)" "pb_now b' = 7"
    by (auto simp del: pb_run.simps)
  have "pb_now b' < timer_due (pb_now b) 5" by (simp add: b timer_due_def max_int64_def)
  then have "\<not> et_timedOut (pb_read b')"
    using progress_postpones_timeout[OF b(1) _ b(2) _ b(4,5)] by simp
  with b show ?thesis by auto
qed




definition refused_error :: transport_error where
  "refused_error = \<lparr>te_isCanceled = False, te_wrapsCanceled = False, te_wrapsDeadline = False,
     te_chainTimeout = False, te_netError = Some False\<rparr>"


end
