(* ===== verification/Mqtt.thy ===== *)
theory Mqtt
  imports Go_Prelude
begin

text \<open>
  The preread of an MQTT CONNECT packet, \<open>pkg/plugin/mqtt_proxy/connect.go\<close>: reading one packet from
  a connection byte by byte, and the decoder for MQTT 3.1 and 3.1.1. The MQTT 5 decoder is the Paho
  package and a parameter. A Go string is its bytes.
\<close>

unbundle bit_operations_syntax

section \<open>Errors\<close>

text \<open>\<open>ErrNeedMoreData\<close>, or \<open>ErrMalformedConnect\<close> wrapped with one of the messages of the code.\<close>

datatype malformed =
    NotConnect
  | FixedFlags
  | VarIntExceedsMax
  | VarIntTooLong
  | PacketTooLarge
  | BadProtocolName
  | BadProtocolLevel
  | InvalidUTF8
  | ReservedFlag
  | WillWithoutFlag
  | InvalidWillQoS
  | PasswordWithoutUser
  | TrailingBytes
  | UnexpectedPayload
  | WrappedError

datatype mqtt_error = NeedMoreData | Malformed malformed

definition DefaultMaxConnectPacketSize :: nat where
  "DefaultMaxConnectPacketSize = 64 * 1024"

record ConnectInfo =
  ProtocolName :: "byte list"
  ProtocolLevel :: byte
  ClientID :: "byte list"
  PacketLength :: nat

section \<open>UTF-8\<close>

text \<open>\<open>utf8.Valid\<close>: the byte sequences of the Unicode standard, without surrogates, overlong forms
  and values above 10FFFF.\<close>

definition cont_byte :: "byte \<Rightarrow> bool" where
  "cont_byte b \<longleftrightarrow> 0x80 \<le> b \<and> b \<le> 0xBF"

fun utf8_Valid :: "byte list \<Rightarrow> bool" where
  "utf8_Valid [] = True"
| "utf8_Valid (a # bs) =
     (if a < 0x80 then utf8_Valid bs
      else case bs of
        [] \<Rightarrow> False
      | b # cs \<Rightarrow>
          if 0xC2 \<le> a \<and> a \<le> 0xDF then cont_byte b \<and> utf8_Valid cs
          else case cs of
            [] \<Rightarrow> False
          | c # ds \<Rightarrow>
              if 0xE0 \<le> a \<and> a \<le> 0xEF
              then cont_byte b \<and> cont_byte c \<and> (a = 0xE0 \<longrightarrow> 0xA0 \<le> b) \<and> (a = 0xED \<longrightarrow> b \<le> 0x9F)
                 \<and> utf8_Valid ds
              else case ds of
                [] \<Rightarrow> False
              | d # es \<Rightarrow>
                  0xF0 \<le> a \<and> a \<le> 0xF4 \<and> cont_byte b \<and> cont_byte c \<and> cont_byte d
                    \<and> (a = 0xF0 \<longrightarrow> 0x90 \<le> b) \<and> (a = 0xF4 \<longrightarrow> b \<le> 0x8F) \<and> utf8_Valid es)"

definition utf8_ok :: "byte list \<Rightarrow> bool" where
  "utf8_ok value \<longleftrightarrow> 0 \<notin> set value \<and> utf8_Valid value"

definition validateMQTTUTF8 :: "byte list \<Rightarrow> (mqtt_error, unit) result" where
  "validateMQTTUTF8 value =
     (if 0 \<in> set value \<or> \<not> utf8_Valid value then Inl (Malformed InvalidUTF8) else Inr ())"

section \<open>Readers of the 3.1.1 decoder\<close>

text \<open>The loop of \<open>readVariableInteger\<close>, with \<open>left\<close> rounds to go: the value and the number of bytes.\<close>

fun readVariableInteger_from ::
  "nat \<Rightarrow> byte list \<Rightarrow> nat \<Rightarrow> nat \<Rightarrow> nat \<Rightarrow> (mqtt_error, nat \<times> nat) result" where
  "readVariableInteger_from 0 data index val multiplier = Inl (Malformed VarIntTooLong)"
| "readVariableInteger_from (Suc left) data index val multiplier =
     (if length data \<le> index then Inl NeedMoreData
      else
        let encoded = data ! index;
            val' = val + unat (encoded AND 0x7f) * multiplier
        in if val' > 268435455 then Inl (Malformed VarIntExceedsMax)
           else if encoded AND 0x80 = 0 then Inr (val', index + 1)
           else readVariableInteger_from left data (index + 1) val' (multiplier * 128))"

definition readVariableInteger :: "byte list \<Rightarrow> (mqtt_error, nat \<times> nat) result" where
  "readVariableInteger data = readVariableInteger_from 4 data 0 0 1"

text \<open>The readers return the value and the new cursor.\<close>

definition readByte :: "byte list \<Rightarrow> nat \<Rightarrow> nat \<Rightarrow> (mqtt_error, byte \<times> nat) result" where
  "readByte data cursor end = (if end \<le> cursor then Inl NeedMoreData else Inr (data ! cursor, cursor + 1))"

definition readUint16 :: "byte list \<Rightarrow> nat \<Rightarrow> nat \<Rightarrow> (mqtt_error, 16 word \<times> nat) result" where
  "readUint16 data cursor end =
     (if end - cursor < 2 then Inl NeedMoreData
      else Inr (push_bit 8 (ucast (data ! cursor)) OR ucast (data ! (cursor + 1)), cursor + 2))"

definition readUTF8 :: "byte list \<Rightarrow> nat \<Rightarrow> nat \<Rightarrow> (mqtt_error, byte list \<times> nat) result" where
  "readUTF8 data cursor end =
     res_bind (readUint16 data cursor end) (\<lambda>(length', cursor).
       if unat length' > end - cursor then Inl NeedMoreData
       else
         let val = take (unat length') (drop cursor data); cursor = cursor + unat length'
         in if 0 \<in> set val \<or> \<not> utf8_Valid val then Inl (Malformed InvalidUTF8)
            else Inr (val, cursor))"

definition skipBinary :: "byte list \<Rightarrow> nat \<Rightarrow> nat \<Rightarrow> (mqtt_error, nat) result" where
  "skipBinary data cursor end =
     res_bind (readUint16 data cursor end) (\<lambda>(length', cursor).
       if unat length' > end - cursor then Inl NeedMoreData else Inr (cursor + unat length'))"

definition validateConnectFlags :: "byte \<Rightarrow> (mqtt_error, unit) result" where
  "validateConnectFlags flags =
     (if flags AND 0x01 \<noteq> 0 then Inl (Malformed ReservedFlag)
      else
        let willFlag = (flags AND 0x04 \<noteq> 0);
            willQoS = (drop_bit 3 flags) AND 0x03;
            willRetain = (flags AND 0x20 \<noteq> 0)
        in if \<not> willFlag \<and> (willQoS \<noteq> 0 \<or> willRetain) then Inl (Malformed WillWithoutFlag)
           else if willQoS = 3 then Inl (Malformed InvalidWillQoS)
           else if flags AND 0x40 \<noteq> 0 \<and> flags AND 0x80 = 0 then Inl (Malformed PasswordWithoutUser)
           else Inr ())"

section \<open>The decoder\<close>

definition MQTT :: "byte list" where
  "MQTT = [0x4D, 0x51, 0x54, 0x54]"

text \<open>The end of the packet after the client identifier: the will, the user name and the password,
  as the flags announce them.\<close>

definition skip_options :: "byte list \<Rightarrow> byte \<Rightarrow> nat \<Rightarrow> nat \<Rightarrow> (mqtt_error, nat) result" where
  "skip_options data flags cursor end =
     res_bind (if flags AND 0x04 \<noteq> 0
               then res_bind (readUTF8 data cursor end) (\<lambda>(_, cursor). skipBinary data cursor end)
               else Inr cursor) (\<lambda>cursor.
     res_bind (if flags AND 0x80 \<noteq> 0
               then res_bind (readUTF8 data cursor end) (\<lambda>(_, cursor). Inr cursor)
               else Inr cursor) (\<lambda>cursor.
     if flags AND 0x40 \<noteq> 0 then skipBinary data cursor end else Inr cursor))"

text \<open>From the protocol name to the end of the packet.\<close>

definition parse_connect_body ::
  "byte list \<Rightarrow> byte list \<Rightarrow> int \<Rightarrow> nat \<Rightarrow> nat \<Rightarrow> (mqtt_error, ConnectInfo) result" where
  "parse_connect_body data expected expectedProtocolLevel cursor end =
     res_bind (readUTF8 data cursor end) (\<lambda>(protocolName, cursor).
     if protocolName \<noteq> expected then Inl (Malformed BadProtocolName)
     else
       res_bind (readByte data cursor end) (\<lambda>(level, cursor).
       if expectedProtocolLevel \<noteq> 0 \<and> uint level \<noteq> expectedProtocolLevel
       then Inl (Malformed BadProtocolLevel)
       else
         res_bind (readByte data cursor end) (\<lambda>(flags, cursor).
         res_bind (validateConnectFlags flags) (\<lambda>_.
         res_bind (readUint16 data cursor end) (\<lambda>(_, cursor).
         res_bind (readUTF8 data cursor end) (\<lambda>(clientID, cursor).
         res_bind (skip_options data flags cursor end) (\<lambda>cursor.
         if cursor \<noteq> end then Inl (Malformed TrailingBytes)
         else Inr \<lparr>ProtocolName = protocolName, ProtocolLevel = level, ClientID = clientID,
                   PacketLength = end\<rparr>)))))))"

definition ParseConnectPacket :: "byte list \<Rightarrow> byte list \<Rightarrow> int \<Rightarrow> (mqtt_error, ConnectInfo) result" where
  "ParseConnectPacket data expectedProtocolName expectedProtocolLevel =
     (let expected = (if expectedProtocolName = [] then MQTT else expectedProtocolName) in
      if length data < 2 then Inl NeedMoreData
      else if data ! 0 \<noteq> 0x10 then Inl (Malformed NotConnect)
      else if data ! 0 AND 0x0f \<noteq> 0 then Inl (Malformed FixedFlags)
      else
        res_bind (readVariableInteger (drop 1 data)) (\<lambda>(remaining, lengthBytes).
        let packetLength = 1 + lengthBytes + remaining in
        if packetLength > DefaultMaxConnectPacketSize then Inl (Malformed PacketTooLarge)
        else if length data < packetLength then Inl NeedMoreData
        else parse_connect_body data expected expectedProtocolLevel (1 + lengthBytes) packetLength))"

definition ClientIDOrPeer :: "ConnectInfo \<Rightarrow> byte list \<Rightarrow> byte list" where
  "ClientIDOrPeer info peer = (if ClientID info \<noteq> [] then ClientID info else peer)"

section \<open>Reading a packet from a connection\<close>

text \<open>A connection delivers its bytes and then an error, \<open>io.EOF\<close> or another one. The limited reader
  has \<open>rd_left\<close> bytes to go; \<open>rd_raw\<close> is what the tee has captured.\<close>

datatype read_error = REof | RUnexpectedEOF | ROther | RMalformed malformed

record reader =
  rd_data :: "byte list"
  rd_err :: read_error
  rd_left :: nat
  rd_raw :: "byte list"

text \<open>\<open>io.ReadFull\<close> of \<open>n\<close> bytes.\<close>

definition ReadFull :: "nat \<Rightarrow> reader \<Rightarrow> (read_error, byte list) result \<times> reader" where
  "ReadFull n rd =
     (let avail = min (length (rd_data rd)) (rd_left rd);
          k = min n avail;
          rd' = rd\<lparr>rd_data := drop k (rd_data rd), rd_left := rd_left rd - k, rd_raw := rd_raw rd @ take k (rd_data rd)\<rparr>
      in if n \<le> avail then (Inr (take n (rd_data rd)), rd')
         else let err = (if rd_left rd = avail then REof else rd_err rd)
              in (Inl (if err = REof \<and> 0 < avail then RUnexpectedEOF else err), rd'))"

definition readByteExact :: "reader \<Rightarrow> (read_error, byte) result \<times> reader" where
  "readByteExact rd =
     (case ReadFull 1 rd of (Inl e, rd) \<Rightarrow> (Inl e, rd) | (Inr val, rd) \<Rightarrow> (Inr (val ! 0), rd))"

fun readVariableIntegerFromReader_from ::
  "nat \<Rightarrow> reader \<Rightarrow> nat \<Rightarrow> nat \<Rightarrow> (read_error, nat) result \<times> reader" where
  "readVariableIntegerFromReader_from 0 rd val multiplier = (Inl (RMalformed VarIntTooLong), rd)"
| "readVariableIntegerFromReader_from (Suc left) rd val multiplier =
     (case readByteExact rd of
        (Inl e, rd) \<Rightarrow> (Inl e, rd)
      | (Inr encoded, rd) \<Rightarrow>
          let val' = val + unat (encoded AND 0x7f) * multiplier
          in if val' > 268435455 then (Inl (RMalformed VarIntExceedsMax), rd)
             else if encoded AND 0x80 = 0 then (Inr val', rd)
             else readVariableIntegerFromReader_from left rd val' (multiplier * 128))"

definition readVariableIntegerFromReader :: "reader \<Rightarrow> (read_error, nat) result \<times> reader" where
  "readVariableIntegerFromReader rd = readVariableIntegerFromReader_from 4 rd 0 1"

definition mapConnectDecodeError :: "read_error \<Rightarrow> nat \<Rightarrow> mqtt_error" where
  "mapConnectDecodeError err rawLength =
     (if rawLength > DefaultMaxConnectPacketSize then Malformed PacketTooLarge
      else if err = REof \<or> err = RUnexpectedEOF then NeedMoreData
      else Malformed WrappedError)"

text \<open>The packet read, and what the connection still holds.\<close>

definition readConnectPacketBytes ::
  "byte list \<Rightarrow> read_error \<Rightarrow> (mqtt_error, byte list) result \<times> byte list" where
  "readConnectPacketBytes data err =
     (let rd = \<lparr>rd_data = data, rd_err = err, rd_left = DefaultMaxConnectPacketSize + 1, rd_raw = []\<rparr>
      in case readByteExact rd of
        (Inl e, rd) \<Rightarrow> (Inl (mapConnectDecodeError e (length (rd_raw rd))), rd_data rd)
      | (Inr packetType, rd) \<Rightarrow>
          if packetType \<noteq> 0x10 then (Inl (Malformed NotConnect), rd_data rd)
          else case readVariableIntegerFromReader rd of
            (Inl e, rd) \<Rightarrow> (Inl (mapConnectDecodeError e (length (rd_raw rd))), rd_data rd)
          | (Inr remaining, rd) \<Rightarrow>
              if remaining > DefaultMaxConnectPacketSize then (Inl (Malformed PacketTooLarge), rd_data rd)
              else case ReadFull remaining rd of
                (Inl e, rd) \<Rightarrow> (Inl (mapConnectDecodeError e (length (rd_raw rd))), rd_data rd)
              | (Inr body, rd) \<Rightarrow> (Inr (rd_raw rd), rd_data rd))"

fun variableIntegerSize_from :: "nat \<Rightarrow> byte list \<Rightarrow> nat \<Rightarrow> nat" where
  "variableIntegerSize_from 0 data size' = length data"
| "variableIntegerSize_from (Suc left) data size' =
     (if length data \<le> size' then length data
      else if data ! size' AND 0x80 = 0 then size' + 1
      else variableIntegerSize_from left data (size' + 1))"

definition variableIntegerSize :: "byte list \<Rightarrow> nat" where
  "variableIntegerSize data = variableIntegerSize_from 4 data 0"

definition protocolLevelOf :: "byte list \<Rightarrow> (mqtt_error, byte) result" where
  "protocolLevelOf packet =
     (let body = drop (1 + variableIntegerSize (drop 1 packet)) packet
      in if length body < 3 then Inl NeedMoreData
         else
           let nameLength = or (push_bit 8 (unat (body ! 0))) (unat (body ! 1))
           in if length body < 3 + nameLength then Inl NeedMoreData
              else Inr (body ! (2 + nameLength)))"

text \<open>The Paho package: what \<open>packets.ReadPacket\<close> gives for the bytes of a packet, whether the result
  is a CONNECT with CONNECT content, and its fields; \<open>pc_Buffers\<close> is what it encodes the content to.\<close>

record paho_connect =
  pc_ProtocolName :: "byte list"
  pc_ProtocolVersion :: byte
  pc_ClientID :: "byte list"
  pc_Buffers :: "byte list list"

type_synonym paho_ReadPacket = "byte list \<Rightarrow> (read_error, bool \<times> paho_connect option) result"

definition connectBodyLength :: "paho_connect \<Rightarrow> nat" where
  "connectBodyLength connect = sum_list (map length (pc_Buffers connect))"

definition decodeConnectV5 ::
  "paho_ReadPacket \<Rightarrow> byte list \<Rightarrow> byte list \<Rightarrow> int \<Rightarrow> (mqtt_error, ConnectInfo) result" where
  "decodeConnectV5 ReadPacket packet expectedProtocolName expectedProtocolLevel =
     (case ReadPacket packet of
        Inl e \<Rightarrow> Inl (mapConnectDecodeError e (length packet))
      | Inr (is_connect, content) \<Rightarrow>
          if \<not> is_connect then Inl (Malformed NotConnect)
          else case content of
            None \<Rightarrow> Inl (Malformed UnexpectedPayload)
          | Some connect \<Rightarrow>
              let expected = (if expectedProtocolName = [] then MQTT else expectedProtocolName) in
              if pc_ProtocolName connect \<noteq> expected then Inl (Malformed BadProtocolName)
              else if expectedProtocolLevel \<noteq> 0 \<and> uint (pc_ProtocolVersion connect) \<noteq> expectedProtocolLevel
              then Inl (Malformed BadProtocolLevel)
              else
                res_bind (validateMQTTUTF8 (pc_ProtocolName connect)) (\<lambda>_.
                res_bind (validateMQTTUTF8 (pc_ClientID connect)) (\<lambda>_.
                let body = drop (1 + variableIntegerSize (drop 1 packet)) packet;
                    flagsOffset = 3 + length (pc_ProtocolName connect)
                in if length body \<le> flagsOffset then Inl NeedMoreData
                   else
                     res_bind (validateConnectFlags (body ! flagsOffset)) (\<lambda>_.
                     if connectBodyLength connect \<noteq> length body then Inl (Malformed TrailingBytes)
                     else Inr \<lparr>ProtocolName = pc_ProtocolName connect, ProtocolLevel = pc_ProtocolVersion connect,
                               ClientID = pc_ClientID connect, PacketLength = length packet\<rparr>))))"

text \<open>\<open>decodeConnect\<close>: the information, the packet, and what the connection still holds.\<close>

definition decodeConnect ::
  "paho_ReadPacket \<Rightarrow> byte list \<Rightarrow> read_error \<Rightarrow> byte list \<Rightarrow> int \<Rightarrow> (mqtt_error, ConnectInfo \<times> byte list) result \<times> byte list"
  where
  "decodeConnect ReadPacket data err expectedProtocolName expectedProtocolLevel =
     (case readConnectPacketBytes data err of
        (Inl e, rest) \<Rightarrow> (Inl e, rest)
      | (Inr packet, rest) \<Rightarrow>
          (res_bind (protocolLevelOf packet) (\<lambda>level.
           res_bind (if level = 5 then decodeConnectV5 ReadPacket packet expectedProtocolName expectedProtocolLevel
                     else ParseConnectPacket packet expectedProtocolName expectedProtocolLevel) (\<lambda>info.
           Inr (info, packet))), rest))"

section \<open>Bytes and words\<close>

lemma unat_byte: "unat (b::byte) < 256"
  using unsigned_less[where 'a = nat, of b] by simp

lemma or_disjoint: "or (256 * unat (a::byte)) (unat (b::byte)) = 256 * unat a + unat b"
proof -
  have "\<not> bit (256 * unat a) n \<or> \<not> bit (unat b) n" for n
  proof (cases "n < 8")
    case True
    have "256 * unat a = push_bit 8 (unat a)" by (simp add: push_bit_eq_mult)
    then show ?thesis using True by (simp add: bit_simps)
  next
    case False
    then have "\<not> bit b n" using bit_imp_le_length[of b n] by auto
    then show ?thesis by (simp add: bit_unsigned_iff)
  qed
  then show ?thesis by (simp add: disjunctive_add)
qed

lemma uint16_value:
  "unat (push_bit 8 (ucast (a::byte)) OR ucast (b::byte) :: 16 word) = 256 * unat a + unat b"
proof -
  have "unat (push_bit 8 (ucast a) OR ucast b :: 16 word) = take_bit 16 (push_bit 8 (take_bit 16 (unat a))) OR take_bit 16 (unat b)"
    by (simp add: unsigned_or_eq unsigned_push_bit_eq unsigned_ucast_eq)
  also have "\<dots> = (256 * unat a) OR unat b"
    using unat_byte[of a] unat_byte[of b] by (simp add: push_bit_eq_mult take_bit_eq_mod mult.commute)
  finally show ?thesis by (simp add: or_disjoint)
qed

lemma and_7f: "unat ((b::byte) AND 0x7f) = unat b mod 128"
proof -
  have "b AND 0x7f = take_bit 7 b" by (simp add: take_bit_eq_mask mask_eq_exp_minus_1)
  then have "unat (b AND 0x7f) = take_bit 7 (unat b)" by (metis unsigned_take_bit_eq)
  then show ?thesis by (simp only: take_bit_eq_mod) simp
qed

lemma and_80: "(b::byte) AND 0x80 = 0 \<longleftrightarrow> unat b < 128"
proof -
  have "b AND 0x80 = 0 \<longleftrightarrow> \<not> bit b 7"
    using and_exp_eq_0_iff_not_bit[of b 7] by simp
  also have "\<dots> \<longleftrightarrow> \<not> bit (unat b) 7" by (simp add: bit_unsigned_iff)
  also have "\<dots> \<longleftrightarrow> even (unat b div 128)" by (simp add: bit_iff_odd)
  also have "\<dots> \<longleftrightarrow> unat b < 128" 
  proof -
    have "unat b div 128 = (if unat b < 128 then 0 else 1)" using unat_byte[of b] by (auto intro: div_nat_eqI)
    then show ?thesis by simp
  qed
  finally show ?thesis .
qed
section \<open>The packet format\<close>

text \<open>A variable integer of the MQTT standard: its value, least significant group first.\<close>

fun varint :: "byte list \<Rightarrow> nat option" where
  "varint [] = None"
| "varint (b # bs) =
     (if unat b < 128 then (if bs = [] then Some (unat b) else None)
      else map_option (\<lambda>v. unat b - 128 + 128 * v) (varint bs))"

text \<open>A length-prefixed field.\<close>

definition field :: "byte list \<Rightarrow> byte list" where
  "field s = word_of_nat (length s div 256) # word_of_nat (length s mod 256) # s"

record connect =
  co_name :: "byte list"
  co_level :: byte
  co_flags :: byte
  co_keepalive :: "byte \<times> byte"
  co_client :: "byte list"
  co_will :: "byte list \<times> byte list"
  co_user :: "byte list"
  co_password :: "byte list"

definition opt_bytes :: "bool \<Rightarrow> byte list \<Rightarrow> byte list" where
  "opt_bytes present bs = (if present then bs else [])"

definition connect_options :: "connect \<Rightarrow> byte list" where
  "connect_options c =
     opt_bytes (bit (co_flags c) 2) (field (fst (co_will c)) @ field (snd (co_will c)))
     @ opt_bytes (bit (co_flags c) 7) (field (co_user c))
     @ opt_bytes (bit (co_flags c) 6) (field (co_password c))"

definition connect_body :: "connect \<Rightarrow> byte list" where
  "connect_body c =
     field (co_name c) @ [co_level c, co_flags c, fst (co_keepalive c), snd (co_keepalive c)]
     @ field (co_client c) @ connect_options c"

text \<open>The flags the standard allows: bit 0 clear; quality of service and retain only with a will, and
  no quality 3; a password only with a user name.\<close>

definition flags_ok :: "byte \<Rightarrow> bool" where
  "flags_ok f \<longleftrightarrow> \<not> bit f 0
     \<and> (\<not> bit f 2 \<longrightarrow> \<not> bit f 3 \<and> \<not> bit f 4 \<and> \<not> bit f 5)
     \<and> \<not> (bit f 3 \<and> bit f 4) \<and> (bit f 6 \<longrightarrow> bit f 7)"

definition text_ok :: "byte list \<Rightarrow> bool" where
  "text_ok s \<longleftrightarrow> length s < 65536 \<and> utf8_ok s"

definition connect_ok :: "connect \<Rightarrow> bool" where
  "connect_ok c \<longleftrightarrow> flags_ok (co_flags c) \<and> text_ok (co_name c) \<and> text_ok (co_client c)
     \<and> (bit (co_flags c) 2 \<longrightarrow> text_ok (fst (co_will c)) \<and> length (snd (co_will c)) < 65536)
     \<and> (bit (co_flags c) 7 \<longrightarrow> text_ok (co_user c))
     \<and> (bit (co_flags c) 6 \<longrightarrow> length (co_password c) < 65536)"

lemma length_field [simp]: "length (field s) = length s + 2"
  by (simp add: field_def)

text \<open>What is left to read at a cursor.\<close>

definition unread :: "byte list \<Rightarrow> nat \<Rightarrow> nat \<Rightarrow> byte list" where
  "unread data c e = drop c (take e data)"

lemma length_unread: "e \<le> length data \<Longrightarrow> length (unread data c e) = e - c"
  by (simp add: unread_def)

lemma take_unread: "c + n \<le> e \<Longrightarrow> take n (unread data c e) = take n (drop c data)"
  by (simp add: unread_def take_drop min_def add.commute)

lemma drop_unread: "drop n (unread data c e) = unread data (c + n) e"
  by (simp add: unread_def add.commute)

lemma unread_split:
  assumes "e \<le> length data" and "c + length xs \<le> e"
  shows "unread data c e = xs @ ys \<longleftrightarrow> take (length xs) (drop c data) = xs \<and> unread data (c + length xs) e = ys"
  using take_unread[OF assms(2), of data] drop_unread[of "length xs" data c e]
  by (metis append_eq_conv_conj append_take_drop_id)

lemma readByte_iff:
  assumes "e \<le> length data"
  shows "readByte data c e = Inr (b, c') \<longleftrightarrow> c < e \<and> c' = c + 1 \<and> unread data c e = b # unread data c' e"
    and "readByte data c e \<noteq> Inl (Malformed m)"
  using assms by (auto simp: readByte_def unread_def Cons_nth_drop_Suc[symmetric])

lemma uint16_read:
  assumes "e \<le> length data" and "\<not> e - c < 2"
  shows "unread data c e = data ! c # data ! (c + 1) # unread data (c + 2) e"
proof -
  have "drop c (take e data) = take e data ! c # take e data ! Suc c # drop (Suc (Suc c)) (take e data)"
    using assms Cons_nth_drop_Suc[of c "take e data"] Cons_nth_drop_Suc[of "Suc c" "take e data"]
    by simp
  then show ?thesis using assms by (simp add: unread_def)
qed

text \<open>A length-prefixed field is read exactly when one is there.\<close>

lemma field_cons:
  assumes "length s = 256 * unat (a::byte) + unat (b::byte)"
  shows "field s = a # b # s"
proof -
  have "length s div 256 = unat a" "length s mod 256 = unat b"
    using assms unat_byte[of b] by simp_all
  then show ?thesis by (simp add: field_def)
qed

lemma field_length:
  assumes "length s < 65536" and "field s = a # b # s"
  shows "length s = 256 * unat a + unat b"
proof -
  have "unat (word_of_nat (length s div 256) :: byte) = length s div 256"
    "unat (word_of_nat (length s mod 256) :: byte) = length s mod 256"
    using assms(1) by (simp_all add: unat_of_nat less_mult_imp_div_less)
  then show ?thesis using assms(2) by (auto simp: field_def)
qed

lemma field_read:
  assumes e: "e \<le> length data" and "\<not> e - c < 2" and n: "n = 256 * unat (data ! c) + unat (data ! (c + 1))"
  shows "(unread data c e = field s @ unread data (c + 2 + length s) e \<and> c + 2 + length s \<le> e \<and> length s < 65536)
     \<longleftrightarrow> (n \<le> e - (c + 2) \<and> s = take n (drop (c + 2) data))"
    (is "?L \<longleftrightarrow> ?R")
proof
  let ?a = "data ! c" and ?b = "data ! (c + 1)"
  have head: "unread data c e = ?a # ?b # unread data (c + 2) e"
    using uint16_read assms by simp
  {
    assume L: ?L
    with head have fs: "?a # ?b # unread data (c + 2) e = field s @ unread data (c + 2 + length s) e" by simp
    then have fab: "field s = ?a # ?b # s" by (simp add: field_def)
    then have "length s = n" using field_length L n by blast
    moreover have "unread data (c + 2) e = s @ unread data (c + 2 + length s) e"
      using fs fab by simp
    then have "take (length s) (drop (c + 2) data) = s"
      using unread_split[OF e, of "c + 2" s "unread data (c + 2 + length s) e"] L by simp
    ultimately show ?R using L by auto
  }
  {
    assume R: ?R
    then have len: "length s = n" using e assms(2) by auto
    then have fab: "field s = ?a # ?b # s" using field_cons n by blast
    have "unread data (c + 2) e = s @ unread data (c + 2 + length s) e"
      using unread_split[OF e, of "c + 2" s "unread data (c + 2 + length s) e"] R len assms(2) by auto
    moreover have "n < 65536" using unat_byte[of ?a] unat_byte[of ?b] n by simp
    ultimately show ?L using head fab R len assms(2) by auto
  }
qed

lemma readUint16_iff:
  assumes "e \<le> length data"
  shows "readUint16 data c e = Inr (v, c') \<Longrightarrow> c' = c + 2 \<and> c' \<le> e
      \<and> unat v = 256 * unat (data ! c) + unat (data ! (c + 1)) \<and> unread data c e = data ! c # data ! (c + 1) # unread data c' e"
    and "readUint16 data c e = Inl x \<longleftrightarrow> x = NeedMoreData \<and> e - c < 2"
  using assms uint16_read[OF assms, of c] by (auto simp: readUint16_def uint16_value split: if_splits)

lemma readUTF8_iff:
  assumes "e \<le> length data"
  shows "readUTF8 data c e = Inr (s, c') \<longleftrightarrow>
     c' = c + 2 + length s \<and> c' \<le> e \<and> unread data c e = field s @ unread data c' e \<and> text_ok s"
proof (cases "e - c < 2")
  case True
  then have "readUTF8 data c e = Inl NeedMoreData"
    by (simp add: readUTF8_def readUint16_def)
  then show ?thesis using True by auto
next
  case False
  let ?n = "256 * unat (data ! c) + unat (data ! (c + 1))"
  have "readUTF8 data c e = Inr (s, c') \<longleftrightarrow>
      ?n \<le> e - (c + 2) \<and> s = take ?n (drop (c + 2) data) \<and> c' = c + 2 + ?n \<and> utf8_ok s"
    using False by (auto simp: readUTF8_def readUint16_def uint16_value Let_def utf8_ok_def)
  also have "\<dots> \<longleftrightarrow> c' = c + 2 + length s \<and> utf8_ok s \<and> ?n \<le> e - (c + 2) \<and> s = take ?n (drop (c + 2) data)"
    using assms False by auto
  finally show ?thesis
    using field_read[OF assms False refl, of s] by (auto simp: text_ok_def)
qed

lemma skipBinary_iff:
  assumes "e \<le> length data"
  shows "skipBinary data c e = Inr c' \<longleftrightarrow>
     (\<exists>s. c' = c + 2 + length s \<and> c' \<le> e \<and> unread data c e = field s @ unread data c' e \<and> length s < 65536)"
proof (cases "e - c < 2")
  case True
  then have "skipBinary data c e = Inl NeedMoreData"
    by (simp add: skipBinary_def readUint16_def)
  then show ?thesis using True by auto
next
  case False
  let ?n = "256 * unat (data ! c) + unat (data ! (c + 1))"
  have "skipBinary data c e = Inr c' \<longleftrightarrow> ?n \<le> e - (c + 2) \<and> c' = c + 2 + ?n"
    using False by (auto simp: skipBinary_def readUint16_def uint16_value Let_def)
  also have "\<dots> \<longleftrightarrow> (\<exists>s. c' = c + 2 + length s \<and> ?n \<le> e - (c + 2) \<and> s = take ?n (drop (c + 2) data))"
    using assms False by auto
  finally show ?thesis
    using field_read[OF assms False refl] by blast
qed

text \<open>The readers on a known prefix.\<close>

lemma unread_append:
  assumes "e \<le> length data" and "c \<le> e" and "unread data c e = xs @ ys"
  shows "c + length xs \<le> e \<and> unread data (c + length xs) e = ys"
proof -
  have "length (xs @ ys) = e - c" using length_unread[OF assms(1), of c] assms(3) by simp
  then have "c + length xs \<le> e" using assms(2) by simp
  with unread_split[OF assms(1)] assms(3) show ?thesis by blast
qed

lemma readUTF8_prefix:
  assumes "e \<le> length data" and "c \<le> e" and "unread data c e = field s @ ys" and "text_ok s"
  shows "readUTF8 data c e = Inr (s, c + 2 + length s) \<and> c + 2 + length s \<le> e \<and> unread data (c + 2 + length s) e = ys"
  using unread_append[OF assms(1-3)] assms(3,4) readUTF8_iff[OF assms(1), of c s] by (simp add: add.commute add.left_commute)

lemma skipBinary_prefix:
  assumes "e \<le> length data" and "c \<le> e" and "unread data c e = field s @ ys" and "length s < 65536"
  shows "skipBinary data c e = Inr (c + 2 + length s) \<and> c + 2 + length s \<le> e \<and> unread data (c + 2 + length s) e = ys"
proof -
  have "c + 2 + length s \<le> e \<and> unread data (c + 2 + length s) e = ys"
    using unread_append[OF assms(1-3)] by (simp add: add.commute add.left_commute)
  then show ?thesis
    using assms(3,4) skipBinary_iff[OF assms(1), of c "c + 2 + length s"] by auto
qed

section \<open>Flags and variable integers\<close>

lemma and_bit_0: "(f::byte) AND 2 ^ n = 0 \<longleftrightarrow> \<not> bit f n"
  by (rule and_exp_eq_0_iff_not_bit)

lemmas flag_bits = and_bit_0[of _ 0, simplified] and_bit_0[of _ 2, simplified] and_bit_0[of _ 5, simplified]
  and_bit_0[of _ 6, simplified] and_bit_0[of _ 7, simplified]

lemma qos_bits:
  "drop_bit 3 (f::byte) AND 3 = 0 \<longleftrightarrow> \<not> bit f 3 \<and> \<not> bit f 4"
  "drop_bit 3 (f::byte) AND 3 = 3 \<longleftrightarrow> bit f 3 \<and> bit f 4"
proof -
  have three: "bit (3::byte) n \<longleftrightarrow> n < 2" for n
    using bit_mask_iff[of 2 n, where 'a = "byte"] by (auto simp: mask_eq_exp_minus_1)
  have bits: "bit (drop_bit 3 f AND 3) n \<longleftrightarrow> n < 2 \<and> bit f (3 + n)" for n
    unfolding bit_and_iff bit_drop_bit_eq three comp_def by auto
  have all2: "(\<forall>n<2::nat. Q n) \<longleftrightarrow> Q 0 \<and> Q 1" for Q by (auto simp: less_2_cases_iff)
  have "drop_bit 3 f AND 3 = 0 \<longleftrightarrow> (\<forall>n<2. \<not> bit f (3 + n))"
    "drop_bit 3 f AND 3 = 3 \<longleftrightarrow> (\<forall>n<2. bit f (3 + n))"
    unfolding bit_eq_iff bits three
    by (auto, metis less_le_trans numeral_le_iff semiring_norm(68,69,71))
  then show "drop_bit 3 f AND 3 = 0 \<longleftrightarrow> \<not> bit f 3 \<and> \<not> bit f 4"
    "drop_bit 3 f AND 3 = 3 \<longleftrightarrow> bit f 3 \<and> bit f 4" by (simp_all add: all2)
qed

lemma validateConnectFlags_iff: "validateConnectFlags f = Inr u \<longleftrightarrow> flags_ok f"
  by (auto simp: validateConnectFlags_def flags_ok_def flag_bits qos_bits Let_def)

lemma readVariableInteger_from_iff:
  assumes "val < multiplier" and "multiplier * 128 ^ left \<le> 268435456"
  shows "readVariableInteger_from left data index val multiplier = Inr (v, k) \<longleftrightarrow>
     (\<exists>bs ys w. drop index data = bs @ ys \<and> varint bs = Some w \<and> length bs \<le> left
        \<and> v = val + w * multiplier \<and> k = index + length bs)"
  using assms
proof (induction left arbitrary: index val multiplier)
  case 0
  have "varint bs = Some w \<Longrightarrow> bs \<noteq> []" for bs w by auto
  then show ?case by auto
next
  case (Suc left)
  show ?case
  proof (cases "index < length data")
    case False
    then show ?thesis by auto
  next
    case True
    let ?b = "data ! index"
    let ?v = "val + unat ?b mod 128 * multiplier"
    have data: "drop index data = ?b # drop (Suc index) data"
      using True Cons_nth_drop_Suc by metis
    have "unat ?b mod 128 * multiplier \<le> 127 * multiplier" by (intro mult_right_mono) auto
    then have v: "?v < multiplier * 128" using Suc.prems(1) by linarith
    have m: "multiplier * 128 * 128 ^ left \<le> 268435456" using Suc.prems(2) by (simp add: mult.assoc)
    then have "multiplier * 128 \<le> 268435456" by (rule order_trans[rotated]) simp
    with v have small: "\<not> ?v > 268435455" by linarith
    show ?thesis
    proof (cases "unat ?b < 128")
      case True
      then have "readVariableInteger_from (Suc left) data index val multiplier = Inr (v, k) \<longleftrightarrow>
          v = val + unat ?b * multiplier \<and> k = Suc index"
        using \<open>index < length data\<close> small by (auto simp: and_7f and_80 Let_def)
      also have "\<dots> \<longleftrightarrow> (\<exists>bs ys w. ?b # drop (Suc index) data = bs @ ys \<and> varint bs = Some w
          \<and> length bs \<le> Suc left \<and> v = val + w * multiplier \<and> k = index + length bs)"
        (is "?L \<longleftrightarrow> ?R")
      proof
        assume ?L
        then have "?b # drop (Suc index) data = [?b] @ drop (Suc index) data \<and> varint [?b] = Some (unat ?b)
            \<and> length [?b] \<le> Suc left \<and> v = val + unat ?b * multiplier \<and> k = index + length [?b]"
          using True by simp
        then show ?R by (intro exI)
      next
        assume ?R
        then show ?L using True by (auto simp: Cons_eq_append_conv split: if_splits)
      qed
      finally show ?thesis unfolding data .
    next
      case False
      have b: "unat ?b mod 128 = unat ?b - 128"
        using False unat_byte[of ?b] by (simp add: mod_if)
      have "readVariableInteger_from (Suc left) data index val multiplier = Inr (v, k) \<longleftrightarrow>
          readVariableInteger_from left data (Suc index) ?v (multiplier * 128) = Inr (v, k)"
        using \<open>index < length data\<close> small False by (simp add: and_7f and_80 Let_def)
      also have "\<dots> \<longleftrightarrow> (\<exists>bs ys w. drop (Suc index) data = bs @ ys \<and> varint bs = Some w \<and> length bs \<le> left
          \<and> v = ?v + w * (multiplier * 128) \<and> k = Suc index + length bs)"
        by (rule Suc.IH[OF v m])
      also have "\<dots> \<longleftrightarrow> (\<exists>bs ys w. drop (Suc index) data = bs @ ys \<and> varint (?b # bs) = Some w
          \<and> length (?b # bs) \<le> Suc left \<and> v = val + w * multiplier \<and> k = index + length (?b # bs))"
      proof -
        have V: "varint (?b # bs) = Some w \<longleftrightarrow> (\<exists>u. varint bs = Some u \<and> w = unat ?b - 128 + 128 * u)" for bs w
          using False by auto
        have A: "?v + u * (multiplier * 128) = val + (unat ?b - 128 + 128 * u) * multiplier" for u
          unfolding b by (simp add: add_mult_distrib)
        show ?thesis
          unfolding V A length_Cons Suc_le_mono add_Suc_right add_Suc by blast
      qed
      also have "\<dots> \<longleftrightarrow> (\<exists>bs ys w. drop index data = bs @ ys \<and> varint bs = Some w \<and> length bs \<le> Suc left
          \<and> v = val + w * multiplier \<and> k = index + length bs)"
        (is "?L \<longleftrightarrow> ?R")
      proof
        assume ?L
        then show ?R unfolding data by (metis append_Cons)
      next
        assume ?R
        then obtain bs ys w where bs: "?b # drop (Suc index) data = bs @ ys" "varint bs = Some w"
          "length bs \<le> Suc left" "v = val + w * multiplier" "k = index + length bs" unfolding data by blast
        then obtain bs' where "bs = ?b # bs'" "drop (Suc index) data = bs' @ ys" by (cases bs) auto
        with bs show ?L by blast
      qed
      finally show ?thesis .
    qed
  qed
qed

lemma readVariableInteger_iff:
  "readVariableInteger data = Inr (v, k) \<longleftrightarrow>
     (\<exists>bs ys. data = bs @ ys \<and> varint bs = Some v \<and> length bs \<le> 4 \<and> k = length bs)"
  using readVariableInteger_from_iff[of 0 1 4 data 0 v k] by (auto simp: readVariableInteger_def)

section \<open>The decoder reads exactly the format\<close>

text \<open>Between two cursors lie the bytes \<open>bs\<close>.\<close>

definition reads :: "byte list \<Rightarrow> nat \<Rightarrow> nat \<Rightarrow> byte list \<Rightarrow> nat \<Rightarrow> bool" where
  "reads data e c bs c' \<longleftrightarrow> e \<le> length data \<and> c' \<le> e \<and> c' = c + length bs \<and> take (length bs) (drop c data) = bs"

lemma reads_unread:
  "e \<le> length data \<Longrightarrow> reads data e c bs c' \<longleftrightarrow> c' = c + length bs \<and> c' \<le> e \<and> unread data c e = bs @ unread data c' e"
  using unread_split[of e data c bs "unread data c' e"] by (auto simp: reads_def)

lemma reads_Nil: "reads data e c [] c' \<longleftrightarrow> e \<le> length data \<and> c \<le> e \<and> c' = c"
  by (auto simp: reads_def)

lemma reads_append:
  "reads data e c (xs @ ys) c2 \<longleftrightarrow> (\<exists>c1. reads data e c xs c1 \<and> reads data e c1 ys c2)"
  by (auto simp: reads_def take_add add.commute append_eq_append_conv)

lemma reads_length: "reads data e c bs c' \<Longrightarrow> e \<le> length data \<and> c' \<le> e \<and> c' = c + length bs"
  by (simp add: reads_def)

lemma readers_iff:
  assumes "e \<le> length data"
  shows "readUTF8 data c e = Inr (s, c') \<longleftrightarrow> reads data e c (field s) c' \<and> text_ok s"
    and "skipBinary data c e = Inr c' \<longleftrightarrow> (\<exists>s. reads data e c (field s) c' \<and> length s < 65536)"
    and "readByte data c e = Inr (b, c') \<longleftrightarrow> reads data e c [b] c'"
    and "(\<exists>v. readUint16 data c e = Inr (v, c')) \<longleftrightarrow> (\<exists>k1 k2. reads data e c [k1, k2] c')"
proof -
  have len: "c + length (field s) = c + 2 + length s" for s by simp
  show "readUTF8 data c e = Inr (s, c') \<longleftrightarrow> reads data e c (field s) c' \<and> text_ok s"
    unfolding readUTF8_iff[OF assms] reads_unread[OF assms] len by blast
  show "skipBinary data c e = Inr c' \<longleftrightarrow> (\<exists>s. reads data e c (field s) c' \<and> length s < 65536)"
    unfolding skipBinary_iff[OF assms] reads_unread[OF assms] len by blast
  show "readByte data c e = Inr (b, c') \<longleftrightarrow> reads data e c [b] c'"
    unfolding readByte_iff(1)[OF assms] reads_unread[OF assms] by auto
  have "(\<exists>v. readUint16 data c e = Inr (v, c')) \<longleftrightarrow> \<not> e - c < 2 \<and> c' = c + 2"
    by (auto simp: readUint16_def)
  also have "\<dots> \<longleftrightarrow> (\<exists>k1 k2. reads data e c [k1, k2] c')"
  proof
    assume *: "\<not> e - c < 2 \<and> c' = c + 2"
    then have "reads data e c [data ! c, data ! (c + 1)] c'"
      unfolding reads_unread[OF assms] using uint16_read[OF assms, of c] by auto
    then show "\<exists>k1 k2. reads data e c [k1, k2] c'" by blast
  qed (auto simp: reads_def)
  finally show "(\<exists>v. readUint16 data c e = Inr (v, c')) \<longleftrightarrow> (\<exists>k1 k2. reads data e c [k1, k2] c')" .
qed

lemma skip_options_iff:
  assumes e: "e \<le> length data" and "c \<le> e"
  shows "skip_options data f c e = Inr c' \<longleftrightarrow>
    (\<exists>t m u p. (bit f 2 \<longrightarrow> text_ok t \<and> length m < 65536) \<and> (bit f 7 \<longrightarrow> text_ok u) \<and> (bit f 6 \<longrightarrow> length p < 65536)
       \<and> reads data e c (opt_bytes (bit f 2) (field t @ field m) @ opt_bytes (bit f 7) (field u)
            @ opt_bytes (bit f 6) (field p)) c')"
proof -
  have will: "(if bit f 2 then res_bind (readUTF8 data c e) (\<lambda>(_, c). skipBinary data c e) else Inr c) = Inr c1 \<longleftrightarrow>
      (\<exists>t m. (bit f 2 \<longrightarrow> text_ok t \<and> length m < 65536) \<and> reads data e c (opt_bytes (bit f 2) (field t @ field m)) c1)" for c1
    using assms by (auto simp: res_bind_Inr_iff readers_iff opt_bytes_def reads_append reads_Nil dest: reads_length)
  have user: "(if bit f 7 then res_bind (readUTF8 data c1 e) (\<lambda>(_, c). Inr c) else Inr c1) = Inr c2 \<longleftrightarrow>
      (\<exists>u. (bit f 7 \<longrightarrow> text_ok u) \<and> reads data e c1 (opt_bytes (bit f 7) (field u)) c2)" if "c1 \<le> e" for c1 c2
    using e that by (auto simp: res_bind_Inr_iff readers_iff opt_bytes_def reads_Nil)
  have pass: "(if bit f 6 then skipBinary data c2 e else Inr c2) = Inr c' \<longleftrightarrow>
      (\<exists>p. (bit f 6 \<longrightarrow> length p < 65536) \<and> reads data e c2 (opt_bytes (bit f 6) (field p)) c')" if "c2 \<le> e" for c2
    using e that by (auto simp: readers_iff opt_bytes_def reads_Nil)
  have "skip_options data f c e = Inr c' \<longleftrightarrow>
     (\<exists>c1 c2. (if bit f 2 then res_bind (readUTF8 data c e) (\<lambda>(_, c). skipBinary data c e) else Inr c) = Inr c1
        \<and> (if bit f 7 then res_bind (readUTF8 data c1 e) (\<lambda>(_, c). Inr c) else Inr c1) = Inr c2
        \<and> (if bit f 6 then skipBinary data c2 e else Inr c2) = Inr c')"
    unfolding skip_options_def flag_bits not_not by (auto simp: res_bind_Inr_iff)
  also have "\<dots> \<longleftrightarrow> (\<exists>c1 c2 t m u p. (bit f 2 \<longrightarrow> text_ok t \<and> length m < 65536) \<and> (bit f 7 \<longrightarrow> text_ok u)
        \<and> (bit f 6 \<longrightarrow> length p < 65536) \<and> reads data e c (opt_bytes (bit f 2) (field t @ field m)) c1
        \<and> reads data e c1 (opt_bytes (bit f 7) (field u)) c2 \<and> reads data e c2 (opt_bytes (bit f 6) (field p)) c')"
    (is "?L \<longleftrightarrow> ?R")
  proof
    assume ?L
    then obtain c1 c2 t m where c1: "bit f 2 \<longrightarrow> text_ok t \<and> length m < 65536"
      "reads data e c (opt_bytes (bit f 2) (field t @ field m)) c1"
      and rest: "(if bit f 7 then res_bind (readUTF8 data c1 e) (\<lambda>(_, c). Inr c) else Inr c1) = Inr c2"
      "(if bit f 6 then skipBinary data c2 e else Inr c2) = Inr c'" unfolding will by blast
    then obtain u where u: "bit f 7 \<longrightarrow> text_ok u" "reads data e c1 (opt_bytes (bit f 7) (field u)) c2"
      using user[of c1 c2] reads_length by blast
    then have "c2 \<le> e" using reads_length by blast
    from pass[OF this] rest(2) c1 u show ?R by blast
  next
    assume ?R
    then obtain c1 c2 t m u p where c: "bit f 2 \<longrightarrow> text_ok t \<and> length m < 65536" "bit f 7 \<longrightarrow> text_ok u"
      "bit f 6 \<longrightarrow> length p < 65536" "reads data e c (opt_bytes (bit f 2) (field t @ field m)) c1"
      "reads data e c1 (opt_bytes (bit f 7) (field u)) c2" "reads data e c2 (opt_bytes (bit f 6) (field p)) c'" by blast
    then have "c1 \<le> e" "c2 \<le> e" using reads_length by blast+
    with c show ?L unfolding will using user pass by blast
  qed
  finally show ?thesis
    unfolding reads_append by blast
qed

lemma parse_connect_body_iff:
  assumes e: "e \<le> length data"
  shows "parse_connect_body data expected lvl c e = Inr info \<longleftrightarrow>
    (\<exists>co. connect_ok co \<and> co_name co = expected \<and> (lvl \<noteq> 0 \<longrightarrow> uint (co_level co) = lvl)
       \<and> reads data e c (connect_body co) e
       \<and> info = \<lparr>ProtocolName = co_name co, ProtocolLevel = co_level co, ClientID = co_client co, PacketLength = e\<rparr>)"
    (is "?L \<longleftrightarrow> (\<exists>co. ?R co)")
proof
  assume ?L
  then obtain name c1 level c2 f c3 v c4 client c5 where
    read: "readUTF8 data c e = Inr (name, c1)" "readByte data c1 e = Inr (level, c2)"
      "readByte data c2 e = Inr (f, c3)" "validateConnectFlags f = Inr ()" "readUint16 data c3 e = Inr (v, c4)"
      "readUTF8 data c4 e = Inr (client, c5)" "skip_options data f c5 e = Inr e"
    and info: "name = expected" "lvl \<noteq> 0 \<longrightarrow> uint level = lvl"
      "info = \<lparr>ProtocolName = name, ProtocolLevel = level, ClientID = client, PacketLength = e\<rparr>"
    unfolding parse_connect_body_def by (auto simp: res_bind_Inr_iff split: if_splits)
  obtain k1 k2 where k: "reads data e c3 [k1, k2] c4"
    using read(5) readers_iff(4)[OF e] by blast
  have r: "reads data e c (field name) c1" "text_ok name" "reads data e c1 [level] c2" "reads data e c2 [f] c3"
    "reads data e c4 (field client) c5" "text_ok client"
    using read(1-3,6) by (simp_all add: readers_iff[OF e])
  then have "c5 \<le> e" using reads_length by blast
  with read(7) obtain t m u p where opts: "bit f 2 \<longrightarrow> text_ok t \<and> length m < 65536" "bit f 7 \<longrightarrow> text_ok u"
    "bit f 6 \<longrightarrow> length p < 65536"
    "reads data e c5 (opt_bytes (bit f 2) (field t @ field m) @ opt_bytes (bit f 7) (field u) @ opt_bytes (bit f 6) (field p)) e"
    using skip_options_iff[OF e] by blast
  let ?co = "\<lparr>co_name = name, co_level = level, co_flags = f, co_keepalive = (k1, k2), co_client = client,
    co_will = (t, m), co_user = u, co_password = p\<rparr>"
  have "reads data e c (connect_body ?co) e"
  proof -
    have "[level, f, k1, k2] = [level] @ [f] @ [k1, k2]" by simp
    then show ?thesis
      unfolding connect_body_def connect_options_def reads_append using r k opts(4)
      by (simp only: connect.simps fst_conv snd_conv reads_append) blast
  qed
  moreover have "connect_ok ?co"
    using read(4) r opts by (simp add: connect_ok_def validateConnectFlags_iff)
  ultimately have "?R ?co" using info by simp
  then show "\<exists>co. ?R co" by blast
next
  assume "\<exists>co. ?R co"
  then obtain co where co: "connect_ok co" "co_name co = expected" "lvl \<noteq> 0 \<longrightarrow> uint (co_level co) = lvl"
    "reads data e c (connect_body co) e"
    "info = \<lparr>ProtocolName = co_name co, ProtocolLevel = co_level co, ClientID = co_client co, PacketLength = e\<rparr>" by blast
  obtain k1 k2 where k: "co_keepalive co = (k1, k2)" by fastforce
  have split: "[co_level co, co_flags co, k1, k2] = [co_level co] @ [co_flags co] @ [k1, k2]" by simp
  obtain c1 c2 c3 c4 c5 where r: "reads data e c (field (co_name co)) c1" "reads data e c1 [co_level co] c2"
    "reads data e c2 [co_flags co] c3" "reads data e c3 [k1, k2] c4" "reads data e c4 (field (co_client co)) c5"
    "reads data e c5 (connect_options co) e"
    using co(4) unfolding connect_body_def k fst_conv snd_conv split reads_append by blast
  then obtain v where v: "readUint16 data c3 e = Inr (v, c4)"
    using readers_iff(4)[OF e] by blast
  have "c5 \<le> e" using r(5) reads_length by blast
  then have "skip_options data (co_flags co) c5 e = Inr e"
    using skip_options_iff[OF e] r(6) co(1) unfolding connect_options_def connect_ok_def by blast
  moreover have "readUTF8 data c e = Inr (co_name co, c1)" "readUTF8 data c4 e = Inr (co_client co, c5)"
    "readByte data c1 e = Inr (co_level co, c2)" "readByte data c2 e = Inr (co_flags co, c3)"
    "validateConnectFlags (co_flags co) = Inr ()"
    using r co(1) by (simp_all add: readers_iff[OF e] connect_ok_def validateConnectFlags_iff)
  ultimately show ?L
    using co(2,3,5) v unfolding parse_connect_body_def by auto
qed

text \<open>The head of the packet: its length is a variable integer, and the packet ends within the data.\<close>

definition packet_head :: "byte list \<Rightarrow> byte list \<Rightarrow> nat \<Rightarrow> bool" where
  "packet_head lenb body n \<longleftrightarrow> varint lenb = Some (length body) \<and> length lenb \<le> 4 \<and> n = 1 + length lenb + length body"

lemma ParseConnectPacket_head:
  "ParseConnectPacket data name lvl = Inr info \<longleftrightarrow>
     (\<exists>lenb body rest. data = 0x10 # lenb @ body @ rest \<and> packet_head lenb body (1 + length lenb + length body)
        \<and> 1 + length lenb + length body \<le> DefaultMaxConnectPacketSize
        \<and> parse_connect_body data (if name = [] then MQTT else name) lvl (1 + length lenb) (1 + length lenb + length body) = Inr info)"
    (is "?L \<longleftrightarrow> ?R")
proof
  assume L: ?L
  then obtain rem lb where head: "2 \<le> length data" "data ! 0 = 0x10" "readVariableInteger (drop 1 data) = Inr (rem, lb)"
    "1 + lb + rem \<le> DefaultMaxConnectPacketSize" "1 + lb + rem \<le> length data"
    "parse_connect_body data (if name = [] then MQTT else name) lvl (1 + lb) (1 + lb + rem) = Inr info"
    unfolding ParseConnectPacket_def Let_def
    by (auto simp: res_bind_Inr_iff not_less simp del: One_nat_def split: if_splits)
  then obtain lenb ys where bs: "drop 1 data = lenb @ ys" "varint lenb = Some rem" "length lenb \<le> 4" "lb = length lenb"
    unfolding readVariableInteger_iff by blast
  have data: "data = 0x10 # lenb @ ys" using head(1,2) bs(1) by (cases data) auto
  then have len: "length (take rem ys) = rem" using head(5) bs(4) by simp
  have "data = 0x10 # lenb @ take rem ys @ drop rem ys" using data by simp
  moreover have "packet_head lenb (take rem ys) (1 + length lenb + rem)"
    using bs len by (simp add: packet_head_def)
  ultimately show ?R
    using head(4,6) len bs(4) by (metis)
next
  assume ?R
  then obtain lenb body rest where data: "data = 0x10 # lenb @ body @ rest"
    and head: "varint lenb = Some (length body)" "length lenb \<le> 4"
      "1 + length lenb + length body \<le> DefaultMaxConnectPacketSize"
    and parsed: "parse_connect_body data (if name = [] then MQTT else name) lvl (1 + length lenb) (1 + length lenb + length body) = Inr info"
    unfolding packet_head_def by blast
  have "lenb \<noteq> []" using head(1) by auto
  moreover have "readVariableInteger (drop 1 data) = Inr (length body, length lenb)"
    unfolding readVariableInteger_iff using data head by auto
  ultimately show ?L
    using data head(3) parsed by (cases lenb) (auto simp: ParseConnectPacket_def Let_def)
qed

lemma reads_body:
  "reads (0x10 # lenb @ body @ rest) (1 + length lenb + length body) (1 + length lenb) bs (1 + length lenb + length body)
   \<longleftrightarrow> bs = body"
  by (auto simp: reads_def)

lemma parse_body_rest:
  "parse_connect_body (0x10 # lenb @ body @ rest) expected lvl (1 + length lenb) (1 + length lenb + length body) = Inr info
   \<longleftrightarrow> parse_connect_body (0x10 # lenb @ body @ rest') expected lvl (1 + length lenb) (1 + length lenb + length body) = Inr info"
proof -
  have len: "1 + length lenb + length body \<le> length (0x10 # lenb @ body @ r)" for r :: "byte list" by simp
  show ?thesis unfolding parse_connect_body_iff[OF len] reads_body ..
qed

lemma parse_packetI:
  assumes "packet_head lenb body n" and "n \<le> DefaultMaxConnectPacketSize"
    and "parse_connect_body (0x10 # lenb @ body @ rest') (if name = [] then MQTT else name) lvl (1 + length lenb)
      (1 + length lenb + length body) = Inr info"
  shows "ParseConnectPacket (0x10 # lenb @ body @ rest) name lvl = Inr info"
proof -
  have n: "n = 1 + length lenb + length body" using assms(1) by (simp add: packet_head_def)
  have "parse_connect_body (0x10 # lenb @ body @ rest) (if name = [] then MQTT else name) lvl (1 + length lenb)
      (1 + length lenb + length body) = Inr info"
    using assms(3) parse_body_rest by blast
  with assms(1,2) show ?thesis unfolding ParseConnectPacket_head n by blast
qed

section \<open>Reading is incremental\<close>

lemma readVariableInteger_from_take:
  assumes "readVariableInteger_from left data index val multiplier = Inr (v, n)"
  shows "readVariableInteger_from left (take p data) index val multiplier =
     (if n \<le> p then Inr (v, n) else Inl NeedMoreData) \<and> index < n"
  using assms
proof (induction left arbitrary: index val multiplier)
  case (Suc left)
  show ?case
  proof (cases "index < p")
    case True
    then show ?thesis
      using Suc.prems Suc.IH[of "index + 1"] by (auto simp: Let_def split: if_splits dest: Suc_lessD)
  next
    case False
    then have "index < n"
      using Suc.prems Suc.IH[of "index + 1"] by (auto simp: Let_def split: if_splits dest: Suc_lessD)
    with False show ?thesis by auto
  qed
qed simp

section \<open>The reader on a connection\<close>

text \<open>Every operation moves bytes from the connection to the capture, within the limit.\<close>

definition rd_kept :: "reader \<Rightarrow> reader \<Rightarrow> bool" where
  "rd_kept rd rd' \<longleftrightarrow> rd_raw rd' @ rd_data rd' = rd_raw rd @ rd_data rd
     \<and> length (rd_raw rd') + rd_left rd' = length (rd_raw rd) + rd_left rd \<and> length (rd_raw rd) \<le> length (rd_raw rd')"

lemma rd_kept_trans: "rd_kept a b \<Longrightarrow> rd_kept b c \<Longrightarrow> rd_kept a c"
  by (simp add: rd_kept_def)

lemma ReadFull_kept: "rd_kept rd (snd (ReadFull n rd))"
  by (simp add: ReadFull_def Let_def rd_kept_def)

lemma readByteExact_kept: "rd_kept rd (snd (readByteExact rd))"
  using ReadFull_kept[of rd 1] by (auto simp: readByteExact_def split: prod.splits sum.splits)

lemma readVariableIntegerFromReader_kept:
  "rd_kept rd (snd (readVariableIntegerFromReader_from left rd val multiplier))"
proof (induction left arbitrary: rd val multiplier)
  case 0
  then show ?case by (simp add: rd_kept_def)
next
  case (Suc left)
  obtain r rd' where r: "readByteExact rd = (r, rd')" by fastforce
  have kept: "rd_kept rd rd'" using readByteExact_kept[of rd] r by simp
  then show ?case
    using r rd_kept_trans[OF kept Suc.IH] by (auto simp: Let_def split: sum.splits)
qed

definition advance :: "nat \<Rightarrow> reader \<Rightarrow> reader" where
  "advance k rd = rd\<lparr>rd_data := drop k (rd_data rd), rd_left := rd_left rd - k, rd_raw := rd_raw rd @ take k (rd_data rd)\<rparr>"

lemma advance_add: "advance j (advance k rd) = advance (k + j) rd"
  by (simp add: advance_def take_add) (simp add: add.commute)

lemma ReadFull_enough:
  "n \<le> length (rd_data rd) \<Longrightarrow> n \<le> rd_left rd \<Longrightarrow> ReadFull n rd = (Inr (take n (rd_data rd)), advance n rd)"
  by (simp add: ReadFull_def advance_def Let_def min_def)

lemma readByteExact_enough:
  "rd_data rd = b # ds \<Longrightarrow> 0 < rd_left rd \<Longrightarrow> readByteExact rd = (Inr b, advance 1 rd)"
  by (simp add: readByteExact_def ReadFull_enough)

lemma readVariableIntegerFromReader_enough:
  assumes "rd_data rd = bs @ ys" and "varint bs = Some w" and "length bs \<le> left" and "length bs \<le> rd_left rd"
    and "val < multiplier" and "multiplier * 128 ^ left \<le> 268435456"
  shows "readVariableIntegerFromReader_from left rd val multiplier = (Inr (val + w * multiplier), advance (length bs) rd)"
  using assms
proof (induction bs arbitrary: left rd val multiplier w)
  case (Cons b bs)
  then obtain left' where left: "left = Suc left'" by (cases left) auto
  have byte: "readByteExact rd = (Inr b, advance 1 rd)"
    using Cons.prems(1,4) by (intro readByteExact_enough[of _ _ "bs @ ys"]) auto
  let ?v = "val + unat b mod 128 * multiplier"
  have "unat b mod 128 * multiplier \<le> 127 * multiplier" by (intro mult_right_mono) auto
  then have v: "?v < multiplier * 128" using Cons.prems(5) by linarith
  have m: "multiplier * 128 * 128 ^ left' \<le> 268435456" using Cons.prems(6) left by (simp add: mult.assoc)
  then have "multiplier * 128 \<le> 268435456" by (rule order_trans[rotated]) simp
  with v have small: "\<not> ?v > 268435455" by linarith
  show ?case
  proof (cases "unat b < 128")
    case True
    then show ?thesis
      using Cons.prems(2) byte small left by (simp add: and_7f and_80 Let_def split: if_splits)
  next
    case False
    then obtain u where u: "varint bs = Some u" "w = unat b - 128 + 128 * u"
      using Cons.prems(2) by auto
    have b: "unat b mod 128 = unat b - 128" using False unat_byte[of b] by (simp add: mod_if)
    have "readVariableIntegerFromReader_from left' (advance 1 rd) ?v (multiplier * 128) =
        (Inr (?v + u * (multiplier * 128)), advance (length bs) (advance 1 rd))"
      using Cons.prems(1,3,4) left u(1) v m by (intro Cons.IH) (auto simp: advance_def)
    moreover have "?v + u * (multiplier * 128) = val + w * multiplier"
      unfolding b u(2) by (simp add: add_mult_distrib)
    ultimately show ?thesis
      using byte small left False by (simp add: and_7f and_80 Let_def advance_add)
  qed
qed simp

lemma readConnectPacketBytes_enough:
  assumes "packet_head lenb body n" and "n \<le> DefaultMaxConnectPacketSize + 1" and "length body \<le> DefaultMaxConnectPacketSize"
  shows "readConnectPacketBytes (0x10 # lenb @ body @ rest) err = (Inr (0x10 # lenb @ body), rest)"
proof -
  let ?data = "0x10 # lenb @ body @ rest"
  let ?rd = "\<lparr>rd_data = ?data, rd_err = err, rd_left = DefaultMaxConnectPacketSize + 1, rd_raw = []\<rparr>"
  have byte: "readByteExact ?rd = (Inr 0x10, advance 1 ?rd)"
    by (rule readByteExact_enough) auto
  have var: "readVariableIntegerFromReader (advance 1 ?rd) = (Inr (length body), advance (length lenb) (advance 1 ?rd))"
    unfolding readVariableIntegerFromReader_def
    using readVariableIntegerFromReader_enough[of "advance 1 ?rd" lenb "body @ rest" "length body" 4 0 1] assms
    by (simp add: packet_head_def advance_def)
  have full: "ReadFull (length body) (advance (length lenb) (advance 1 ?rd)) =
      (Inr body, advance (length body) (advance (length lenb) (advance 1 ?rd)))"
    using ReadFull_enough[of "length body" "advance (length lenb) (advance 1 ?rd)"] assms
    by (simp add: packet_head_def advance_def)
  show ?thesis
    unfolding readConnectPacketBytes_def Let_def
    using byte var full assms(3) by (simp add: advance_def)
qed

lemma readConnectPacketBytes_Inr:
  assumes "readConnectPacketBytes data err = (Inr packet, rest)"
  shows "data = packet @ rest \<and> length packet \<le> DefaultMaxConnectPacketSize + 1"
proof -
  let ?rd = "\<lparr>rd_data = data, rd_err = err, rd_left = DefaultMaxConnectPacketSize + 1, rd_raw = []\<rparr>"
  obtain b rd1 n rd2 body rd3 where r: "readByteExact ?rd = (Inr b, rd1)"
    "readVariableIntegerFromReader rd1 = (Inr n, rd2)" "ReadFull n rd2 = (Inr body, rd3)"
    and packet: "packet = rd_raw rd3" "rest = rd_data rd3"
    using assms unfolding readConnectPacketBytes_def Let_def by (auto split: prod.splits sum.splits if_splits)
  have "rd_kept ?rd rd3"
    using readByteExact_kept[of ?rd] readVariableIntegerFromReader_kept[of rd1 4 0 1] ReadFull_kept[of rd2 n] r
    unfolding readVariableIntegerFromReader_def by (auto intro: rd_kept_trans)
  then show ?thesis using packet by (auto simp: rd_kept_def)
qed

lemma variableIntegerSize_varint:
  "varint bs = Some w \<Longrightarrow> length bs \<le> left \<Longrightarrow> variableIntegerSize_from left (pre @ bs @ ys) (length pre) = length pre + length bs"
proof (induction bs arbitrary: left pre w)
  case (Cons b bs)
  then obtain left' where "left = Suc left'" by (cases left) auto
  then show ?case
    using Cons.prems Cons.IH[of _ left' "pre @ [b]"]
    by (auto simp: and_80 nth_append split: if_splits)
qed simp

lemma protocolLevelOf_packet:
  assumes "packet_head lenb (connect_body co) n" and "length (co_name co) < 65536"
  shows "protocolLevelOf (0x10 # lenb @ connect_body co) = Inr (co_level co)"
proof -
  let ?body = "connect_body co" and ?name = "co_name co"
  have "variableIntegerSize (lenb @ ?body) = length lenb"
    using variableIntegerSize_varint[of lenb _ 4 "[]" ?body] assms(1)
    by (simp add: variableIntegerSize_def packet_head_def)
  then have body: "drop (1 + variableIntegerSize (drop 1 (0x10 # lenb @ ?body))) (0x10 # lenb @ ?body) = ?body" by simp
  obtain a b where ab: "field ?name = a # b # ?name" by (simp add: field_def)
  then have "length ?name = 256 * unat a + unat b" using field_length assms(2) by blast
  then have name: "or (push_bit 8 (unat a)) (unat b) = length ?name"
    using or_disjoint[of a b] by (simp add: push_bit_eq_mult mult.commute)
  have "?body ! 0 = a" "?body ! 1 = b" "3 + length ?name \<le> length ?body" "?body ! (2 + length ?name) = co_level co"
    by (simp_all add: connect_body_def ab nth_append)
  then show ?thesis
    unfolding protocolLevelOf_def Let_def body by (simp add: name)
qed

section \<open>Properties\<close>

text \<open>C27. The decoder accepts exactly the packets of the format. \<open>ParseConnectPacket\<close> returns a result
  for data exactly when the data starts with the CONNECT byte, a variable integer of at most four
  bytes and a well-formed CONNECT body of that length, within the size limit and with the expected
  protocol name and level; it then returns the name, level and client identifier of that body.\<close>

theorem parse_connect_exact:
  "ParseConnectPacket data name lvl = Inr info \<longleftrightarrow>
     (\<exists>co lenb rest. data = 0x10 # lenb @ connect_body co @ rest
        \<and> packet_head lenb (connect_body co) (PacketLength info) \<and> PacketLength info \<le> DefaultMaxConnectPacketSize
        \<and> connect_ok co \<and> co_name co = (if name = [] then MQTT else name)
        \<and> (if lvl = 0 then True else uint (co_level co) = lvl)
        \<and> ProtocolName info = co_name co \<and> ProtocolLevel info = co_level co \<and> ClientID info = co_client co)"
    (is "?L \<longleftrightarrow> ?R")
proof
  assume ?L
  then obtain lenb body rest where data: "data = 0x10 # lenb @ body @ rest"
    "packet_head lenb body (1 + length lenb + length body)" "1 + length lenb + length body \<le> DefaultMaxConnectPacketSize"
    and parsed: "parse_connect_body data (if name = [] then MQTT else name) lvl (1 + length lenb) (1 + length lenb + length body) = Inr info"
    unfolding ParseConnectPacket_head by blast
  have len: "1 + length lenb + length body \<le> length data" using data(1) by simp
  obtain co where "connect_ok co" "co_name co = (if name = [] then MQTT else name)" "lvl \<noteq> 0 \<longrightarrow> uint (co_level co) = lvl"
    "connect_body co = body"
    "info = \<lparr>ProtocolName = co_name co, ProtocolLevel = co_level co, ClientID = co_client co, PacketLength = 1 + length lenb + length body\<rparr>"
    using parsed unfolding parse_connect_body_iff[OF len] reads_body[of lenb body rest, folded data(1)] by blast
  with data show ?R by (intro exI[of _ co] exI[of _ lenb] exI[of _ rest]) auto
next
  assume ?R
  then obtain co lenb rest where data: "data = 0x10 # lenb @ connect_body co @ rest"
    and head: "packet_head lenb (connect_body co) (PacketLength info)" "PacketLength info \<le> DefaultMaxConnectPacketSize"
    and co: "connect_ok co" "co_name co = (if name = [] then MQTT else name)" "if lvl = 0 then True else uint (co_level co) = lvl"
      "ProtocolName info = co_name co" "ProtocolLevel info = co_level co" "ClientID info = co_client co" by blast
  have n: "PacketLength info = 1 + length lenb + length (connect_body co)" using head(1) by (simp add: packet_head_def)
  then have len: "PacketLength info \<le> length data" using data by simp
  have "parse_connect_body data (if name = [] then MQTT else name) lvl (1 + length lenb) (PacketLength info) = Inr info"
    unfolding parse_connect_body_iff[OF len] using co n reads_body[of lenb "connect_body co" rest, folded data]
    by (intro exI[of _ co]) (auto split: if_splits)
  with data head show ?L
    unfolding ParseConnectPacket_head n by blast
qed

definition demo_connect :: connect where
  "demo_connect = \<lparr>co_name = MQTT, co_level = 4, co_flags = 2, co_keepalive = (0, 60), co_client = [0x61],
     co_will = ([], []), co_user = [], co_password = []\<rparr>"

definition demo_packet :: "byte list" where
  "demo_packet = [0x10, 13, 0, 4, 0x4D, 0x51, 0x54, 0x54, 4, 2, 0, 60, 0, 1, 0x61]"

definition demo_info :: ConnectInfo where
  "demo_info = \<lparr>ProtocolName = MQTT, ProtocolLevel = 4, ClientID = [0x61], PacketLength = 15\<rparr>"

lemma demo_packet: "demo_packet = 0x10 # [13] @ connect_body demo_connect @ []"
  and demo_head: "packet_head [13] (connect_body demo_connect) 15"
  and demo_ok: "connect_ok demo_connect"
  by (simp_all add: demo_packet_def demo_connect_def connect_body_def connect_options_def opt_bytes_def field_def MQTT_def
      packet_head_def connect_ok_def flags_ok_def text_ok_def utf8_ok_def bit_numeral_rec)

lemma demo_parsed: "ParseConnectPacket (demo_packet @ rest) [] 4 = Inr demo_info"
proof -
  let ?body = "connect_body demo_connect"
  have n: "1 + length [13 :: byte] + length ?body = 15" using demo_head by (simp add: packet_head_def)
  have data: "demo_packet @ rest = 0x10 # [13] @ ?body @ rest" by (simp add: demo_packet)
  have len: "15 \<le> length (demo_packet @ rest)" by (simp add: demo_packet_def)
  have "reads (demo_packet @ rest) 15 (1 + length [13 :: byte]) ?body 15"
    using reads_body[of "[13]" ?body rest ?body, unfolded n] unfolding data by simp
  moreover have "co_name demo_connect = MQTT" "uint (co_level demo_connect) = 4"
    "demo_info = \<lparr>ProtocolName = co_name demo_connect, ProtocolLevel = co_level demo_connect,
       ClientID = co_client demo_connect, PacketLength = 15\<rparr>"
    by (simp_all add: demo_connect_def demo_info_def)
  ultimately have "parse_connect_body (demo_packet @ rest) MQTT 4 (1 + length [13 :: byte]) 15 = Inr demo_info"
    unfolding parse_connect_body_iff[OF len] using demo_ok by blast
  then have body: "parse_connect_body (0x10 # [13] @ ?body @ rest) MQTT 4 (1 + length [13 :: byte])
      (1 + length [13 :: byte] + length ?body) = Inr demo_info"
    unfolding data n .
  show ?thesis
    unfolding data by (rule parse_packetI[OF demo_head, of rest]) (use body in \<open>simp_all add: DefaultMaxConnectPacketSize_def\<close>)
qed

text \<open>C28. The decoder works on incomplete input. When it accepts data, it reports \<open>ErrNeedMoreData\<close> for
  every prefix shorter than the packet, and gives the same result for the packet alone.\<close>

theorem parse_connect_incremental:
  assumes "ParseConnectPacket data name lvl = Inr info"
  shows "(k < PacketLength info \<longrightarrow> ParseConnectPacket (take k data) name lvl = Inl NeedMoreData)
    \<and> ParseConnectPacket (take (PacketLength info) data @ extra) name lvl = Inr info"
proof -
  obtain lenb body rest where data: "data = 0x10 # lenb @ body @ rest"
    and head: "packet_head lenb body (1 + length lenb + length body)"
      "1 + length lenb + length body \<le> DefaultMaxConnectPacketSize"
    and parsed: "parse_connect_body data (if name = [] then MQTT else name) lvl (1 + length lenb) (1 + length lenb + length body) = Inr info"
    using assms unfolding ParseConnectPacket_head by blast
  let ?n = "1 + length lenb + length body"
  have len: "?n \<le> length data" using data by simp
  have n: "PacketLength info = ?n"
    using parsed unfolding parse_connect_body_iff[OF len] by auto
  have var: "readVariableInteger (drop 1 data) = Inr (length body, length lenb)"
    unfolding readVariableInteger_iff using data head(1) by (auto simp: packet_head_def)
  have short: "ParseConnectPacket (take k data) name lvl = Inl NeedMoreData" if k: "k < PacketLength info"
  proof (cases "k < 2")
    case True
    then have "length (take k data) < 2" by auto
    then show ?thesis unfolding ParseConnectPacket_def Let_def by (rule if_P)
  next
    case False
    then have short: "\<not> length (take k data) < 2" "take k data ! 0 = 0x10" "length (take k data) = k"
      using k n len data by auto
    have "readVariableInteger (drop 1 (take k data)) =
        (if length lenb \<le> k - 1 then Inr (length body, length lenb) else Inl NeedMoreData)"
      using readVariableInteger_from_take[of 4 "drop 1 data" 0 0 1 "length body" "length lenb" "k - 1"] var
      by (simp add: readVariableInteger_def drop_take)
    then show ?thesis
      using short k head(2) n by (auto simp: ParseConnectPacket_def Let_def)
  qed
  have "take (PacketLength info) data @ extra = 0x10 # lenb @ body @ extra"
    using n data by simp
  then have "ParseConnectPacket (take (PacketLength info) data @ extra) name lvl = Inr info"
    using parse_packetI[OF head, of rest name lvl info extra] parsed data by simp
  with short show ?thesis by blast
qed

lemma parse_connect_incremental_witness:
  "ParseConnectPacket (take 14 demo_packet) [] 4 = Inl NeedMoreData
   \<and> ParseConnectPacket (take 15 demo_packet @ [0x30]) [] 4 = Inr demo_info"
  using parse_connect_incremental[OF demo_parsed[of "[]"], of 14 "[0x30]"] by (simp add: demo_info_def)



text \<open>The reader itself lets one byte more than the limit pass.\<close>

lemma connect_limit_plus_one:
  "\<exists>packet. length packet = DefaultMaxConnectPacketSize + 1 \<and> readConnectPacketBytes packet REof = (Inr packet, [])"
proof -
  let ?lenb = "[0xFD, 0xFF, 0x03] :: byte list" and ?body = "replicate 65533 0 :: byte list"
  have "packet_head ?lenb ?body 65537" by (simp add: packet_head_def)
  from readConnectPacketBytes_enough[OF this, of "[]" REof]
  have "readConnectPacketBytes (0x10 # ?lenb @ ?body) REof = (Inr (0x10 # ?lenb @ ?body), [])"
    by (simp add: DefaultMaxConnectPacketSize_def del: replicate.simps)
  moreover have "length (0x10 # ?lenb @ ?body) = DefaultMaxConnectPacketSize + 1"
    by (simp add: DefaultMaxConnectPacketSize_def)
  ultimately show ?thesis by blast
qed

end
