(* ===== verification/Mqtt_Stream.thy ===== *)
theory Mqtt_Stream
  imports Mqtt "HOL-Library.Sublist"
begin

text \<open>
  Serving one MQTT connection, \<open>pkg/plugin/mqtt_proxy/stream.go\<close>: the preread of CONNECT, the choice of
  the upstream and the replay of the packet. The pump between the connections, which then copies
  both directions, belongs to another package and starts with the bytes left unread here.
\<close>

section \<open>Serving a stream\<close>

text \<open>\<open>writeStreamBytes\<close> of \<open>pkg/plugin/mqtt_proxy/stream.go\<close>. The connection's \<open>Write\<close> is the environment:
  the count and whether an error is returned, for the \<open>k\<close>-th call. Slicing past the end panics.\<close>

datatype write_error = DeadlineError | WriteFailed | ShortWrite | SlicePanic | ClearDeadline

function write_loop ::
  "(nat \<Rightarrow> byte list \<Rightarrow> nat \<times> bool) \<Rightarrow> nat \<Rightarrow> byte list \<Rightarrow> byte list \<Rightarrow> (write_error, nat) result \<times> byte list" where
  "write_loop wr k payload sent =
     (if payload = [] then (Inr k, sent)
      else case wr k payload of (written, failed) \<Rightarrow>
        if failed then (Inl WriteFailed, sent @ take written payload)
        else if written = 0 then (Inl ShortWrite, sent)
        else if length payload < written then (Inl SlicePanic, sent @ payload)
        else write_loop wr (k + 1) (drop written payload) (sent @ take written payload))"
  by pat_completeness auto
termination
  by (relation "measure (\<lambda>(wr, k, payload, sent). length payload)") auto

declare write_loop.simps [simp del]

definition writeStreamBytes ::
  "bool \<Rightarrow> bool \<Rightarrow> (nat \<Rightarrow> byte list \<Rightarrow> nat \<times> bool) \<Rightarrow> byte list \<Rightarrow> (write_error, unit) result \<times> byte list" where
  "writeStreamBytes set_ok clear_ok wr payload =
     (if \<not> set_ok then (Inl DeadlineError, [])
      else case write_loop wr 0 payload [] of
        (Inl e, sent) \<Rightarrow> (Inl e, sent)
      | (Inr _, sent) \<Rightarrow> (if \<not> clear_ok then Inl ClearDeadline else Inr (), sent))"

text \<open>What the environment of \<open>ServeStreamWithIdle\<close> does: whether the arguments are nil, the context's
  error before and after, the connection and its deadlines, the dialer, and the upstream's writes.\<close>

datatype dial_result = DialFailed | DialNil | DialOk

record stream_env =
  se_client_nil :: bool
  se_dial_nil :: bool
  se_ctx_done :: bool
  se_ctx_done_later :: bool
  se_deadline_ok :: bool
  se_clear_ok :: bool
  se_data :: "byte list"
  se_err :: read_error
  se_dial :: "byte list \<Rightarrow> dial_result"
  se_write :: "nat \<Rightarrow> byte list \<Rightarrow> nat \<times> bool"
  se_write_deadline_ok :: bool
  se_write_clear_ok :: bool

datatype stream_error =
    ClientNil
  | DialerNil
  | ContextError
  | ReadDeadlineError
  | ClearReadDeadlineError
  | ConnectError mqtt_error
  | DialError
  | UpstreamNil
  | ReplayError write_error

text \<open>The outcome: the error or the client identifier used for the upstream, whether the client was
  closed before returning, the upstream's bytes before the pump, and the bytes left for the pump.\<close>

record stream_outcome =
  so_result :: "(stream_error, byte list) result"
  so_client_closed :: bool
  so_upstream_closed :: bool
  so_sent :: "byte list"
  so_rest :: "byte list"

definition stream_failure :: "stream_error \<Rightarrow> bool \<Rightarrow> byte list \<Rightarrow> byte list \<Rightarrow> stream_outcome" where
  "stream_failure e upstream sent rest =
     \<lparr>so_result = Inl e, so_client_closed = True, so_upstream_closed = upstream, so_sent = sent, so_rest = rest\<rparr>"

definition readConnectFromStream ::
  "paho_ReadPacket \<Rightarrow> stream_env \<Rightarrow> byte list \<Rightarrow> int \<Rightarrow> (stream_error, byte list \<times> ConnectInfo) result \<times> byte list" where
  "readConnectFromStream ReadPacket env protocolName protocolLevel =
     (if \<not> se_deadline_ok env then (Inl ReadDeadlineError, se_data env)
      else case decodeConnect ReadPacket (se_data env) (se_err env) protocolName protocolLevel of
        (Inl e, rest) \<Rightarrow> (Inl (if se_ctx_done_later env then ContextError else ConnectError e), rest)
      | (Inr (info, raw), rest) \<Rightarrow>
          if \<not> se_clear_ok env then (Inl ClearReadDeadlineError, rest) else (Inr (raw, info), rest))"

definition ServeStreamWithIdle ::
  "paho_ReadPacket \<Rightarrow> stream_env \<Rightarrow> byte list \<Rightarrow> byte list \<Rightarrow> int \<Rightarrow> stream_outcome" where
  "ServeStreamWithIdle ReadPacket env peer protocolName protocolLevel =
     (if se_client_nil env
      then \<lparr>so_result = Inl ClientNil, so_client_closed = False, so_upstream_closed = False, so_sent = [],
             so_rest = se_data env\<rparr>
      else if se_dial_nil env then stream_failure DialerNil False [] (se_data env)
      else if se_ctx_done env then stream_failure ContextError False [] (se_data env)
      else case readConnectFromStream ReadPacket env protocolName protocolLevel of
        (Inl e, rest) \<Rightarrow> stream_failure e False [] rest
      | (Inr (preread, connectInfo), rest) \<Rightarrow>
          let clientID = ClientIDOrPeer connectInfo peer
          in case se_dial env clientID of
               DialFailed \<Rightarrow> stream_failure (if se_ctx_done_later env then ContextError else DialError) False [] rest
             | DialNil \<Rightarrow> stream_failure UpstreamNil False [] rest
             | DialOk \<Rightarrow>
                 (case writeStreamBytes (se_write_deadline_ok env) (se_write_clear_ok env) (se_write env) preread of
                    (Inl e, sent) \<Rightarrow>
                      stream_failure (if se_ctx_done_later env then ContextError else ReplayError e) True sent rest
                  | (Inr _, sent) \<Rightarrow>
                      \<lparr>so_result = Inr clientID, so_client_closed = False, so_upstream_closed = False,
                       so_sent = sent, so_rest = rest\<rparr>))"

lemma decodeConnect_split:
  "decodeConnect ReadPacket data err name lvl = (Inr (info, packet), rest) \<Longrightarrow> data = packet @ rest"
  using readConnectPacketBytes_Inr
  by (fastforce simp: decodeConnect_def res_bind_Inr_iff split: prod.splits sum.splits)

lemma write_loop_spec:
  "write_loop wr k payload sent = (r, out) \<Longrightarrow>
     (\<exists>part. out = sent @ part \<and> prefix part payload)
     \<and> (\<forall>k'. r = Inr k' \<longrightarrow> out = sent @ payload \<and> k' \<le> k + length payload)"
proof (induction wr k payload sent arbitrary: r out rule: write_loop.induct)
  case (1 wr k payload sent)
  show ?case
  proof (cases "payload = []")
    case True
    then show ?thesis using "1.prems" write_loop.simps[of wr k "[]" sent] by auto
  next
    case False
    obtain n failed where w: "wr k payload = (n, failed)" by fastforce
    show ?thesis
    proof (cases "failed \<or> n = 0 \<or> length payload < n")
      case True
      with "1.prems" False w show ?thesis
        by (auto simp: write_loop.simps[of wr k payload] split: if_splits intro: take_is_prefix)
    next
      case more: False
      then have "write_loop wr (k + 1) (drop n payload) (sent @ take n payload) = (r, out)"
        using "1.prems" False w by (simp add: write_loop.simps[of wr k payload])
      from "1.IH"[OF False w[symmetric] _ _ _ this] more
      obtain part where part: "out = (sent @ take n payload) @ part" "prefix part (drop n payload)"
        and all: "\<forall>k'. r = Inr k' \<longrightarrow> out = (sent @ take n payload) @ drop n payload \<and> k' \<le> k + 1 + length (drop n payload)"
        by auto
      have "prefix (take n payload @ part) payload"
        using part(2) by (metis append_take_drop_id same_prefix_prefix)
      then have "\<exists>part. out = sent @ part \<and> prefix part payload" using part(1) by auto
      moreover have "\<forall>k'. r = Inr k' \<longrightarrow> out = sent @ payload \<and> k' \<le> k + length payload"
        using all more by auto
      ultimately show ?thesis by blast
    qed
  qed
qed

text \<open>C30. A served stream is replayed exactly. \<open>writeStreamBytes\<close> ends after at most one write per byte.
  When a stream is served, the upstream has received exactly the CONNECT packet, and the packet and
  what is left for the pump are together what the client sent; the upstream was chosen with the
  client identifier, or with the peer when it is empty. On every error the client is closed, except
  when there is none, and the upstream has received a prefix of the client's bytes.\<close>

theorem serve_stream_replays:
  assumes "out = ServeStreamWithIdle ReadPacket env peer name lvl"
  shows "(\<forall>clientID. so_result out = Inr clientID \<longrightarrow> \<not> so_client_closed out
        \<and> so_sent out @ so_rest out = se_data env
        \<and> (\<exists>info. decodeConnect ReadPacket (se_data env) (se_err env) name lvl = (Inr (info, so_sent out), so_rest out)
             \<and> clientID = (if ClientID info = [] then peer else ClientID info)))
    \<and> (\<forall>e. so_result out = Inl e \<longrightarrow> (so_client_closed out \<longleftrightarrow> e \<noteq> ClientNil) \<and> prefix (so_sent out) (se_data env))
    \<and> (\<forall>calls sent. write_loop wr 0 payload [] = (Inr calls, sent) \<longrightarrow> sent = payload \<and> calls \<le> length payload)"
proof -
  have written: "(r = Inr u \<longrightarrow> sent = payload) \<and> prefix sent payload"
    if "writeStreamBytes a b w payload = (r, sent)" for a b w r u sent payload
  proof -
    obtain r' out where loop: "write_loop w 0 payload [] = (r', out)" by fastforce
    have "prefix out payload" using write_loop_spec[OF loop] by auto
    then show ?thesis
      using that write_loop_spec[OF loop] loop
      by (auto simp: writeStreamBytes_def split: if_splits sum.splits)
  qed
  have decoded: "se_data env = packet @ rest"
    if "decodeConnect ReadPacket (se_data env) (se_err env) name lvl = (Inr (info, packet), rest)" for info packet rest
    using decodeConnect_split[OF that] .
  have loop: "sent = payload \<and> calls \<le> length payload" if "write_loop wr 0 payload [] = (Inr calls, sent)" for calls sent
    using write_loop_spec[OF that] by auto
  let ?P = "\<lambda>out. (\<forall>clientID. so_result out = Inr clientID \<longrightarrow> \<not> so_client_closed out
        \<and> so_sent out @ so_rest out = se_data env
        \<and> (\<exists>info. decodeConnect ReadPacket (se_data env) (se_err env) name lvl = (Inr (info, so_sent out), so_rest out)
             \<and> clientID = (if ClientID info = [] then peer else ClientID info)))
    \<and> (\<forall>e. so_result out = Inl e \<longrightarrow> (so_client_closed out \<longleftrightarrow> e \<noteq> ClientNil) \<and> prefix (so_sent out) (se_data env))"
  have failure: "?P (stream_failure e up sent rest)" if "e \<noteq> ClientNil" "prefix sent (se_data env)" for e up sent rest
    using that by (simp add: stream_failure_def)
  have "?P out"
  proof (cases "se_client_nil env \<or> se_dial_nil env \<or> se_ctx_done env")
    case True
    then show ?thesis
      unfolding assms ServeStreamWithIdle_def by (auto simp: stream_failure_def)
  next
    case False
    obtain r rest where read: "readConnectFromStream ReadPacket env name lvl = (r, rest)" by fastforce
    show ?thesis
    proof (cases r)
      case (Inl e)
      then have "e \<noteq> ClientNil"
        using read by (auto simp: readConnectFromStream_def split: if_splits prod.splits sum.splits)
      with Inl False read failure[of e "[]"] show ?thesis
        unfolding assms ServeStreamWithIdle_def by simp
    next
      case (Inr pi)
      obtain preread info where pi: "pi = (preread, info)" by fastforce
      have dec: "decodeConnect ReadPacket (se_data env) (se_err env) name lvl = (Inr (info, preread), rest)"
        using read Inr pi by (auto simp: readConnectFromStream_def split: if_splits prod.splits sum.splits)
      let ?id = "ClientIDOrPeer info peer"
      obtain w sent where w: "writeStreamBytes (se_write_deadline_ok env) (se_write_clear_ok env) (se_write env) preread = (w, sent)"
        by fastforce
      have sent: "prefix sent (se_data env)" "w = Inr () \<Longrightarrow> sent = preread"
        using written[OF w, of "()"] decoded[OF dec] by (auto intro: prefix_order.trans)
      have out: "out = (case se_dial env ?id of
            DialFailed \<Rightarrow> stream_failure (if se_ctx_done_later env then ContextError else DialError) False [] rest
          | DialNil \<Rightarrow> stream_failure UpstreamNil False [] rest
          | DialOk \<Rightarrow> (case w of
              Inl e \<Rightarrow> stream_failure (if se_ctx_done_later env then ContextError else ReplayError e) True sent rest
            | Inr _ \<Rightarrow> \<lparr>so_result = Inr ?id, so_client_closed = False, so_upstream_closed = False, so_sent = sent, so_rest = rest\<rparr>))"
        using False read Inr pi w unfolding assms ServeStreamWithIdle_def
        by (cases "se_dial env ?id"; cases w) (simp_all add: Let_def)
      show ?thesis
      proof (cases "se_dial env ?id = DialOk \<and> (\<exists>u. w = Inr u)")
        case True
        then have "out = \<lparr>so_result = Inr ?id, so_client_closed = False, so_upstream_closed = False, so_sent = preread, so_rest = rest\<rparr>"
          using out sent(2) by auto
        then show ?thesis using dec decoded[OF dec] by (simp add: ClientIDOrPeer_def)
      next
        case False
        then obtain e up s where e: "out = stream_failure e up s rest" "e \<noteq> ClientNil" "s = [] \<or> s = sent"
          using out by (cases "se_dial env ?id"; cases w) auto
        then have "prefix s (se_data env)" using sent(1) by auto
        from failure[OF e(2) this] show ?thesis unfolding e(1) .
      qed
    qed
  qed
  then show ?thesis using loop by blast
qed

lemma demo_decoded: "decodeConnect ReadPacket (demo_packet @ rest) err [] 4 = (Inr (demo_info, demo_packet), rest)"
proof -
  have "readConnectPacketBytes (demo_packet @ rest) err = (Inr demo_packet, rest)"
    using readConnectPacketBytes_enough[OF demo_head, of rest err] demo_head
    by (simp add: demo_packet packet_head_def DefaultMaxConnectPacketSize_def)
  moreover have "protocolLevelOf demo_packet = Inr 4"
    using protocolLevelOf_packet[OF demo_head] by (simp add: demo_packet demo_connect_def MQTT_def)
  ultimately show ?thesis
    using demo_parsed[of "[]"] by (simp add: decodeConnect_def)
qed

definition demo_stream :: stream_env where
  "demo_stream =
     \<lparr>se_client_nil = False, se_dial_nil = False, se_ctx_done = False, se_ctx_done_later = False,
      se_deadline_ok = True, se_clear_ok = True, se_data = demo_packet @ [0x30, 0], se_err = REof,
      se_dial = (\<lambda>_. DialOk), se_write = (\<lambda>_ p. (length p, False)), se_write_deadline_ok = True,
      se_write_clear_ok = True\<rparr>"

lemma serve_stream_replays_witness:
  "so_result (ServeStreamWithIdle (\<lambda>_. Inl ROther) demo_stream [] [] 4) = Inr [0x61]
   \<and> so_sent (ServeStreamWithIdle (\<lambda>_. Inl ROther) demo_stream [] [] 4)
       @ so_rest (ServeStreamWithIdle (\<lambda>_. Inl ROther) demo_stream [] [] 4) = demo_packet @ [0x30, 0]"
proof -
  let ?out = "ServeStreamWithIdle (\<lambda>_. Inl ROther) demo_stream [] [] 4"
  have "write_loop (\<lambda>_ p. (length p, False)) 0 demo_packet [] = (Inr 1, demo_packet)"
    by (simp add: write_loop.simps demo_packet_def)
  then have res: "so_result ?out = Inr [0x61]"
    by (simp add: ServeStreamWithIdle_def readConnectFromStream_def demo_stream_def demo_decoded writeStreamBytes_def
        ClientIDOrPeer_def demo_info_def)
  from serve_stream_replays[OF refl, THEN conjunct1, rule_format, OF res] res
  show ?thesis by (simp add: demo_stream_def)
qed

end
