(* ===== verification/Lifecycle.thy ===== *)
theory Lifecycle
  imports Go_Prelude
begin

text \<open>
  The lifecycle of a request, \<open>pkg/apisix/ctx/lifecycle.go\<close>: its outcome, the source of its response,
  and the finalizers that run once when it ends; and the adapter that runs a request phase,
  \<open>pkg/plugin/base/request_phase.go\<close>. A finalizer is known by a number; what it does, to the rest of
  the program and back to the lifecycle, is the environment. The mutex makes each operation atomic,
  so what other goroutines do to the lifecycle while a finalizer runs is part of what it does.
\<close>

section \<open>Outcomes and sources\<close>

datatype outcome_kind = Completed | RecoveredPanic | AbortedPanic | HandlerAbort | NoKind

record ResponseOutcome =
  ro_Kind :: outcome_kind
  ro_FailureReason :: string
  ro_Status :: int
  ro_Bytes :: int
  ro_Committed :: bool
  ro_Flushed :: bool
  ro_Hijacked :: bool

definition zero_outcome :: ResponseOutcome where
  "zero_outcome = \<lparr>ro_Kind = NoKind, ro_FailureReason = '''', ro_Status = 0, ro_Bytes = 0,
     ro_Committed = False, ro_Flushed = False, ro_Hijacked = False\<rparr>"

definition ValidResponseFailureReason :: "string \<Rightarrow> bool" where
  "ValidResponseFailureReason reason \<longleftrightarrow>
     reason \<in> {''upstream_idle_timeout'', ''upstream_header_timeout'', ''upstream_copy_error'',
       ''upstream_request_error'', ''client_canceled'', ''client_write_error''}"

definition known_sources :: "string set" where
  "known_sources = {''unknown'', ''upstream'', ''apisix'', ''early_stop'', ''cache_hit''}"

definition normalizeResponseSource :: "string \<Rightarrow> string" where
  "normalizeResponseSource source = (if source \<in> known_sources then source else ''unknown'')"

section \<open>The lifecycle\<close>

datatype ('e, 'p) fin_result = FinOk | FinErr 'e | FinPanic 'p

record ('e, 'p) FinalizerFailure =
  ff_Owner :: string
  ff_Err :: "'e option"
  ff_PanicValue :: "'p option"

record ('e, 'p) lifecycle =
  lc_once :: bool
  lc_startedAt :: int
  lc_finishedAt :: "int option"
  lc_finalizing :: bool
  lc_finalizers :: "(string \<times> nat) list"
  lc_outcome :: ResponseOutcome
  lc_failures :: "('e, 'p) FinalizerFailure list"
  lc_finalRequest :: "nat option"
  lc_responseSource :: string

definition NewRequestLifecycle :: "int \<Rightarrow> ('e, 'p) lifecycle" where
  "NewRequestLifecycle startedAt =
     \<lparr>lc_once = False, lc_startedAt = startedAt, lc_finishedAt = None, lc_finalizing = False, lc_finalizers = [],
      lc_outcome = zero_outcome, lc_failures = [], lc_finalRequest = None, lc_responseSource = ''unknown''\<rparr>"

definition lc_SetFinalRequest :: "nat \<Rightarrow> ('e, 'p) lifecycle \<Rightarrow> ('e, 'p) lifecycle" where
  "lc_SetFinalRequest r l = l\<lparr>lc_finalRequest := Some r\<rparr>"

definition lc_SetResponseSource :: "string \<Rightarrow> ('e, 'p) lifecycle \<Rightarrow> ('e, 'p) lifecycle" where
  "lc_SetResponseSource source l =
     l\<lparr>lc_responseSource := (if source \<in> known_sources then source else ''unknown'')\<rparr>"

definition lc_ResponseSource :: "('e, 'p) lifecycle option \<Rightarrow> string" where
  "lc_ResponseSource l =
     (case l of None \<Rightarrow> ''unknown'' | Some l \<Rightarrow> if lc_responseSource l = '''' then ''unknown'' else lc_responseSource l)"

text \<open>The request-aware setter: the lifecycle of the request, if it has one, and the value that is
  mirrored into the request variables.\<close>

definition SetRequestResponseSource ::
  "('e, 'p) lifecycle option \<Rightarrow> string \<Rightarrow> ('e, 'p) lifecycle option \<times> string" where
  "SetRequestResponseSource l source =
     (case l of
        None \<Rightarrow> (None, normalizeResponseSource source)
      | Some l \<Rightarrow> let l' = lc_SetResponseSource source l in (Some l', lc_ResponseSource (Some l')))"

definition AddFinalizer :: "string \<Rightarrow> nat option \<Rightarrow> ('e, 'p) lifecycle \<Rightarrow> ('e, 'p) lifecycle \<times> bool" where
  "AddFinalizer owner finalizer l =
     (case finalizer of
        None \<Rightarrow> (l, False)
      | Some fn \<Rightarrow>
          if lc_finalizing l then (l, False)
          else (l\<lparr>lc_finalizers := lc_finalizers l @ [(owner, fn)]\<rparr>, True))"

definition lc_SetOutcome :: "ResponseOutcome \<Rightarrow> ('e, 'p) lifecycle \<Rightarrow> ('e, 'p) lifecycle" where
  "lc_SetOutcome outcome l = l\<lparr>lc_outcome := outcome\<rparr>"

definition lc_Complete :: "ResponseOutcome \<Rightarrow> int \<Rightarrow> ('e, 'p) lifecycle \<Rightarrow> ('e, 'p) lifecycle" where
  "lc_Complete outcome finishedAt l = l\<lparr>lc_outcome := outcome, lc_finishedAt := Some finishedAt\<rparr>"

definition lc_Outcome :: "('e, 'p) lifecycle option \<Rightarrow> ResponseOutcome" where
  "lc_Outcome l = (case l of None \<Rightarrow> zero_outcome | Some l \<Rightarrow> lc_outcome l)"

text \<open>\<open>EnsureRequestLifecycle\<close>: the lifecycle the request carries, or a new one, with its final request.\<close>

definition EnsureRequestLifecycle :: "('e, 'p) lifecycle option \<Rightarrow> int \<Rightarrow> nat \<Rightarrow> ('e, 'p) lifecycle" where
  "EnsureRequestLifecycle l startedAt r =
     lc_SetFinalRequest r (case l of None \<Rightarrow> NewRequestLifecycle startedAt | Some l \<Rightarrow> l)"

section \<open>Finalizers\<close>

text \<open>What a finalizer may do to the lifecycle, or others may do meanwhile.\<close>

datatype lc_op =
    OpAdd string "nat option"
  | OpSetOutcome ResponseOutcome
  | OpComplete ResponseOutcome int
  | OpSetSource string
  | OpSetFinalRequest nat

fun lc_apply :: "lc_op \<Rightarrow> ('e, 'p) lifecycle \<Rightarrow> ('e, 'p) lifecycle" where
  "lc_apply (OpAdd owner finalizer) l = fst (AddFinalizer owner finalizer l)"
| "lc_apply (OpSetOutcome outcome) l = lc_SetOutcome outcome l"
| "lc_apply (OpComplete outcome finishedAt) l = lc_Complete outcome finishedAt l"
| "lc_apply (OpSetSource source) l = lc_SetResponseSource source l"
| "lc_apply (OpSetFinalRequest r) l = lc_SetFinalRequest r l"

text \<open>The finalizer number \<open>fn\<close>, in a world: the new world, its calls, and how it returns.\<close>

type_synonym ('w, 'e, 'p) fin_env = "nat \<Rightarrow> ('e, 'p) lifecycle \<Rightarrow> 'w \<Rightarrow> 'w \<times> lc_op list \<times> ('e, 'p) fin_result"

definition runFinalizer :: "string \<Rightarrow> ('e, 'p) fin_result \<Rightarrow> ('e, 'p) FinalizerFailure option" where
  "runFinalizer owner result =
     (case result of
        FinOk \<Rightarrow> None
      | FinErr e \<Rightarrow> Some \<lparr>ff_Owner = owner, ff_Err = Some e, ff_PanicValue = None\<rparr>
      | FinPanic p \<Rightarrow> Some \<lparr>ff_Owner = owner, ff_Err = None, ff_PanicValue = Some p\<rparr>)"

text \<open>The loop of \<open>Finalize\<close>: the lifecycle, the world, the failures, and the finalizers that ran.\<close>

fun run_finalizers ::
  "('w, 'e, 'p) fin_env \<Rightarrow> (string \<times> nat) list \<Rightarrow> ('e, 'p) lifecycle \<Rightarrow> 'w
   \<Rightarrow> ('e, 'p) lifecycle \<times> 'w \<times> ('e, 'p) FinalizerFailure list \<times> nat list" where
  "run_finalizers env [] l w = (l, w, [], [])"
| "run_finalizers env ((owner, fn) # fs) l w =
     (let (w1, ops, result) = env fn l w;
          (l2, w2, failures, ids) = run_finalizers env fs (fold lc_apply ops l) w1
      in (l2, w2, (case runFinalizer owner result of None \<Rightarrow> failures | Some failure \<Rightarrow> failure # failures), fn # ids))"

definition Finalize ::
  "('w, 'e, 'p) fin_env \<Rightarrow> ('e, 'p) lifecycle \<Rightarrow> 'w
   \<Rightarrow> ('e, 'p) lifecycle \<times> 'w \<times> ('e, 'p) FinalizerFailure list \<times> nat list" where
  "Finalize env l w =
     (if lc_once l then (l, w, lc_failures l, [])
      else
        let l1 = l\<lparr>lc_once := True, lc_finalizing := True\<rparr>;
            (l2, w2, failures, ids) = run_finalizers env (rev (lc_finalizers l1)) l1 w;
            l3 = l2\<lparr>lc_failures := failures\<rparr>
        in (l3, w2, lc_failures l3, ids))"

section \<open>Request phases\<close>

datatype decision = RequestContinue | RequestStop | OtherDecision

record phase_result =
  pr_Request :: "nat option"
  pr_Decision :: decision
  pr_Source :: string

definition ContinueRequest :: "nat \<Rightarrow> phase_result" where
  "ContinueRequest r = \<lparr>pr_Request = Some r, pr_Decision = RequestContinue, pr_Source = ''unknown''\<rparr>"

definition StopRequestWithSource :: "nat \<Rightarrow> string \<Rightarrow> phase_result" where
  "StopRequestWithSource r source = \<lparr>pr_Request = Some r, pr_Decision = RequestStop, pr_Source = source\<rparr>"

definition normalizeStopSource :: "string \<Rightarrow> string" where
  "normalizeStopSource source =
     (if source \<in> {''upstream'', ''apisix'', ''early_stop'', ''cache_hit''} then source else ''early_stop'')"

text \<open>\<open>AdaptRequestPhase\<close> after the phase returned: the lifecycle, and the request the next handler is
  called with, if it is.\<close>

definition AdaptRequestPhase ::
  "('e, 'p) lifecycle option \<Rightarrow> nat \<Rightarrow> phase_result \<Rightarrow> ('e, 'p) lifecycle option \<times> nat option" where
  "AdaptRequestPhase l r result =
     (let request = (case pr_Request result of None \<Rightarrow> r | Some request \<Rightarrow> request);
          l1 = map_option (lc_SetFinalRequest request) l
      in case pr_Decision result of
           RequestContinue \<Rightarrow> (l1, Some request)
         | RequestStop \<Rightarrow> (fst (SetRequestResponseSource l1 (normalizeStopSource (pr_Source result))), None)
         | OtherDecision \<Rightarrow> (fst (SetRequestResponseSource l1 ''early_stop''), None))"

section \<open>A history of a lifecycle\<close>

datatype lc_event = Op lc_op | Fin

record ('w, 'e, 'p) lc_run =
  lr_lifecycle :: "('e, 'p) lifecycle"
  lr_world :: 'w
  lr_ran :: "nat list"
  lr_returned :: "('e, 'p) FinalizerFailure list list"
  lr_added :: "bool list"

text \<open>The results of the calls of \<open>AddFinalizer\<close> and \<open>Finalize\<close> are recorded.\<close>

fun lc_step :: "('w, 'e, 'p) fin_env \<Rightarrow> lc_event \<Rightarrow> ('w, 'e, 'p) lc_run \<Rightarrow> ('w, 'e, 'p) lc_run" where
  "lc_step env (Op op) s =
     s\<lparr>lr_lifecycle := lc_apply op (lr_lifecycle s),
       lr_added := lr_added s @ (case op of OpAdd owner fn \<Rightarrow> [snd (AddFinalizer owner fn (lr_lifecycle s))] | _ \<Rightarrow> [])\<rparr>"
| "lc_step env Fin s =
     (let (l, w, failures, ids) = Finalize env (lr_lifecycle s) (lr_world s)
      in s\<lparr>lr_lifecycle := l, lr_world := w, lr_ran := lr_ran s @ ids, lr_returned := lr_returned s @ [failures]\<rparr>)"

definition lc_start :: "int \<Rightarrow> 'w \<Rightarrow> ('w, 'e, 'p) lc_run" where
  "lc_start startedAt w =
     \<lparr>lr_lifecycle = NewRequestLifecycle startedAt, lr_world = w, lr_ran = [], lr_returned = [], lr_added = []\<rparr>"

text \<open>The finalizers a history registers.\<close>

fun registered :: "lc_event list \<Rightarrow> (string \<times> nat) list" where
  "registered [] = []"
| "registered (Op (OpAdd owner (Some fn)) # es) = (owner, fn) # registered es"
| "registered (_ # es) = registered es"

fun add_calls :: "lc_event list \<Rightarrow> nat option list" where
  "add_calls [] = []"
| "add_calls (Op (OpAdd owner fn) # es) = fn # add_calls es"
| "add_calls (_ # es) = add_calls es"

text \<open>How each finalizer returned, in the order they ran.\<close>

fun run_results ::
  "('w, 'e, 'p) fin_env \<Rightarrow> (string \<times> nat) list \<Rightarrow> ('e, 'p) lifecycle \<Rightarrow> 'w \<Rightarrow> (string \<times> ('e, 'p) fin_result) list" where
  "run_results env [] l w = []"
| "run_results env ((owner, fn) # fs) l w =
     (let (w1, ops, result) = env fn l w in (owner, result) # run_results env fs (fold lc_apply ops l) w1)"

definition failures_of :: "(string \<times> ('e, 'p) fin_result) list \<Rightarrow> ('e, 'p) FinalizerFailure list" where
  "failures_of results = concat (map (\<lambda>(owner, result). case runFinalizer owner result of None \<Rightarrow> [] | Some f \<Rightarrow> [f]) results)"

lemma lc_apply_keeps [simp]:
  "lc_once (lc_apply op l) = lc_once l" "lc_finalizing (lc_apply op l) = lc_finalizing l"
  "lc_failures (lc_apply op l) = lc_failures l"
  "lc_finalizing l \<Longrightarrow> lc_finalizers (lc_apply op l) = lc_finalizers l"
  by (cases op; simp add: AddFinalizer_def lc_SetOutcome_def lc_Complete_def lc_SetResponseSource_def
      lc_SetFinalRequest_def split: option.splits)+

lemma lc_applys_keep [simp]:
  "lc_once (fold lc_apply ops l) = lc_once l" "lc_finalizing (fold lc_apply ops l) = lc_finalizing l"
  "lc_failures (fold lc_apply ops l) = lc_failures l"
  by (induction ops arbitrary: l) simp_all

lemma lc_apply_registers:
  "\<not> lc_finalizing l \<Longrightarrow> lc_finalizers (lc_apply op l) = lc_finalizers l @ registered [Op op]"
  by (cases op) (auto simp: AddFinalizer_def lc_SetOutcome_def lc_Complete_def lc_SetResponseSource_def
      lc_SetFinalRequest_def split: option.splits)

lemma registered_Cons: "registered (e # es) = registered [e] @ registered es"
proof (cases e)
  case (Op op)
  show ?thesis
  proof (cases op)
    case (OpAdd owner fn)
    then show ?thesis by (cases fn) (simp_all add: Op)
  qed (simp_all add: Op)
qed simp

lemma run_finalizers_spec:
  "run_finalizers env fs l w = (l', w', failures, ids) \<Longrightarrow>
     ids = map snd fs \<and> failures = failures_of (run_results env fs l w)
     \<and> lc_once l' = lc_once l \<and> lc_finalizing l' = lc_finalizing l"
proof (induction fs arbitrary: l w l' w' failures ids)
  case (Cons f fs)
  obtain owner fn where f: "f = (owner, fn)" by fastforce
  obtain w1 ops result where env: "env fn l w = (w1, ops, result)" by (metis prod_cases3)
  obtain l2 w2 failures2 ids2 where run: "run_finalizers env fs (fold lc_apply ops l) w1 = (l2, w2, failures2, ids2)"
    by (metis prod_cases4)
  from Cons.IH[OF run] Cons.prems f env run show ?case
    by (auto simp: failures_of_def split: option.splits)
qed (simp add: failures_of_def)

text \<open>Before the first \<open>Finalize\<close>: nothing ran, and the registered finalizers are the accepted ones.\<close>

lemma lc_steps_before:
  assumes "Fin \<notin> set es" and "\<not> lc_finalizing (lr_lifecycle s)" and "\<not> lc_once (lr_lifecycle s)"
    and "s' = fold (lc_step env) es s"
  shows "\<not> lc_finalizing (lr_lifecycle s') \<and> \<not> lc_once (lr_lifecycle s') \<and> lr_ran s' = lr_ran s
     \<and> lr_returned s' = lr_returned s \<and> lr_world s' = lr_world s
     \<and> lc_finalizers (lr_lifecycle s') = lc_finalizers (lr_lifecycle s) @ registered es
     \<and> lr_added s' = lr_added s @ map (\<lambda>fn. fn \<noteq> None) (add_calls es)"
  using assms
proof (induction es arbitrary: s)
  case (Cons e es)
  then obtain op where e: "e = Op op" by (cases e) auto
  have added: "(case op of OpAdd owner fn \<Rightarrow> [snd (AddFinalizer owner fn (lr_lifecycle s))] | _ \<Rightarrow> []) @ xs
      = map (\<lambda>fn. fn \<noteq> None) (add_calls [Op op]) @ xs" for xs
    using Cons.prems(2) by (auto simp: AddFinalizer_def split: lc_op.splits option.splits)
  have calls: "add_calls (e # es) = add_calls [e] @ add_calls es" by (cases op) (auto simp: e)
  show ?case
    using Cons.IH[of "lc_step env e s"] Cons.prems added lc_apply_registers[of "lr_lifecycle s" op]
    by (simp add: e calls[unfolded e] registered_Cons[of "Op op" es])
qed simp

text \<open>After it: nothing runs any more, every call returns the same failures, and no finalizer is
  accepted.\<close>

lemma lc_steps_after:
  assumes "lc_finalizing (lr_lifecycle s)" and "lc_once (lr_lifecycle s)" and "s' = fold (lc_step env) es s"
  shows "lr_ran s' = lr_ran s \<and> lr_returned s' = lr_returned s @ replicate (count_list es Fin) (lc_failures (lr_lifecycle s))
     \<and> lr_added s' = lr_added s @ map (\<lambda>fn. False) (add_calls es)"
  using assms
proof (induction es arbitrary: s)
  case (Cons e es)
  show ?case
  proof (cases e)
    case (Op op)
    have added: "(case op of OpAdd owner fn \<Rightarrow> [snd (AddFinalizer owner fn (lr_lifecycle s))] | _ \<Rightarrow> []) @ xs
        = map (\<lambda>fn. False) (add_calls [Op op]) @ xs" for xs
      using Cons.prems(1) by (auto simp: AddFinalizer_def split: lc_op.splits option.splits)
    have calls: "add_calls (e # es) = add_calls [e] @ add_calls es" by (cases op) (auto simp: Op)
    show ?thesis
      using Cons.IH[of "lc_step env e s"] Cons.prems added by (simp add: Op calls[unfolded Op])
  next
    case Fin
    then show ?thesis
      using Cons.IH[of "lc_step env e s"] Cons.prems by (simp add: Finalize_def)
  qed
qed simp

section \<open>Properties\<close>

text \<open>C31. Finalizers run once. In every history of a lifecycle, whatever the finalizers do to it, the
  first \<open>Finalize\<close> runs the finalizers registered before it, each once and the latest first, and a
  failure or a panic of one does not keep the others from running; its result is the failures and
  panics in that order. Every later \<open>Finalize\<close> runs nothing and returns the same. \<open>AddFinalizer\<close>
  accepts every finalizer before and none after.\<close>

theorem finalizers_run_once:
  fixes env :: "('w, 'e, 'p) fin_env"
  assumes "Fin \<notin> set before" and "s0 = fold (lc_step env) before (lc_start startedAt w)"
    and "s = fold (lc_step env) (before @ Fin # after) (lc_start startedAt w)"
  shows "lr_ran s = rev (map snd (registered before))
    \<and> lr_returned s = replicate (Suc (count_list after Fin))
        (failures_of (run_results env (rev (registered before))
           ((lr_lifecycle s0)\<lparr>lc_once := True, lc_finalizing := True\<rparr>) w))
    \<and> lr_added s = map (\<lambda>fn. fn \<noteq> None) (add_calls before) @ map (\<lambda>fn. False) (add_calls after)"
proof -
  have start: "\<not> lc_finalizing (lr_lifecycle (lc_start startedAt w))" "\<not> lc_once (lr_lifecycle (lc_start startedAt w))"
    "lc_finalizers (lr_lifecycle (lc_start startedAt w)) = []" "lr_ran (lc_start startedAt w) = []"
    "lr_returned (lc_start startedAt w) = []" "lr_added (lc_start startedAt w) = []" "lr_world (lc_start startedAt w) = w"
    by (simp_all add: lc_start_def NewRequestLifecycle_def)
  note s0 = lc_steps_before[OF assms(1) start(1,2) assms(2), unfolded start(3-7)]
  let ?l = "(lr_lifecycle s0)\<lparr>lc_once := True, lc_finalizing := True\<rparr>"
  obtain l2 w2 failures ids where run: "run_finalizers env (rev (lc_finalizers ?l)) ?l (lr_world s0) = (l2, w2, failures, ids)"
    by (metis prod_cases4)
  note spec = run_finalizers_spec[OF run]
  let ?s1 = "lc_step env Fin s0"
  have fin: "?s1 = s0\<lparr>lr_lifecycle := l2\<lparr>lc_failures := failures\<rparr>, lr_world := w2, lr_ran := lr_ran s0 @ ids,
      lr_returned := lr_returned s0 @ [failures]\<rparr>"
    using s0 run by (simp add: Finalize_def)
  have "s = fold (lc_step env) after ?s1" using assms(2,3) by simp
  from lc_steps_after[OF _ _ this[unfolded fin]] show ?thesis
    using s0 spec by (simp add: rev_map)
qed

text \<open>Finalizers 1 and 2, of which the second panics, in a world that counts.\<close>

definition demo_fin :: "(nat, string, string) fin_env" where
  "demo_fin fn l w = (w + fn, [OpAdd ''late'' (Some 9)], if fn = 2 then FinPanic ''boom'' else FinOk)"

lemma finalizers_run_once_witness:
  "lr_ran (fold (lc_step demo_fin) ([Op (OpAdd ''a'' (Some 1)), Op (OpAdd ''b'' (Some 2))] @ Fin # [Fin]) (lc_start 0 0)) = [2, 1]
   \<and> lr_returned (fold (lc_step demo_fin) ([Op (OpAdd ''a'' (Some 1)), Op (OpAdd ''b'' (Some 2))] @ Fin # [Fin]) (lc_start 0 0))
     = replicate 2 [\<lparr>ff_Owner = ''b'', ff_Err = None, ff_PanicValue = Some ''boom''\<rparr>]"
proof -
  let ?before = "[Op (OpAdd ''a'' (Some 1)), Op (OpAdd ''b'' (Some 2))]"
  have "Fin \<notin> set ?before" by simp
  from finalizers_run_once[OF this refl refl, of demo_fin "[Fin]" 0 0]
  show ?thesis
    by (simp add: failures_of_def demo_fin_def runFinalizer_def numeral_2_eq_2 del: fold_simps fold_append)
qed

end
