(* ===== verification/Api_Breaker.thy ===== *)
theory Api_Breaker
  imports Lifecycle "HOL-Library.Signed_Division"
begin

text \<open>
  The circuit breaker plugin, \<open>pkg/plugin/api_breaker/plugin.go\<close>: counting unhealthy and healthy
  responses, the growing time the breaker stays open, and the request phase that answers for an open
  breaker or registers one observer of the outcome with the request's lifecycle. Times are in
  nanoseconds; the zero time is \<open>None\<close>. An integer division by zero panics, which is \<open>None\<close>.
\<close>

section \<open>Configuration\<close>

text \<open>A JSON array or pointer that is absent is \<open>None\<close>.\<close>

record breaker_config =
  bc_BreakResponseCode :: int
  bc_BreakResponseBody :: "string option"
  bc_BreakResponseHeaders :: "(string \<times> string) list option"
  bc_MaxBreakerSec :: int
  bc_UnhealthyStatuses :: "int list option"
  bc_Failures :: "int option"
  bc_HealthyStatuses :: "int list option"
  bc_Successes :: "int option"

definition or_default :: "'a \<Rightarrow> 'a option \<Rightarrow> 'a option" where
  "or_default d x = (case x of None \<Rightarrow> Some d | Some v \<Rightarrow> Some v)"

definition PostInit :: "breaker_config \<Rightarrow> breaker_config" where
  "PostInit c =
     c\<lparr>bc_MaxBreakerSec := (if bc_MaxBreakerSec c = 0 then 300 else bc_MaxBreakerSec c),
       bc_UnhealthyStatuses := or_default [500] (bc_UnhealthyStatuses c),
       bc_Failures := or_default 3 (bc_Failures c),
       bc_HealthyStatuses := or_default [200] (bc_HealthyStatuses c),
       bc_Successes := or_default 3 (bc_Successes c)\<rparr>"

definition deref :: "int option \<Rightarrow> int" where
  "deref x = (case x of None \<Rightarrow> 0 | Some v \<Rightarrow> v)"

definition contains :: "int list option \<Rightarrow> int \<Rightarrow> bool" where
  "contains xs v \<longleftrightarrow> (case xs of None \<Rightarrow> False | Some xs \<Rightarrow> v \<in> set xs)"

text \<open>The configuration document: what the JSON schema admits, and what it decodes to.\<close>

record breaker_json =
  bj_break_response_code :: "int option"
  bj_break_response_body :: "string option"
  bj_break_response_headers :: "(string \<times> string) list option"
  bj_max_breaker_sec :: "int option"
  bj_unhealthy :: "(int list option \<times> int option) option"
  bj_healthy :: "(int list option \<times> int option) option"

definition schema_check :: "int \<Rightarrow> int \<Rightarrow> (int list option \<times> int option) option \<Rightarrow> bool" where
  "schema_check lo hi check =
     (case check of
        None \<Rightarrow> True
      | Some (statuses, n) \<Rightarrow>
          (case statuses of None \<Rightarrow> True | Some xs \<Rightarrow> xs \<noteq> [] \<and> distinct xs \<and> list_all (\<lambda>x. lo \<le> x \<and> x \<le> hi) xs)
          \<and> (case n of None \<Rightarrow> True | Some n \<Rightarrow> 1 \<le> n))"

definition breaker_schema :: "breaker_json \<Rightarrow> bool" where
  "breaker_schema j \<longleftrightarrow>
     (case bj_break_response_code j of None \<Rightarrow> False | Some c \<Rightarrow> 200 \<le> c \<and> c \<le> 599)
     \<and> (case bj_break_response_headers j of None \<Rightarrow> True | Some hs \<Rightarrow> list_all (\<lambda>(k, v). k \<noteq> [] \<and> v \<noteq> []) hs)
     \<and> (case bj_max_breaker_sec j of None \<Rightarrow> True | Some n \<Rightarrow> 3 \<le> n)
     \<and> schema_check 500 599 (bj_unhealthy j) \<and> schema_check 200 499 (bj_healthy j)"

definition decode_breaker :: "breaker_json \<Rightarrow> breaker_config" where
  "decode_breaker j =
     \<lparr>bc_BreakResponseCode = deref (bj_break_response_code j), bc_BreakResponseBody = bj_break_response_body j,
      bc_BreakResponseHeaders = bj_break_response_headers j, bc_MaxBreakerSec = deref (bj_max_breaker_sec j),
      bc_UnhealthyStatuses = Option.bind (bj_unhealthy j) fst, bc_Failures = Option.bind (bj_unhealthy j) snd,
      bc_HealthyStatuses = Option.bind (bj_healthy j) fst, bc_Successes = Option.bind (bj_healthy j) snd\<rparr>"

text \<open>What the schema and \<open>PostInit\<close> guarantee.\<close>

definition breaker_config_ok :: "breaker_config \<Rightarrow> bool" where
  "breaker_config_ok c \<longleftrightarrow> 3 \<le> bc_MaxBreakerSec c \<and> bc_UnhealthyStatuses c \<noteq> None \<and> bc_HealthyStatuses c \<noteq> None
     \<and> bc_Failures c \<noteq> None \<and> bc_Successes c \<noteq> None \<and> 1 \<le> deref (bc_Failures c) \<and> 1 \<le> deref (bc_Successes c)"

lemma breaker_schema_ok: "breaker_schema j \<Longrightarrow> breaker_config_ok (PostInit (decode_breaker j))"
  by (auto simp: breaker_schema_def decode_breaker_def PostInit_def breaker_config_ok_def or_default_def deref_def
      schema_check_def split: option.splits)

section \<open>The breaker\<close>

record breaker =
  br_config :: breaker_config
  br_unhealthyCount :: int
  br_healthyCount :: int
  br_lastUnhealthyTime :: "int option"

definition new_breaker :: "breaker_config \<Rightarrow> breaker" where
  "new_breaker c = \<lparr>br_config = PostInit c, br_unhealthyCount = 0, br_healthyCount = 0, br_lastUnhealthyTime = None\<rparr>"

text \<open>The loop of \<open>breakerSeconds\<close> with \<open>n\<close> rounds to go.\<close>

fun breaker_loop :: "nat \<Rightarrow> int \<Rightarrow> int \<Rightarrow> int" where
  "breaker_loop 0 seconds maximum = (if seconds > maximum then maximum else seconds)"
| "breaker_loop (Suc n) seconds maximum =
     (if seconds \<ge> maximum \<or> seconds > maximum sdiv 2 then maximum else breaker_loop n (seconds * 2) maximum)"

definition breakerSeconds :: "int \<Rightarrow> int \<Rightarrow> int \<Rightarrow> int option" where
  "breakerSeconds unhealthyCount failures maximum =
     (if failures = 0 then None
      else let failureTimes = max (unhealthyCount sdiv failures) 1
           in Some (breaker_loop (nat (failureTimes - 1)) 2 maximum))"

definition shouldBreak :: "int \<Rightarrow> breaker \<Rightarrow> bool option" where
  "shouldBreak now p =
     (if br_unhealthyCount p = 0 \<or> br_lastUnhealthyTime p = None then Some False
      else map_option
             (\<lambda>seconds. \<not> (now > the (br_lastUnhealthyTime p) + wrap64 (seconds * second)))
             (breakerSeconds (br_unhealthyCount p) (deref (bc_Failures (br_config p))) (bc_MaxBreakerSec (br_config p))))"

definition observeStatus :: "int \<Rightarrow> int \<Rightarrow> breaker \<Rightarrow> breaker option" where
  "observeStatus now status p =
     (if contains (bc_UnhealthyStatuses (br_config p)) status then
        let p1 = p\<lparr>br_unhealthyCount := br_unhealthyCount p + 1, br_healthyCount := 0\<rparr>
        in if deref (bc_Failures (br_config p)) = 0 then None
           else if br_unhealthyCount p1 smod deref (bc_Failures (br_config p)) = 0
           then Some (p1\<lparr>br_lastUnhealthyTime := Some now\<rparr>)
           else Some p1
      else if contains (bc_HealthyStatuses (br_config p)) status then
        if br_unhealthyCount p = 0 then Some p
        else
          let p1 = p\<lparr>br_healthyCount := br_healthyCount p + 1\<rparr>
          in if br_healthyCount p1 \<ge> deref (bc_Successes (br_config p))
             then Some (p1\<lparr>br_unhealthyCount := 0, br_healthyCount := 0, br_lastUnhealthyTime := None\<rparr>)
             else Some p1
      else Some p)"

section \<open>The request phase\<close>

text \<open>The response an open breaker writes: headers, status and body. The resolution of request
  variables in header values is a parameter.\<close>

record break_response =
  rs_headers :: "(string \<times> string) list"
  rs_code :: int
  rs_body :: "string option"

definition break_response_of :: "(string \<Rightarrow> string) \<Rightarrow> breaker_config \<Rightarrow> break_response" where
  "break_response_of resolve c =
     \<lparr>rs_headers = (case (bc_BreakResponseBody c, bc_BreakResponseHeaders c) of
                     (Some _, Some hs) \<Rightarrow> map (\<lambda>(k, v). (k, resolve v)) hs | _ \<Rightarrow> []),
      rs_code = bc_BreakResponseCode c, rs_body = bc_BreakResponseBody c\<rparr>"

text \<open>A request: its number, and the plugins that already registered an observer in its context. The
  observer of a plugin is the finalizer with the plugin's number.\<close>

record ('e, 'p) phase_state =
  ph_lifecycle :: "('e, 'p) lifecycle option"
  ph_registrations :: "nat set"

definition RunRequestPhase ::
  "(string \<Rightarrow> string) \<Rightarrow> int \<Rightarrow> nat \<Rightarrow> breaker \<Rightarrow> nat \<Rightarrow> ('e, 'p) phase_state
   \<Rightarrow> (break_response option \<times> phase_result \<times> ('e, 'p) phase_state) option" where
  "RunRequestPhase resolve now plugin p r s =
     (case shouldBreak now p of
        None \<Rightarrow> None
      | Some True \<Rightarrow> Some (Some (break_response_of resolve (br_config p)), StopRequestWithSource r ''early_stop'', s)
      | Some False \<Rightarrow>
          (case ph_lifecycle s of
             None \<Rightarrow> Some (None, ContinueRequest r, s)
           | Some l \<Rightarrow>
               if plugin \<in> ph_registrations s then Some (None, ContinueRequest r, s)
               else
                 let registrations = insert plugin (ph_registrations s);
                     (l', added) = AddFinalizer ''api-breaker'' (Some plugin) l
                 in Some (None, ContinueRequest r,
                      \<lparr>ph_lifecycle = Some l',
                       ph_registrations = (if added then registrations else ph_registrations s)\<rparr>)))"

text \<open>The observer.\<close>

definition breaker_finalizer :: "int \<Rightarrow> ('e, 'p) lifecycle \<Rightarrow> breaker \<Rightarrow> breaker option" where
  "breaker_finalizer now l p =
     (let outcome = lc_outcome l
      in if ro_Kind outcome \<noteq> Completed \<or> \<not> ro_Committed outcome \<or> ro_Hijacked outcome then Some p
         else observeStatus now (ro_Status outcome) p)"

text \<open>The handler without a lifecycle: the response, or the next handler's status is observed.\<close>

definition legacy_Handler ::
  "(string \<Rightarrow> string) \<Rightarrow> int \<Rightarrow> int \<Rightarrow> int \<Rightarrow> breaker \<Rightarrow> (break_response option \<times> breaker) option" where
  "legacy_Handler resolve now later status p =
     (case shouldBreak now p of
        None \<Rightarrow> None
      | Some True \<Rightarrow> Some (Some (break_response_of resolve (br_config p)), p)
      | Some False \<Rightarrow> map_option (\<lambda>p'. (None, p')) (observeStatus later status p))"

section \<open>The time the breaker stays open\<close>

lemma sdiv_nonneg: "0 \<le> a \<Longrightarrow> 0 \<le> b \<Longrightarrow> a sdiv b = a div b" and smod_nonneg: "0 \<le> a \<Longrightarrow> 0 \<le> b \<Longrightarrow> a smod b = a mod b"
  for a b :: int
  by (cases "a = 0"; auto simp: signed_divide_int_def signed_modulo_int_def sgn_if minus_div_mult_eq_mod)+

lemma breaker_loop_closed:
  "0 < seconds \<Longrightarrow> 0 \<le> maximum \<Longrightarrow> breaker_loop n seconds maximum = min maximum (seconds * 2 ^ n)"
proof (induction n arbitrary: seconds)
  case (Suc n)
  have div: "maximum sdiv 2 = maximum div 2"
    using Suc.prems(2) by (simp add: sdiv_nonneg)
  show ?case
  proof (cases "seconds \<ge> maximum \<or> seconds > maximum sdiv 2")
    case True
    then have "maximum \<le> seconds * 2" using div Suc.prems by auto
    also have "\<dots> \<le> seconds * 2 * 2 ^ n"
      using Suc.prems(1) mult_left_mono[of 1 "2 ^ n" "seconds * 2"] by simp
    finally show ?thesis using True by (simp add: min_def mult.assoc)
  next
    case False
    then show ?thesis using Suc by (simp add: mult.assoc)
  qed
qed simp

lemma breakerSeconds_closed:
  assumes "1 \<le> failures" and "0 \<le> count" and "3 \<le> maximum"
  shows "breakerSeconds count failures maximum = Some (min maximum (2 ^ max 1 (nat (count div failures))))"
proof -
  have "count sdiv failures = count div failures"
    using assms by (simp add: sdiv_nonneg)
  moreover have "2 * 2 ^ nat (max (count div failures) 1 - 1) = (2 ^ max 1 (nat (count div failures)) :: int)"
  proof -
    have "max 1 (nat (count div failures)) = Suc (nat (max (count div failures) 1 - 1))"
      by (auto simp: max_def)
    then show ?thesis by simp
  qed
  ultimately show ?thesis
    using assms breaker_loop_closed[of 2 maximum] by (simp add: breakerSeconds_def Let_def)
qed

section \<open>Histories\<close>

fun observe_all :: "(int \<times> int) list \<Rightarrow> breaker \<Rightarrow> breaker option" where
  "observe_all [] p = Some p"
| "observe_all ((now, status) # h) p = (case observeStatus now status p of None \<Rightarrow> None | Some p' \<Rightarrow> observe_all h p')"

lemma observe_all_append:
  "observe_all (h @ h') p = (case observe_all h p of None \<Rightarrow> None | Some p' \<Rightarrow> observe_all h' p')"
  by (induction h arbitrary: p) (auto split: option.splits)

definition breaker_inv :: "breaker \<Rightarrow> bool" where
  "breaker_inv p \<longleftrightarrow> breaker_config_ok (br_config p) \<and> 0 \<le> br_unhealthyCount p
     \<and> 0 \<le> br_healthyCount p \<and> br_healthyCount p < deref (bc_Successes (br_config p))
     \<and> (br_unhealthyCount p = 0 \<longrightarrow> br_healthyCount p = 0)
     \<and> (br_lastUnhealthyTime p \<noteq> None \<longleftrightarrow> deref (bc_Failures (br_config p)) \<le> br_unhealthyCount p)"

lemma observeStatus_inv:
  assumes "breaker_inv p"
  shows "\<exists>p'. observeStatus now status p = Some p' \<and> breaker_inv p' \<and> br_config p' = br_config p"
proof -
  let ?f = "deref (bc_Failures (br_config p))" and ?u = "br_unhealthyCount p"
  have f: "1 \<le> ?f" and u: "0 \<le> ?u" using assms by (auto simp: breaker_inv_def breaker_config_ok_def)
  have smod: "(?u + 1) smod ?f = (?u + 1) mod ?f" using f u by (simp add: smod_nonneg)
  have reached: "?f \<le> ?u + 1" if "(?u + 1) mod ?f = 0"
    using that f u by (intro zdvd_imp_le) auto
  have missed: "\<not> ?f \<le> ?u + 1 \<or> ?f \<le> ?u" if "(?u + 1) mod ?f \<noteq> 0"
    using that by (cases "?f = ?u + 1") auto
  consider (unhealthy) "contains (bc_UnhealthyStatuses (br_config p)) status"
    | (healthy) "\<not> contains (bc_UnhealthyStatuses (br_config p)) status" "contains (bc_HealthyStatuses (br_config p)) status"
    | (neutral) "\<not> contains (bc_UnhealthyStatuses (br_config p)) status" "\<not> contains (bc_HealthyStatuses (br_config p)) status"
    by blast
  then show ?thesis
  proof cases
    case unhealthy
    then show ?thesis
    proof (cases "(?u + 1) mod ?f = 0")
      case True
      then show ?thesis
        using unhealthy f u smod reached assms by (simp add: observeStatus_def breaker_inv_def breaker_config_ok_def)
    next
      case False
      then show ?thesis
        using unhealthy f u smod missed assms by (auto simp: observeStatus_def breaker_inv_def breaker_config_ok_def)
    qed
  next
    case healthy
    then show ?thesis
      using assms f by (auto simp: observeStatus_def breaker_inv_def breaker_config_ok_def Let_def)
  next
    case neutral
    then show ?thesis using assms by (simp add: observeStatus_def)
  qed
qed

lemma observe_all_inv:
  "breaker_inv p \<Longrightarrow> \<exists>p'. observe_all h p = Some p' \<and> breaker_inv p' \<and> br_config p' = br_config p"
proof (induction h arbitrary: p)
  case (Cons e h)
  obtain now status where e: "e = (now, status)" by fastforce
  obtain p1 where p1: "observeStatus now status p = Some p1" "breaker_inv p1" "br_config p1 = br_config p"
    using observeStatus_inv[OF Cons.prems] by blast
  then show ?case using Cons.IH[OF p1(2)] by (auto simp: e)
qed simp

lemma new_breaker_inv: "breaker_config_ok (PostInit c) \<Longrightarrow> breaker_inv (new_breaker c)"
  by (auto simp: new_breaker_def breaker_inv_def breaker_config_ok_def)

text \<open>The duration fits into 64 bits.\<close>

definition duration_ok :: "breaker_config \<Rightarrow> bool" where
  "duration_ok c \<longleftrightarrow> bc_MaxBreakerSec c * second \<le> max_int64"

lemma shouldBreak_inv:
  assumes "breaker_inv p" and "duration_ok (br_config p)"
  shows "shouldBreak now p = Some (case br_lastUnhealthyTime p of
     None \<Rightarrow> False
   | Some t \<Rightarrow> now \<le> t + min (bc_MaxBreakerSec (br_config p))
       (2 ^ nat (br_unhealthyCount p div deref (bc_Failures (br_config p)))) * second)"
proof (cases "br_lastUnhealthyTime p")
  case None
  then show ?thesis by (simp add: shouldBreak_def)
next
  case (Some t)
  let ?f = "deref (bc_Failures (br_config p))" and ?u = "br_unhealthyCount p" and ?m = "bc_MaxBreakerSec (br_config p)"
  have f: "1 \<le> ?f" "?f \<le> ?u" "3 \<le> ?m"
    using assms(1) Some by (auto simp: breaker_inv_def breaker_config_ok_def)
  then have "1 \<le> ?u div ?f" by (simp add: pos_imp_zdiv_pos_iff zdiv_mono1 int_one_le_iff_zero_less)
  then have one: "max 1 (nat (?u div ?f)) = nat (?u div ?f)" by simp
  let ?s = "min ?m (2 ^ nat (?u div ?f))"
  have "0 \<le> ?s * second" "?s * second \<le> ?m * second" using f by (auto intro: mult_right_mono)
  moreover have "wrap64 x = x" if "0 \<le> x" "x \<le> ?m * second" for x
    using that assms(2) by (intro wrap64_id) (auto simp: duration_ok_def)
  ultimately have "wrap64 (?s * second) = ?s * second" by blast
  then show ?thesis
    using Some f breakerSeconds_closed[OF f(1) _ f(3), of ?u] one by (simp add: shouldBreak_def not_less)
qed

text \<open>A run of unhealthy statuses from a new breaker, and of healthy ones after it.\<close>

lemma unhealthy_run:
  assumes ok: "breaker_config_ok (PostInit c)" and f: "deref (bc_Failures (PostInit c)) = int f"
    and "\<forall>(t, status)\<in>set h. contains (bc_UnhealthyStatuses (PostInit c)) status"
  shows "observe_all h (new_breaker c) = Some \<lparr>br_config = PostInit c, br_unhealthyCount = int (length h), br_healthyCount = 0,
     br_lastUnhealthyTime = (if f \<le> length h then Some (fst (h ! (length h - length h mod f - 1))) else None)\<rparr>"
  using assms(3)
proof (induction h rule: rev_induct)
  case Nil
  have "0 < f" using ok f by (simp add: breaker_config_ok_def)
  then show ?case by (simp add: new_breaker_def)
next
  case (snoc e h)
  obtain t status where e: "e = (t, status)" by fastforce
  have f0: "0 < f" using ok f by (simp add: breaker_config_ok_def)
  let ?k = "length h"
  let ?last = "if f \<le> ?k then Some (fst (h ! (?k - ?k mod f - 1))) else None"
  have smod: "(int ?k + 1) smod int f = int (Suc ?k mod f)"
    by (simp add: smod_nonneg zmod_int add.commute)
  have step: "observe_all (h @ [e]) (new_breaker c) = Some \<lparr>br_config = PostInit c, br_unhealthyCount = int (Suc ?k),
      br_healthyCount = 0, br_lastUnhealthyTime = (if Suc ?k mod f = 0 then Some t else ?last)\<rparr>"
    using snoc f f0 smod by (simp add: observe_all_append e observeStatus_def Let_def)
  show ?case
  proof (cases "Suc ?k mod f = 0")
    case True
    then have "f \<le> Suc ?k" by (intro dvd_imp_le) auto
    then show ?thesis using step True by (simp add: nth_append e)
  next
    case False
    then have m: "Suc ?k mod f = Suc (?k mod f)" by (simp add: mod_Suc split: if_splits)
    have iff: "f \<le> Suc ?k \<longleftrightarrow> f \<le> ?k" using False f0 by (metis le_Suc_eq mod_self)
    have "?k - ?k mod f - 1 < ?k" if "f \<le> ?k"
      using that f0 by (cases ?k) (auto intro: le_less_trans[OF diff_le_self])
    then show ?thesis using step False m iff by (auto simp: nth_append)
  qed
qed

lemma healthy_run:
  assumes "breaker_inv p" and "0 < br_unhealthyCount p" and "br_healthyCount p + int (length g) \<le> deref (bc_Successes (br_config p))"
    and "\<forall>(t, status)\<in>set g. contains (bc_HealthyStatuses (br_config p)) status
      \<and> \<not> contains (bc_UnhealthyStatuses (br_config p)) status"
  shows "observe_all g p = Some
    (if br_healthyCount p + int (length g) = deref (bc_Successes (br_config p))
     then p\<lparr>br_unhealthyCount := 0, br_healthyCount := 0, br_lastUnhealthyTime := None\<rparr>
     else p\<lparr>br_healthyCount := br_healthyCount p + int (length g)\<rparr>)"
  using assms(3,4)
proof (induction g rule: rev_induct)
  case Nil
  then show ?case using assms(1) by (simp add: breaker_inv_def)
next
  case (snoc e g)
  obtain t status where e: "e = (t, status)" by fastforce
  have "observe_all g p = Some (p\<lparr>br_healthyCount := br_healthyCount p + int (length g)\<rparr>)"
    using snoc by auto
  then show ?case
    using snoc.prems assms(2) by (auto simp: observe_all_append e observeStatus_def Let_def)
qed

section \<open>Properties\<close>


definition demo_breaker_json :: breaker_json where
  "demo_breaker_json =
     \<lparr>bj_break_response_code = Some 502, bj_break_response_body = None, bj_break_response_headers = None,
      bj_max_breaker_sec = None, bj_unhealthy = Some (None, Some 2), bj_healthy = None\<rparr>"

definition demo_breaker_config :: breaker_config where
  "demo_breaker_config = decode_breaker demo_breaker_json"

lemmas demo_breaker_defs = demo_breaker_config_def demo_breaker_json_def decode_breaker_def PostInit_def or_default_def deref_def contains_def
  breaker_config_ok_def duration_ok_def


text \<open>The request phase may run several times for one request; each time it continues.\<close>

fun run_phases ::
  "(string \<Rightarrow> string) \<Rightarrow> int list \<Rightarrow> nat \<Rightarrow> breaker \<Rightarrow> nat \<Rightarrow> ('e, 'p) phase_state \<Rightarrow> ('e, 'p) phase_state option" where
  "run_phases resolve [] plugin p r s = Some s"
| "run_phases resolve (now # nows) plugin p r s =
     (case RunRequestPhase resolve now plugin p r s of
        Some (None, result, s') \<Rightarrow> run_phases resolve nows plugin p r s'
      | _ \<Rightarrow> None)"

text \<open>The environment in which the finalizer with the plugin's number is its observer.\<close>

definition observer_env :: "int \<Rightarrow> nat \<Rightarrow> (breaker, 'e, string) fin_env" where
  "observer_env now plugin fn l p =
     (if fn = plugin then
        case breaker_finalizer now l p of
          None \<Rightarrow> (p, [], FinPanic ''integer divide by zero'')
        | Some p' \<Rightarrow> (p', [], FinOk)
      else (p, [], FinOk))"

lemma run_phases_registered:
  assumes "plugin \<in> ph_registrations s" and "run_phases resolve nows plugin p r s = Some s'"
  shows "s' = s"
  using assms(2,1)
proof (induction nows)
  case (Cons now nows)
  then show ?case
    by (auto simp: RunRequestPhase_def split: option.splits bool.splits prod.splits)
qed simp


definition demo_outcome :: ResponseOutcome where
  "demo_outcome = zero_outcome\<lparr>ro_Kind := Completed, ro_Status := 500, ro_Committed := True\<rparr>"


text \<open>A maximum that does not fit: the duration of the open breaker wraps around to a negative one.\<close>

lemma breaker_duration_overflows:
  "shouldBreak 0 \<lparr>br_config = (PostInit demo_breaker_config)\<lparr>bc_MaxBreakerSec := 20000000000\<rparr>, br_unhealthyCount = 68,
     br_healthyCount = 0, br_lastUnhealthyTime = Some 0\<rparr> = Some False"
  by (simp add: shouldBreak_def breakerSeconds_closed demo_breaker_defs wrap64_def)

end
