(* ===== verification/Go_Float.thy ===== *)
theory Go_Float
  imports Go_Prelude Complex_Main
begin

text \<open>
  The arithmetic of \<open>float64\<close> that the code uses on small positive numbers: the conversion of an
  integer, division by ten with rounding to nearest, ties to even, and comparison. A value is zero
  or \<open>m * 2 ^ e\<close> with a 53-bit \<open>m\<close>; the exponents stay far from the limits of the type.
\<close>

type_synonym flt = "int \<times> int"

function normalize :: "int \<Rightarrow> int \<Rightarrow> flt" where
  "normalize m e = (if m \<le> 0 then (0, 0) else if 2 ^ 52 \<le> m then (m, e) else normalize (2 * m) (e - 1))"
  by pat_completeness auto
termination
  by (relation "measure (\<lambda>(m, e). nat (2 ^ 52 - m))") auto

declare normalize.simps [simp del]

text \<open>\<open>float64(n)\<close> for \<open>0 \<le> n < 2 ^ 53\<close>.\<close>

definition float_of :: "int \<Rightarrow> flt" where
  "float_of n = normalize n 0"

text \<open>The integer nearest to \<open>a / 10\<close>, even on a tie.\<close>

definition round_tenth :: "int \<Rightarrow> int" where
  "round_tenth a =
     (let q = a div 10; r = a mod 10
      in if r < 5 then q else if r > 5 then q + 1 else if even q then q else q + 1)"

text \<open>\<open>x / 10\<close>: the quotient is scaled to 53 bits before it is rounded.\<close>

definition fdiv10 :: "flt \<Rightarrow> flt" where
  "fdiv10 x =
     (case x of (m, e) \<Rightarrow>
        if m = 0 then (0, 0)
        else let k = (if 5 * 2 ^ 50 \<le> m then 3 else 4 :: nat);
                 m' = round_tenth (2 ^ k * m)
             in if m' = 2 ^ 53 then (2 ^ 52, e - int k + 1) else (m', e - int k))"

definition fless :: "flt \<Rightarrow> flt \<Rightarrow> bool" where
  "fless x y =
     (case (x, y) of ((m1, e1), (m2, e2)) \<Rightarrow>
        let e = min e1 e2 in m1 * 2 ^ nat (e1 - e) < m2 * 2 ^ nat (e2 - e))"

section \<open>Values\<close>

definition fval :: "flt \<Rightarrow> real" where
  "fval x = of_int (fst x) * 2 powr of_int (snd x)"

definition flt_ok :: "flt \<Rightarrow> bool" where
  "flt_ok x \<longleftrightarrow> x = (0, 0) \<or> 2 ^ 52 \<le> fst x \<and> fst x < 2 ^ 53"

lemma powr_int_nat: "0 \<le> e \<Longrightarrow> 2 powr real_of_int e = 2 ^ nat e"
  by (metis of_nat_nat powr_realpow zero_less_numeral of_int_of_nat_eq)

lemma fless_iff: "fless x y \<longleftrightarrow> fval x < fval y"
proof -
  obtain m1 e1 m2 e2 where xy: "x = (m1, e1)" "y = (m2, e2)" by fastforce
  define e where "e = min e1 e2"
  have shift: "real_of_int m * 2 powr real_of_int d = real_of_int (m * 2 ^ nat (d - e)) * 2 powr real_of_int e" if "e \<le> d" for m d
  proof -
    have "2 powr real_of_int d = 2 powr real_of_int (d - e) * 2 powr real_of_int e"
      by (simp add: powr_add[symmetric])
    then show ?thesis using that powr_int_nat[of "d - e"] by simp
  qed
  have x: "fval x = real_of_int (m1 * 2 ^ nat (e1 - e)) * 2 powr real_of_int e"
    using shift[of e1 m1] by (simp add: fval_def xy e_def)
  have y: "fval y = real_of_int (m2 * 2 ^ nat (e2 - e)) * 2 powr real_of_int e"
    using shift[of e2 m2] by (simp add: fval_def xy e_def)
  have "fval x < fval y \<longleftrightarrow> real_of_int (m1 * 2 ^ nat (e1 - e)) < real_of_int (m2 * 2 ^ nat (e2 - e))"
    unfolding x y by (rule mult_less_cancel_right_pos) simp
  also have "\<dots> \<longleftrightarrow> m1 * 2 ^ nat (e1 - e) < m2 * 2 ^ nat (e2 - e)"
    by (rule of_int_less_iff)
  finally show ?thesis by (simp add: fless_def xy e_def Let_def)
qed

lemma normalize_ok:
  "m < 2 ^ 53 \<Longrightarrow> 0 < m \<Longrightarrow> \<exists>s. normalize m e = (m * 2 ^ s, e - int s) \<and> 2 ^ 52 \<le> m * 2 ^ s \<and> m * 2 ^ s < 2 ^ 53"
proof (induction m e rule: normalize.induct)
  case (1 m e)
  show ?case
  proof (cases "2 ^ 52 \<le> m")
    case True
    then show ?thesis using 1 by (intro exI[of _ 0]) (simp add: normalize.simps[of m])
  next
    case False
    then have "\<exists>s. normalize (2 * m) (e - 1) = (2 * m * 2 ^ s, e - 1 - int s) \<and> 2 ^ 52 \<le> 2 * m * 2 ^ s \<and> 2 * m * 2 ^ s < 2 ^ 53"
      using 1 by (intro 1(1)) auto
    then obtain s where s: "normalize (2 * m) (e - 1) = (2 * m * 2 ^ s, e - 1 - int s)" "2 ^ 52 \<le> 2 * m * 2 ^ s" "2 * m * 2 ^ s < 2 ^ 53" by blast
    then show ?thesis
      using False 1(3) normalize.simps[of m e] by (intro exI[of _ "Suc s"]) (simp add: mult.commute mult.left_commute)
  qed
qed

lemma normal_unique:
  fixes n :: int
  assumes "0 < n" and "2 ^ 52 \<le> n * 2 ^ s" and "n * 2 ^ s < 2 ^ 53" and "2 ^ 52 \<le> n * 2 ^ t" and "n * 2 ^ t < 2 ^ 53"
  shows "s = t"
proof (rule ccontr)
  have less: False if "2 ^ 52 \<le> n * 2 ^ a" "n * 2 ^ b < 2 ^ 53" "a < b" for a b :: nat
  proof -
    have "n * 2 ^ a * 2 \<le> n * 2 ^ b"
      using that(3) assms(1) by (metis Suc_leI mult.assoc mult_left_mono less_imp_le power_Suc2 power_increasing one_le_numeral)
    with that show False by simp
  qed
  assume "s \<noteq> t"
  then show False using less[of s t] less[of t s] assms by linarith
qed

lemma float_of_eqI:
  assumes "0 < n" and "n < 2 ^ 53" and "2 ^ 52 \<le> n * 2 ^ s" and "n * 2 ^ s < 2 ^ 53"
  shows "float_of n = (n * 2 ^ s, - int s)"
proof -
  obtain t where t: "normalize n 0 = (n * 2 ^ t, 0 - int t)" "2 ^ 52 \<le> n * 2 ^ t" "n * 2 ^ t < 2 ^ 53"
    using normalize_ok[OF assms(2,1), of 0] by blast
  have "s = t" by (rule normal_unique[OF assms(1,3,4) t(2,3)])
  with t(1) show ?thesis by (simp add: float_of_def)
qed

lemma float_of_0 [simp]: "float_of 0 = (0, 0)"
  by (simp add: float_of_def normalize.simps)

lemma float_of_fval: "0 \<le> n \<Longrightarrow> n < 2 ^ 53 \<Longrightarrow> fval (float_of n) = of_int n \<and> flt_ok (float_of n)"
proof (cases "n = 0")
  case False
  assume "0 \<le> n" "n < 2 ^ 53"
  with False obtain s where s: "float_of n = (n * 2 ^ s, - int s)" "2 ^ 52 \<le> n * 2 ^ s" "n * 2 ^ s < 2 ^ 53"
    using normalize_ok[of n 0] by (auto simp: float_of_def)
  have "real_of_int (n * 2 ^ s) * 2 powr - real s = of_int n"
    by (simp add: powr_minus powr_realpow field_simps)
  with s show ?thesis by (simp add: fval_def flt_ok_def)
qed (simp add: fval_def flt_ok_def)

text \<open>Division by ten is exact on multiples of ten.\<close>

lemma round_tenth_exact: "round_tenth (10 * a) = a"
  by (simp add: round_tenth_def)

lemma fdiv10_exact:
  assumes "0 \<le> n" and "10 * n < 2 ^ 53"
  shows "fdiv10 (float_of (10 * n)) = float_of n"
proof (cases "n = 0")
  case True
  then show ?thesis by (simp add: fdiv10_def)
next
  case False
  then have n: "0 < n" using assms by simp
  obtain s where s: "float_of (10 * n) = (10 * n * 2 ^ s, - int s)" "2 ^ 52 \<le> 10 * n * 2 ^ s" "10 * n * 2 ^ s < 2 ^ 53"
    using normalize_ok[of "10 * n" 0] n assms by (auto simp: float_of_def)
  define k :: nat where "k = (if 5 * 2 ^ 50 \<le> 10 * n * 2 ^ s then 3 else 4)"
  have m: "round_tenth (2 ^ k * (10 * n * 2 ^ s)) = n * 2 ^ (s + k)"
    using round_tenth_exact[of "n * 2 ^ (s + k)"] by (simp add: power_add mult.commute mult.left_commute)
  have range: "2 ^ 52 \<le> n * 2 ^ (s + k)" "n * 2 ^ (s + k) < 2 ^ 53"
    using s(2,3) by (auto simp: k_def power_add)
  then have "fdiv10 (float_of (10 * n)) = (n * 2 ^ (s + k), - int s - int k)"
    using s n m by (simp add: fdiv10_def k_def Let_def)
  also have "\<dots> = float_of n"
    using float_of_eqI[OF n _ range] assms n by (simp add: add.commute)
  finally show ?thesis .
qed

text \<open>Otherwise the relative error is at most \<open>2 ^ -53\<close>.\<close>

lemma round_tenth_error: "\<bar>10 * round_tenth a - a\<bar> \<le> 5"
proof -
  define q r where "q = a div 10" and "r = a mod 10"
  have a: "a = 10 * q + r" and r: "0 \<le> r" "r < 10" by (simp_all add: q_def r_def)
  have "round_tenth a = q \<and> r \<le> 5 \<or> round_tenth a = q + 1 \<and> 5 \<le> r"
    by (simp add: round_tenth_def q_def[symmetric] r_def[symmetric] Let_def)
  then show ?thesis using a r by auto
qed

lemma fdiv10_error:
  assumes "flt_ok x"
  shows "\<bar>fval (fdiv10 x) - fval x / 10\<bar> \<le> fval x / 10 / 2 ^ 53 \<and> flt_ok (fdiv10 x)"
proof -
  obtain m e where x: "x = (m, e)" by fastforce
  show ?thesis
  proof (cases "m = 0")
    case True
    then show ?thesis by (simp add: x fdiv10_def fval_def flt_ok_def)
  next
    case False
    then have m: "2 ^ 52 \<le> m" "m < 2 ^ 53" using assms by (auto simp: flt_ok_def x)
    define k :: nat where "k = (if 5 * 2 ^ 50 \<le> m then 3 else 4)"
    define a where "a = 2 ^ k * m"
    define m' where "m' = round_tenth a"
    have a: "10 * 2 ^ 52 \<le> a" "a < 10 * 2 ^ 53" using m by (auto simp: a_def k_def)
    have err: "\<bar>10 * m' - a\<bar> \<le> 5" unfolding m'_def by (rule round_tenth_error)
    then have m': "2 ^ 52 \<le> m'" "m' \<le> 2 ^ 53" using a by linarith+
    define p where "p = 2 powr real_of_int (e - int k)"
    have p: "0 < p" by (simp add: p_def)
    have div: "fdiv10 x = (if m' = 2 ^ 53 then (2 ^ 52, e - int k + 1) else (m', e - int k))"
      using False by (simp add: fdiv10_def x m'_def a_def k_def Let_def)
    have val: "fval (fdiv10 x) = of_int m' * p"
    proof (cases "m' = 2 ^ 53")
      case True
      have "2 powr real_of_int (e - int k + 1) = 2 * p" by (simp add: p_def powr_add)
      then show ?thesis using True by (simp add: div fval_def)
    qed (simp add: div fval_def p_def)
    have "2 powr real_of_int e = 2 ^ k * p"
      by (simp add: p_def powr_realpow[symmetric] powr_add[symmetric])
    then have x10: "fval x / 10 = of_int a / 10 * p" by (simp add: fval_def x a_def)
    have "10 * real_of_int m' - of_int a \<le> 5" "of_int a - 10 * real_of_int m' \<le> 5" using err by linarith+
    then have half: "\<bar>real_of_int m' - of_int a / 10\<bar> \<le> 1 / 2" unfolding abs_le_iff by (intro conjI; linarith)
    have "real_of_int (10 * 2 ^ 52) \<le> real_of_int a" using a(1) by (simp only: of_int_le_iff)
    then have "1 / 2 \<le> of_int a / 10 / (2 ^ 53 :: real)" by simp
    with half have "\<bar>real_of_int m' - of_int a / 10\<bar> * p \<le> of_int a / 10 / 2 ^ 53 * p"
      using p by (intro mult_right_mono) auto
    then have "\<bar>fval (fdiv10 x) - fval x / 10\<bar> \<le> fval x / 10 / 2 ^ 53"
    proof -
      have "\<bar>real_of_int m' * p - of_int a / 10 * p\<bar> = \<bar>real_of_int m' - of_int a / 10\<bar> * p"
        using p by (simp only: left_diff_distrib[symmetric] abs_mult abs_of_pos)
      moreover have "of_int a / 10 * p / 2 ^ 53 = of_int a / 10 / 2 ^ 53 * p" by simp
      moreover assume "\<bar>real_of_int m' - of_int a / 10\<bar> * p \<le> of_int a / 10 / 2 ^ 53 * p"
      ultimately show ?thesis unfolding val x10 by linarith
    qed
    moreover have "flt_ok (fdiv10 x)" using m' by (auto simp: div flt_ok_def)
    ultimately show ?thesis ..
  qed
qed

lemma fdiv10_bounds:
  assumes "flt_ok x"
  shows "fval x / 10 * (1 - 1 / 2 ^ 53) \<le> fval (fdiv10 x)" and "fval (fdiv10 x) \<le> fval x / 10 * (1 + 1 / 2 ^ 53)"
    and "flt_ok (fdiv10 x)"
proof -
  have scale: "y * (1 + 1 / 2 ^ 53) = y + y / 2 ^ 53" "y * (1 - 1 / 2 ^ 53) = y - y / 2 ^ 53" for y :: real
    by (simp_all add: algebra_simps)
  have near: "y - d \<le> z \<and> z \<le> y + d" if "\<bar>z - y\<bar> \<le> d" for y z d :: real
    using that by linarith
  show "fval x / 10 * (1 - 1 / 2 ^ 53) \<le> fval (fdiv10 x)" "fval (fdiv10 x) \<le> fval x / 10 * (1 + 1 / 2 ^ 53)"
    unfolding scale using near fdiv10_error[OF assms] by blast+
  show "flt_ok (fdiv10 x)" using fdiv10_error[OF assms] by blast
qed

section \<open>Thousandths\<close>

text \<open>The float of a decimal with three places, as dividing three times computes it.\<close>

definition milli :: "int \<Rightarrow> flt" where
  "milli v = fdiv10 (fdiv10 (fdiv10 (float_of v)))"

lemma milli_bounds:
  assumes "0 \<le> v" and "v \<le> 1000"
  shows "of_int v * (1 - 1 / 10000) \<le> 1000 * fval (milli v)" and "1000 * fval (milli v) \<le> of_int v * (1 + 1 / 10000)"
proof -
  let ?d = "1 - 1 / 2 ^ 53 :: real" and ?u = "1 + 1 / 2 ^ 53 :: real"
  let ?x = "float_of v"
  have x: "fval ?x = of_int v" "flt_ok ?x" using float_of_fval[of v] assms by auto
  note b1 = fdiv10_bounds[OF x(2)]
  note b2 = fdiv10_bounds[OF b1(3)]
  note b3 = fdiv10_bounds[OF b2(3)]
  have mono: "y / 10 * c \<le> z / 10 * c" if "y \<le> z" "0 \<le> c" for y z c :: real
    using that by (intro mult_right_mono divide_right_mono) auto
  have d: "0 \<le> ?d" "0 \<le> ?u" by simp_all
  have "of_int v / 10 * ?d / 10 * ?d / 10 * ?d \<le> fval (milli v)"
    unfolding milli_def
    using order_trans[OF mono[OF order_trans[OF mono[OF b1(1)[unfolded x(1)] d(1)] b2(1)] d(1)] b3(1)] .
  moreover have "of_int v * (1 - 1 / 10000) \<le> of_int v * (?d * ?d * ?d)"
    using assms(1) by (intro mult_left_mono) (simp_all add: field_simps)
  ultimately show "of_int v * (1 - 1 / 10000) \<le> 1000 * fval (milli v)" by simp
  have "fval (milli v) \<le> of_int v / 10 * ?u / 10 * ?u / 10 * ?u"
    unfolding milli_def
    using order_trans[OF b3(2) mono[OF order_trans[OF b2(2) mono[OF b1(2)[unfolded x(1)] d(2)]] d(2)]] .
  moreover have "of_int v * (?u * ?u * ?u) \<le> of_int v * (1 + 1 / 10000)"
    using assms(1) by (intro mult_left_mono) (simp_all add: field_simps)
  ultimately show "1000 * fval (milli v) \<le> of_int v * (1 + 1 / 10000)" by simp
qed

lemma milli_strict_mono:
  assumes "0 \<le> v" and "v < w" and "w \<le> 1000"
  shows "fless (milli v) (milli w)"
proof -
  have "real_of_int v * (1 + 1 / 10000) < of_int w * (1 - 1 / 10000)"
  proof -
    have "real_of_int v + 1 \<le> of_int w" "real_of_int v \<le> 1000" "real_of_int w \<le> 1000" using assms by linarith+
    then show ?thesis by (simp add: field_simps)
  qed
  then show ?thesis
    using milli_bounds[of v] milli_bounds[of w] assms by (auto simp: fless_iff)
qed

text \<open>So comparing the floats is comparing the thousandths.\<close>

lemma milli_less_iff:
  assumes "0 \<le> v" and "v \<le> 1000" and "0 \<le> w" and "w \<le> 1000"
  shows "fless (milli v) (milli w) \<longleftrightarrow> v < w" and "milli v = milli w \<longleftrightarrow> v = w"
proof -
  have irrefl: "\<not> fless x x" for x by (simp add: fless_iff)
  have "fless (milli w) (milli v) \<Longrightarrow> \<not> fless (milli v) (milli w)" by (simp add: fless_iff)
  then show "fless (milli v) (milli w) \<longleftrightarrow> v < w" "milli v = milli w \<longleftrightarrow> v = w"
    using milli_strict_mono[of v w] milli_strict_mono[of w v] irrefl assms by (metis linorder_less_linear)+
qed

lemma milli_0 [simp]: "milli 0 = float_of 0"
  by (simp add: milli_def fdiv10_def)

lemma milli_1000: "milli 1000 = float_of 1"
  using fdiv10_exact[of 100] fdiv10_exact[of 10] fdiv10_exact[of 1] by (simp add: milli_def)

lemma milli_digits:
  assumes "0 \<le> n"
  shows "n < 100 \<Longrightarrow> milli (10 * n) = fdiv10 (fdiv10 (float_of n))" and "n < 10 \<Longrightarrow> milli (100 * n) = fdiv10 (float_of n)"
  using assms fdiv10_exact[of n] fdiv10_exact[of "10 * n"] by (auto simp: milli_def)

end
