(* ===== verification/Compression.thy ===== *)
theory Compression
  imports Go_Float Go_Strings "HOL-Library.Product_Lexorder"
begin

text \<open>
  Content coding negotiation, \<open>pkg/plugin/compression/negotiation.go\<close>: the qualities of an
  \<open>Accept-Encoding\<close> header, the choice among the offers the compression plugins registered, and the
  shared state that makes the choice once. Qualities are floats, as the code computes them.
\<close>

section \<open>Offers and decisions\<close>

type_synonym header = "(string, string list) gomap"

record ResponseMeta =
  rm_Method :: string
  rm_Status :: int
  rm_Header :: header

record Offer =
  of_Coding :: string
  of_Rank :: int
  of_Eligible :: "(ResponseMeta \<Rightarrow> bool) option"

record Decision =
  de_Coding :: string
  de_NotAcceptable :: bool
  de_Vary :: bool
  de_IdentityAllowed :: bool

abbreviation "Identity \<equiv> ''identity''"
abbreviation "Gzip \<equiv> ''gzip''"
abbreviation "Deflate \<equiv> ''deflate''"
abbreviation "Brotli \<equiv> ''br''"

record preference =
  pf_explicit :: bool
  pf_valid :: bool
  pf_q :: flt

record preferences =
  ps_byCoding :: "(string, preference) gomap"
  ps_wildcard :: preference

abbreviation "zero_flt \<equiv> (0, 0) :: flt"

definition no_preference :: preference where
  "no_preference = \<lparr>pf_explicit = False, pf_valid = False, pf_q = zero_flt\<rparr>"

definition EqualFold :: "string \<Rightarrow> string \<Rightarrow> bool" where
  "EqualFold a b \<longleftrightarrow> ToLower a = ToLower b"

section \<open>Qualities\<close>

definition is_digit :: "char \<Rightarrow> bool" where
  "is_digit c \<longleftrightarrow> digit_of c \<noteq> None"

definition parseQuality :: "string \<Rightarrow> flt \<times> bool" where
  "parseQuality val =
     (if val = [] \<or> list_ex (\<lambda>c. c \<in> set ''+-eE'') val then (zero_flt, False)
      else
        let (integer, fraction, hasDot) =
              (case Cut val CHR ''.'' of None \<Rightarrow> (val, [], False) | Some (a, b) \<Rightarrow> (a, b, True))
        in if hasDot \<and> CHR ''.'' \<in> set fraction then (zero_flt, False)
           else if hasDot \<and> length fraction > 3 then (zero_flt, False)
           else if integer \<noteq> ''0'' \<and> integer \<noteq> ''1'' then (zero_flt, False)
           else if \<not> list_all is_digit fraction then (zero_flt, False)
           else if integer = ''1''
           then (if list_all (\<lambda>c. c = CHR ''0'') fraction then (float_of 1, True) else (zero_flt, False))
           else if fraction = [] then (zero_flt, True)
           else case Atoi fraction of
                  None \<Rightarrow> (zero_flt, False)
                | Some parsed \<Rightarrow> ((fdiv10 ^^ length fraction) (float_of parsed), True))"

text \<open>The loop of \<open>parseMemberQuality\<close> over the parameters of a member.\<close>

fun member_quality :: "string list \<Rightarrow> flt \<Rightarrow> bool \<Rightarrow> flt \<times> bool" where
  "member_quality [] quality found = (quality, True)"
| "member_quality (param # params) quality found =
     (let param = TrimSpace param
      in if param = [] then member_quality params quality found
         else case Cut param CHR ''='' of
                None \<Rightarrow> member_quality params quality found
              | Some (key, val) \<Rightarrow>
                  if \<not> EqualFold (TrimSpace key) ''q'' then member_quality params quality found
                  else if found then (zero_flt, False)
                  else let (quality, valid) = parseQuality (TrimSpace val)
                       in if \<not> valid then (zero_flt, False) else member_quality params quality True)"

definition parseMemberQuality :: "string \<Rightarrow> flt \<times> bool" where
  "parseMemberQuality params = member_quality (Split params CHR '';'') (float_of 1) False"

definition mergePreference :: "(string, preference) gomap \<Rightarrow> string \<Rightarrow> preference \<Rightarrow> (string, preference) gomap" where
  "mergePreference values coding next =
     (case map_of values coding of
        None \<Rightarrow> mput coding next values
      | Some current \<Rightarrow>
          if pf_valid current \<and> pf_valid next
          then (if fless (pf_q current) (pf_q next) then mput coding next values else values)
          else if \<not> pf_valid current \<and> pf_valid next then mput coding next values
          else values)"

definition mergeWildcard :: "preference \<Rightarrow> preference \<Rightarrow> preference" where
  "mergeWildcard current next =
     (if \<not> pf_explicit current \<or> (\<not> pf_valid current \<and> pf_valid next)
       \<or> (pf_valid current \<and> pf_valid next \<and> fless (pf_q current) (pf_q next))
      then next else current)"

definition parse_member :: "preferences \<Rightarrow> string \<Rightarrow> preferences" where
  "parse_member prefs member =
     (let member = TrimSpace member
      in if member = [] then prefs
         else
           let (codingText, params) = (case Cut member CHR '';'' of None \<Rightarrow> (member, []) | Some (a, b) \<Rightarrow> (a, b));
               coding = ToLower (TrimSpace codingText)
           in if coding = [] then prefs
              else
                let (quality, valid) = parseMemberQuality params;
                    next = \<lparr>pf_explicit = True, pf_valid = valid, pf_q = quality\<rparr>
                in if coding \<in> {Identity, Gzip, Deflate, Brotli}
                   then prefs\<lparr>ps_byCoding := mergePreference (ps_byCoding prefs) coding next\<rparr>
                   else if coding = ''*'' then prefs\<lparr>ps_wildcard := mergeWildcard (ps_wildcard prefs) next\<rparr>
                   else prefs)"

definition parsePreferences :: "string list \<Rightarrow> preferences" where
  "parsePreferences values =
     fold (\<lambda>val prefs. fold (\<lambda>member prefs. parse_member prefs member) (Split val CHR '','') prefs) values
       \<lparr>ps_byCoding = [], ps_wildcard = no_preference\<rparr>"

definition codingQuality :: "preferences \<Rightarrow> string \<Rightarrow> flt \<times> bool" where
  "codingQuality prefs coding =
     (case map_of (ps_byCoding prefs) coding of
        Some pref \<Rightarrow>
          if pf_explicit pref then (pf_q pref, pf_valid pref)
          else if pf_explicit (ps_wildcard prefs) then (pf_q (ps_wildcard prefs), pf_valid (ps_wildcard prefs))
          else (zero_flt, False)
      | None \<Rightarrow>
          if pf_explicit (ps_wildcard prefs) then (pf_q (ps_wildcard prefs), pf_valid (ps_wildcard prefs))
          else (zero_flt, False))"

definition feq :: "flt \<Rightarrow> flt \<Rightarrow> bool" where
  "feq x y \<longleftrightarrow> \<not> fless x y \<and> \<not> fless y x"

text \<open>Whether the identity coding is allowed, its quality, and whether the header names it.\<close>

definition identityPreference :: "preferences \<Rightarrow> bool \<times> flt \<times> bool" where
  "identityPreference prefs =
     (case map_of (ps_byCoding prefs) Identity of
        Some pref \<Rightarrow>
          if pf_explicit pref then (pf_valid pref \<and> fless zero_flt (pf_q pref), pf_q pref, True)
          else if pf_explicit (ps_wildcard prefs) \<and> pf_valid (ps_wildcard prefs) \<and> feq (pf_q (ps_wildcard prefs)) zero_flt
          then (False, zero_flt, False) else (True, zero_flt, False)
      | None \<Rightarrow>
          if pf_explicit (ps_wildcard prefs) \<and> pf_valid (ps_wildcard prefs) \<and> feq (pf_q (ps_wildcard prefs)) zero_flt
          then (False, zero_flt, False) else (True, zero_flt, False))"

section \<open>The decision\<close>

record candidate =
  ca_coding :: string
  ca_q :: flt
  ca_rank :: int
  ca_set :: bool

definition canonicalRank :: "string \<Rightarrow> int" where
  "canonicalRank coding = (if coding = Brotli then 3 else if coding = Gzip then 2 else if coding = Deflate then 1 else 0)"

definition betterCandidate :: "candidate \<Rightarrow> candidate \<Rightarrow> bool" where
  "betterCandidate next current =
     (if \<not> ca_set current then True
      else if \<not> feq (ca_q next) (ca_q current) then fless (ca_q current) (ca_q next)
      else if ca_rank next \<noteq> ca_rank current then ca_rank current < ca_rank next
      else canonicalRank (ca_coding current) < canonicalRank (ca_coding next))"

definition hasCompressionOffer :: "Offer list \<Rightarrow> bool" where
  "hasCompressionOffer offers = list_ex (\<lambda>offer. of_Coding offer \<noteq> Identity) offers"

fun responseContentCoding :: "header \<Rightarrow> string" where
  "responseContentCoding [] = []"
| "responseContentCoding ((actual, values) # header) =
     (if \<not> EqualFold actual ''Content-Encoding'' \<or> values = [] then responseContentCoding header
      else let coding = ToLower (TrimSpace (hd values))
           in if coding \<noteq> [] then coding else responseContentCoding header)"

definition eligible_offers :: "Offer list \<Rightarrow> ResponseMeta \<Rightarrow> Offer list" where
  "eligible_offers offers meta =
     filter (\<lambda>offer. of_Coding offer \<noteq> Identity
       \<and> (case of_Eligible offer of None \<Rightarrow> True | Some eligible \<Rightarrow> eligible meta)) offers"

fun best_candidate :: "preferences \<Rightarrow> Offer list \<Rightarrow> candidate \<Rightarrow> candidate" where
  "best_candidate prefs [] best = best"
| "best_candidate prefs (offer # offers) best =
     (let (q, available) = codingQuality prefs (of_Coding offer)
      in if \<not> available \<or> \<not> fless zero_flt q then best_candidate prefs offers best
         else let candidate = \<lparr>ca_coding = of_Coding offer, ca_q = q, ca_rank = of_Rank offer, ca_set = True\<rparr>
              in if \<not> ca_set best \<or> betterCandidate candidate best then best_candidate prefs offers candidate
                 else best_candidate prefs offers best)"

definition no_candidate :: candidate where
  "no_candidate = \<lparr>ca_coding = [], ca_q = zero_flt, ca_rank = 0, ca_set = False\<rparr>"

definition decide :: "string list \<Rightarrow> Offer list \<Rightarrow> ResponseMeta \<Rightarrow> Decision" where
  "decide headerValues offers meta =
     (if rm_Status meta = 101 \<or> rm_Status meta = 204
      then \<lparr>de_Coding = Identity, de_NotAcceptable = False, de_Vary = False, de_IdentityAllowed = True\<rparr>
      else if rm_Status meta = 304
      then \<lparr>de_Coding = Identity, de_NotAcceptable = False, de_Vary = hasCompressionOffer offers, de_IdentityAllowed = True\<rparr>
      else
        let prefs = parsePreferences headerValues;
            (identityAllowed, identityQuality, identityExplicit) = identityPreference prefs;
            coding = responseContentCoding (rm_Header meta)
        in if coding \<noteq> []
           then \<lparr>de_Coding = coding, de_NotAcceptable = False, de_Vary = hasCompressionOffer offers,
                  de_IdentityAllowed = identityAllowed\<rparr>
           else
             let eligible = eligible_offers offers meta;
                 vary = (eligible \<noteq> []);
                 best = best_candidate prefs eligible no_candidate
             in if identityExplicit \<and> identityAllowed \<and> (\<not> ca_set best \<or> fless (ca_q best) identityQuality
                   \<or> (feq identityQuality (ca_q best) \<and> 0 > ca_rank best))
                then \<lparr>de_Coding = Identity, de_NotAcceptable = False, de_Vary = vary, de_IdentityAllowed = True\<rparr>
                else if ca_set best
                then \<lparr>de_Coding = ca_coding best, de_NotAcceptable = False, de_Vary = vary,
                       de_IdentityAllowed = identityAllowed\<rparr>
                else if identityAllowed
                then \<lparr>de_Coding = Identity, de_NotAcceptable = False, de_Vary = vary, de_IdentityAllowed = True\<rparr>
                else \<lparr>de_Coding = [], de_NotAcceptable = True, de_Vary = vary, de_IdentityAllowed = False\<rparr>)"

section \<open>The shared state\<close>

record State =
  st_offers :: "Offer list"
  st_acceptEncodings :: "string list"
  st_frozen :: bool
  st_decision :: Decision

definition requestHeaderValues :: "header \<Rightarrow> string \<Rightarrow> string list" where
  "requestHeaderValues header name = concat (map (\<lambda>(actual, entries). if EqualFold actual name then entries else []) header)"

definition zero_decision :: Decision where
  "zero_decision = \<lparr>de_Coding = [], de_NotAcceptable = False, de_Vary = False, de_IdentityAllowed = False\<rparr>"

definition Register :: "header \<Rightarrow> State option \<Rightarrow> Offer list \<Rightarrow> State" where
  "Register header state offers =
     (let s = (case state of
                 None \<Rightarrow> \<lparr>st_offers = [], st_acceptEncodings = requestHeaderValues header ''Accept-Encoding'',
                         st_frozen = False, st_decision = zero_decision\<rparr>
               | Some s \<Rightarrow> s)
      in if \<not> st_frozen s then s\<lparr>st_offers := st_offers s @ offers\<rparr> else s)"

definition Decide :: "State option \<Rightarrow> ResponseMeta \<Rightarrow> State option \<times> Decision" where
  "Decide state meta =
     (case state of
        None \<Rightarrow> (None, \<lparr>de_Coding = Identity, de_NotAcceptable = False, de_Vary = False, de_IdentityAllowed = True\<rparr>)
      | Some s \<Rightarrow>
          if st_frozen s then (Some s, st_decision s)
          else let s' = s\<lparr>st_decision := decide (st_acceptEncodings s) (st_offers s) meta, st_frozen := True\<rparr>
               in (Some s', st_decision s'))"

section \<open>Qualities are decimal\<close>

text \<open>The quality values of RFC 9110, in thousandths.\<close>

definition qfraction :: "string \<Rightarrow> int option" where
  "qfraction ds =
     (if length ds \<le> 3 \<and> list_all is_digit ds
      then map_option int (digits_value 0 (ds @ replicate (3 - length ds) CHR ''0'')) else None)"

fun qvalue :: "string \<Rightarrow> int option" where
  "qvalue [] = None"
| "qvalue (c # rest) =
     (if c = CHR ''0'' then
        (case rest of [] \<Rightarrow> Some 0 | d # ds \<Rightarrow> if d = CHR ''.'' then qfraction ds else None)
      else if c = CHR ''1'' then
        (case rest of
           [] \<Rightarrow> Some 1000
         | d # ds \<Rightarrow> if d = CHR ''.'' \<and> length ds \<le> 3 \<and> list_all (\<lambda>c. c = CHR ''0'') ds then Some 1000 else None)
      else None)"

lemma replicate_3: "replicate 3 x = [x, x, x]"
  by (simp add: numeral_3_eq_3)

lemma digit_0 [simp]: "digit_of CHR ''0'' = Some 0"
  by (simp add: digit_of_def)

lemma is_digit_cases: "is_digit c \<Longrightarrow> \<exists>d<10. digit_of c = Some d"
  by (auto simp: is_digit_def digit_of_def Let_def split: if_splits)

lemma not_digit: "\<not> is_digit CHR ''+''" "\<not> is_digit CHR ''-''" "\<not> is_digit CHR ''e''" "\<not> is_digit CHR ''E''"
  "\<not> is_digit CHR ''.''"
  by (simp_all add: is_digit_def digit_of_def)

lemma short_digits_cases:
  assumes "length ds \<le> 3" and "list_all is_digit ds" and "ds \<noteq> []"
  obtains a i where "ds = [a]" "digit_of a = Some i" "i < 10"
  | a b i j where "ds = [a, b]" "digit_of a = Some i" "i < 10" "digit_of b = Some j" "j < 10"
  | a b c i j k where "ds = [a, b, c]" "digit_of a = Some i" "i < 10" "digit_of b = Some j" "j < 10"
      "digit_of c = Some k" "k < 10"
proof -
  have "0 < length ds" using assms(3) by simp
  with assms(1) consider "length ds = 1" | "length ds = 2" | "length ds = 3" by linarith
  then show ?thesis
  proof cases
    case 1
    then obtain a where ds: "ds = [a]" by (auto simp: length_Suc_conv)
    then obtain i where "digit_of a = Some i" "i < 10" using assms(2) is_digit_cases by auto
    with ds that(1) show ?thesis by blast
  next
    case 2
    then obtain a b where ds: "ds = [a, b]" by (auto simp: length_Suc_conv numeral_2_eq_2)
    then have "is_digit a" "is_digit b" using assms(2) by simp_all
    then obtain i j where "digit_of a = Some i" "i < 10" "digit_of b = Some j" "j < 10"
      using is_digit_cases[of a] is_digit_cases[of b] by blast
    with ds that(2) show ?thesis by blast
  next
    case 3
    then obtain a b c where ds: "ds = [a, b, c]" by (auto simp: length_Suc_conv numeral_3_eq_3)
    then have "is_digit a" "is_digit b" "is_digit c" using assms(2) by simp_all
    then obtain i j k where "digit_of a = Some i" "i < 10" "digit_of b = Some j" "j < 10" "digit_of c = Some k" "k < 10"
      using is_digit_cases[of a] is_digit_cases[of b] is_digit_cases[of c] by blast
    with ds that(3) show ?thesis by blast
  qed
qed

lemma Atoi_digits:
  assumes "digit_of a = Some i" and "digits_value i ds = Some n" and "n < 1000"
  shows "Atoi (a # ds) = Some (int n)"
proof -
  have "a \<noteq> CHR ''-''" "a \<noteq> CHR ''+''" using assms(1) by (auto simp: digit_of_def)
  then show ?thesis using assms by (simp add: Atoi_def parse_uint_def max_int64_def)
qed

lemma quality_fraction:
  assumes "length ds \<le> 3" and "list_all is_digit ds" and "ds \<noteq> []"
  shows "\<exists>n v. Atoi ds = Some n \<and> qfraction ds = Some v \<and> 0 \<le> v \<and> v \<le> 1000
    \<and> (fdiv10 ^^ length ds) (float_of n) = milli v"
  using assms
proof (cases rule: short_digits_cases)
  case (1 a i)
  then show ?thesis
    using Atoi_digits[of a i "[]" i] milli_digits(2)[of "int i"] assms
    by (simp add: qfraction_def numeral_2_eq_2)
next
  case (2 a b i j)
  then show ?thesis
    using Atoi_digits[of a i "[b]" "10 * i + j"] milli_digits(1)[of "int (10 * i + j)"] assms
    by (simp add: qfraction_def numeral_2_eq_2)
next
  case (3 a b c i j k)
  then show ?thesis
    using Atoi_digits[of a i "[b, c]" "10 * (10 * i + j) + k"] assms
    by (simp add: qfraction_def milli_def numeral_2_eq_2 numeral_3_eq_3)
qed

lemma parseQuality_dot:
  assumes "u = a @ CHR ''.'' # b" and "CHR ''.'' \<notin> set a"
  shows "parseQuality u =
    (if list_ex (\<lambda>c. c \<in> set ''+-eE'') u \<or> CHR ''.'' \<in> set b \<or> length b > 3 \<or> a \<noteq> ''0'' \<and> a \<noteq> ''1'' \<or> \<not> list_all is_digit b
     then (zero_flt, False)
     else if a = ''1'' then (if list_all (\<lambda>c. c = CHR ''0'') b then (float_of 1, True) else (zero_flt, False))
     else if b = [] then (zero_flt, True)
     else case Atoi b of None \<Rightarrow> (zero_flt, False) | Some n \<Rightarrow> ((fdiv10 ^^ length b) (float_of n), True))"
proof -
  have "Cut (a @ CHR ''.'' # b) CHR ''.'' = Some (a, b)" using assms(2) by (induction a) auto
  then show ?thesis using assms(1) by (simp add: parseQuality_def)
qed

lemma digits_plain: "list_all is_digit ds \<Longrightarrow> \<not> list_ex (\<lambda>c. c \<in> set ''+-eE'') ds \<and> CHR ''.'' \<notin> set ds"
  using not_digit by (auto simp: list_all_iff list_ex_iff)

lemma zeros_digits: "list_all (\<lambda>c. c = CHR ''0'') ds \<Longrightarrow> list_all is_digit ds"
  by (induction ds) (simp_all add: is_digit_def)

lemma parseQuality_qvalue:
  "parseQuality u = (case qvalue u of None \<Rightarrow> (zero_flt, False) | Some v \<Rightarrow> (milli v, True))
   \<and> (case qvalue u of None \<Rightarrow> True | Some v \<Rightarrow> 0 \<le> v \<and> v \<le> 1000)"
proof (cases "Cut u CHR ''.''")
  case None
  then have dot: "CHR ''.'' \<notin> set u" by (simp add: Cut_None)
  show ?thesis
  proof (cases "u = ''0'' \<or> u = ''1''")
    case True
    then show ?thesis by (auto simp: parseQuality_def milli_1000)
  next
    case False
    then have "qvalue u = None" using dot by (cases u; cases "tl u") auto
    then show ?thesis using None False by (simp add: parseQuality_def)
  qed
next
  case (Some ab)
  obtain a b where "ab = (a, b)" by fastforce
  with Some have u: "u = a @ CHR ''.'' # b" and a: "CHR ''.'' \<notin> set a" using Cut_Some by auto
  note parsed = parseQuality_dot[OF u a]
  consider (zero) "a = ''0''" | (one) "a = ''1''" | (other) "a \<noteq> ''0''" "a \<noteq> ''1''" by blast
  then show ?thesis
  proof cases
    case zero
    show ?thesis
    proof (cases "length b \<le> 3 \<and> list_all is_digit b \<and> b \<noteq> []")
      case True
      then obtain n v where "Atoi b = Some n" "qfraction b = Some v" "0 \<le> v" "v \<le> 1000"
        "(fdiv10 ^^ length b) (float_of n) = milli v" using quality_fraction by blast
      then show ?thesis unfolding parsed using True digits_plain[of b] zero by (simp add: u)
    next
      case False
      show ?thesis
      proof (cases "b = []")
        case True
        have "qfraction [] = Some 0" by (simp add: qfraction_def replicate_3)
        then show ?thesis unfolding parsed using zero True by (simp add: u milli_0)
      next
        case nonempty: False
        have "\<not> (length b \<le> 3 \<and> list_all is_digit b)" using False nonempty by blast
        then have "qfraction b = None" and "3 < length b \<or> \<not> list_all is_digit b" by (auto simp: qfraction_def)
        then show ?thesis unfolding parsed using zero by (simp add: u)
      qed
    qed
  next
    case one
    show ?thesis
    proof (cases "list_all (\<lambda>c. c = CHR ''0'') b")
      case True
      from zeros_digits[OF True] digits_plain[of b] True show ?thesis
        unfolding parsed using one by (simp add: u milli_1000)
    next
      case False
      then show ?thesis unfolding parsed using one by (simp add: u)
    qed
  next
    case other
    then have "qvalue u = None" using a by (cases a; cases "tl a") (auto simp: u)
    then show ?thesis unfolding parsed using other by simp
  qed
qed

text \<open>C34. Qualities are read as the standard says. \<open>parseQuality\<close> accepts exactly the quality values of
  RFC 9110 and returns the float that stands for their thousandths; the order of these floats is
  the order of the decimals, in spite of the rounding of the divisions.\<close>

theorem parse_quality_exact:
  "parseQuality s = (case qvalue s of None \<Rightarrow> (zero_flt, False) | Some v \<Rightarrow> (milli v, True))
   \<and> (case qvalue s of None \<Rightarrow> True | Some v \<Rightarrow> 0 \<le> v \<and> v \<le> 1000)
   \<and> (case (qvalue s, qvalue t) of (Some v, Some w) \<Rightarrow> fless (fst (parseQuality s)) (fst (parseQuality t)) \<longleftrightarrow> v < w | _ \<Rightarrow> True)"
proof -
  have exact: "parseQuality u = (case qvalue u of None \<Rightarrow> (zero_flt, False) | Some v \<Rightarrow> (milli v, True))
      \<and> (case qvalue u of None \<Rightarrow> True | Some v \<Rightarrow> 0 \<le> v \<and> v \<le> 1000)" for u
    using parseQuality_qvalue by blast
  show ?thesis
    using exact[of s] exact[of t] milli_less_iff(1) by (auto split: option.splits)
qed

section \<open>The best offer\<close>

definition cand :: "preferences \<Rightarrow> Offer \<Rightarrow> candidate" where
  "cand prefs offer = \<lparr>ca_coding = of_Coding offer, ca_q = fst (codingQuality prefs (of_Coding offer)),
     ca_rank = of_Rank offer, ca_set = True\<rparr>"

text \<open>Candidates are compared by quality, then rank, then the canonical order of the codings.\<close>

definition ckey :: "candidate \<Rightarrow> real \<times> int \<times> int" where
  "ckey c = (fval (ca_q c), ca_rank c, canonicalRank (ca_coding c))"

definition acceptable :: "preferences \<Rightarrow> Offer \<Rightarrow> bool" where
  "acceptable prefs offer \<longleftrightarrow>
     (let (q, available) = codingQuality prefs (of_Coding offer) in available \<and> fless zero_flt q)"

lemma feq_iff: "feq x y \<longleftrightarrow> fval x = fval y"
  by (auto simp: feq_def fless_iff)

lemma betterCandidate_iff: "ca_set c \<Longrightarrow> betterCandidate n c \<longleftrightarrow> ckey c < ckey n"
  by (auto simp: betterCandidate_def ckey_def feq_iff fless_iff less_prod_def)

lemma best_candidate_from:
  assumes "ca_set best"
  shows "let r = best_candidate prefs offers best in ca_set r \<and> ckey best \<le> ckey r
     \<and> (r = best \<or> (\<exists>o'\<in>set offers. acceptable prefs o' \<and> r = cand prefs o'))
     \<and> (\<forall>o'\<in>set offers. acceptable prefs o' \<longrightarrow> ckey (cand prefs o') \<le> ckey r)"
  using assms
proof (induction offers arbitrary: best)
  case (Cons offer offers)
  obtain q available where q: "codingQuality prefs (of_Coding offer) = (q, available)" by fastforce
  show ?case
  proof (cases "acceptable prefs offer")
    case False
    then have "best_candidate prefs (offer # offers) best = best_candidate prefs offers best"
      using q by (auto simp: acceptable_def)
    with Cons.IH[OF Cons.prems] False show ?thesis by (auto simp: Let_def)
  next
    case True
    let ?c = "cand prefs offer"
    have step: "best_candidate prefs (offer # offers) best =
        best_candidate prefs offers (if ckey best < ckey ?c then ?c else best)"
      using q True Cons.prems betterCandidate_iff[of best ?c] by (auto simp: acceptable_def cand_def Let_def)
    show ?thesis
    proof (cases "ckey best < ckey ?c")
      case less: True
      have "ca_set ?c" by (simp add: cand_def)
      from Cons.IH[OF this] less True show ?thesis
        unfolding step by (fastforce simp: Let_def)
    next
      case False
      from Cons.IH[OF Cons.prems] False True show ?thesis
        unfolding step by (fastforce simp: Let_def)
    qed
  qed
qed simp

lemma best_candidate_spec:
  fixes prefs offers
  defines "r \<equiv> best_candidate prefs offers no_candidate"
  shows "if \<exists>o'\<in>set offers. acceptable prefs o'
    then ca_set r \<and> (\<exists>o'\<in>set offers. acceptable prefs o' \<and> r = cand prefs o')
      \<and> (\<forall>o'\<in>set offers. acceptable prefs o' \<longrightarrow> ckey (cand prefs o') \<le> ckey r)
    else r = no_candidate"
  unfolding r_def
proof (induction offers)
  case (Cons offer offers)
  obtain q available where q: "codingQuality prefs (of_Coding offer) = (q, available)" by fastforce
  show ?case
  proof (cases "acceptable prefs offer")
    case False
    then have "best_candidate prefs (offer # offers) no_candidate = best_candidate prefs offers no_candidate"
      using q by (auto simp: acceptable_def)
    with Cons.IH False show ?thesis by (auto split: if_splits)
  next
    case True
    then have step: "best_candidate prefs (offer # offers) no_candidate = best_candidate prefs offers (cand prefs offer)"
      using q by (auto simp: acceptable_def cand_def no_candidate_def Let_def)
    have "ca_set (cand prefs offer)" by (simp add: cand_def)
    from best_candidate_from[OF this, of prefs offers] True show ?thesis
      unfolding step by (fastforce simp: Let_def)
  qed
qed simp

text \<open>Among the codings of the plugins the key determines the coding.\<close>

lemma canonicalRank_inj:
  "a \<in> {Gzip, Deflate, Brotli} \<Longrightarrow> b \<in> {Gzip, Deflate, Brotli} \<Longrightarrow> canonicalRank a = canonicalRank b \<Longrightarrow> a = b"
  by (auto simp: canonicalRank_def)

lemma best_candidate_set:
  assumes "set os = set os'" and "\<forall>o'\<in>set os. of_Coding o' \<in> {Gzip, Deflate, Brotli}"
  shows "best_candidate prefs os no_candidate = best_candidate prefs os' no_candidate
     \<or> ca_set (best_candidate prefs os no_candidate) \<and> ca_set (best_candidate prefs os' no_candidate)
       \<and> ckey (best_candidate prefs os no_candidate) = ckey (best_candidate prefs os' no_candidate)
       \<and> ca_coding (best_candidate prefs os no_candidate) = ca_coding (best_candidate prefs os' no_candidate)"
proof (cases "\<exists>o'\<in>set os. acceptable prefs o'")
  case False
  then show ?thesis
    using best_candidate_spec[of os prefs] best_candidate_spec[of os' prefs] assms(1) by auto
next
  case True
  let ?r = "best_candidate prefs os no_candidate" and ?r' = "best_candidate prefs os' no_candidate"
  obtain a where a: "a \<in> set os" "acceptable prefs a" "?r = cand prefs a" "ca_set ?r"
    "\<forall>o'\<in>set os. acceptable prefs o' \<longrightarrow> ckey (cand prefs o') \<le> ckey ?r"
    using best_candidate_spec[of os prefs] True by auto
  obtain b where b: "b \<in> set os" "acceptable prefs b" "?r' = cand prefs b" "ca_set ?r'"
    "\<forall>o'\<in>set os. acceptable prefs o' \<longrightarrow> ckey (cand prefs o') \<le> ckey ?r'"
    using best_candidate_spec[of os' prefs] True assms(1) by auto
  have key: "ckey ?r = ckey ?r'" using a b by (metis order_antisym)
  moreover have "ca_coding ?r = ca_coding ?r'"
    using key assms(2) a(1,3) b(1,3) by (intro canonicalRank_inj) (auto simp: cand_def ckey_def)
  ultimately show ?thesis using a(4) b(4) by blast
qed

section \<open>The decision is the client's best\<close>

definition good_offers :: "string list \<Rightarrow> Offer list \<Rightarrow> ResponseMeta \<Rightarrow> Offer set" where
  "good_offers headerValues offers meta =
     {offer \<in> set (eligible_offers offers meta). acceptable (parsePreferences headerValues) offer}"

text \<open>The decision after the status and the content encoding have been looked at.\<close>

definition final_choice :: "bool \<times> flt \<times> bool \<Rightarrow> bool \<Rightarrow> candidate \<Rightarrow> Decision" where
  "final_choice identity vary best =
     (let (identityAllowed, identityQuality, identityExplicit) = identity
      in if identityExplicit \<and> identityAllowed \<and> (\<not> ca_set best \<or> fless (ca_q best) identityQuality
            \<or> (feq identityQuality (ca_q best) \<and> 0 > ca_rank best))
         then \<lparr>de_Coding = Identity, de_NotAcceptable = False, de_Vary = vary, de_IdentityAllowed = True\<rparr>
         else if ca_set best
         then \<lparr>de_Coding = ca_coding best, de_NotAcceptable = False, de_Vary = vary, de_IdentityAllowed = identityAllowed\<rparr>
         else if identityAllowed
         then \<lparr>de_Coding = Identity, de_NotAcceptable = False, de_Vary = vary, de_IdentityAllowed = True\<rparr>
         else \<lparr>de_Coding = [], de_NotAcceptable = True, de_Vary = vary, de_IdentityAllowed = False\<rparr>)"

lemma decide_final:
  assumes "rm_Status meta \<notin> {101, 204, 304}" and "responseContentCoding (rm_Header meta) = []"
  shows "decide headerValues offers meta =
    final_choice (identityPreference (parsePreferences headerValues)) (eligible_offers offers meta \<noteq> [])
      (best_candidate (parsePreferences headerValues) (eligible_offers offers meta) no_candidate)"
  using assms unfolding decide_def final_choice_def Let_def by (simp split: prod.split)

lemma final_choice_cong:
  assumes "ca_set b" "ca_set b'" "ckey b = ckey b'" "ca_coding b = ca_coding b'"
  shows "final_choice identity vary b = final_choice identity vary b'"
  using assms by (auto simp: final_choice_def ckey_def fless_iff feq_iff Let_def split: prod.splits)

lemma final_choice_spec:
  assumes "final_choice (allowed, qi, explicit) vary b = d" and "ca_set b \<Longrightarrow> ca_coding b \<noteq> Identity"
  shows "(de_NotAcceptable d \<longleftrightarrow> \<not> ca_set b \<and> \<not> allowed)
    \<and> (de_Coding d = Identity \<longrightarrow> allowed \<and> (\<not> ca_set b \<or> explicit \<and> fval (ca_q b) \<le> fval qi))
    \<and> (de_Coding d \<noteq> Identity \<and> \<not> de_NotAcceptable d \<longrightarrow>
        ca_set b \<and> de_Coding d = ca_coding b \<and> (explicit \<and> allowed \<longrightarrow> fval qi \<le> fval (ca_q b)))
    \<and> de_Vary d = vary"
  using assms by (auto simp: final_choice_def fless_iff feq_iff split: if_splits)

lemma eligible_set: "set offers = set offers' \<Longrightarrow> set (eligible_offers offers meta) = set (eligible_offers offers' meta)"
  by (auto simp: eligible_offers_def)

lemma decide_order:
  assumes "rm_Status meta \<notin> {101, 204, 304}" and "responseContentCoding (rm_Header meta) = []"
    and "set offers' = set offers" and "\<forall>o'\<in>set offers. of_Coding o' \<in> {Identity, Gzip, Deflate, Brotli}"
  shows "decide headerValues offers' meta = decide headerValues offers meta"
proof -
  let ?p = "parsePreferences headerValues"
  have same: "set (eligible_offers offers' meta) = set (eligible_offers offers meta)"
    using eligible_set[OF assms(3)] .
  then have vary: "eligible_offers offers' meta \<noteq> [] \<longleftrightarrow> eligible_offers offers meta \<noteq> []"
    by (metis set_empty)
  have known: "\<forall>o'\<in>set (eligible_offers offers' meta). of_Coding o' \<in> {Gzip, Deflate, Brotli}"
    using assms(3,4) by (auto simp: eligible_offers_def)
  show ?thesis
    using best_candidate_set[OF same known, of ?p] final_choice_cong
    unfolding decide_final[OF assms(1,2)] vary by metis
qed

text \<open>C35. The coding chosen is the client's best. For a response that is to be encoded the decision does
  not depend on the order in which the plugins registered their offers. It is refused exactly when
  no eligible offer has a positive quality and identity is excluded. A compression coding is
  chosen only if its offer is the greatest of the acceptable ones, by quality, then rank, then the
  fixed order of the codings, and not below an identity that the client named. Identity is
  chosen only when it is allowed, and over an acceptable offer only when the client named it with
  at least that quality.\<close>

theorem decide_best_offer:
  fixes headerValues offers offers' meta
  defines "d \<equiv> decide headerValues offers meta" and "good \<equiv> good_offers headerValues offers meta"
    and "prefs \<equiv> parsePreferences headerValues"
  assumes "rm_Status meta \<notin> {101, 204, 304}" and "responseContentCoding (rm_Header meta) = []"
    and "\<forall>o'\<in>set offers. of_Coding o' \<in> {Identity, Gzip, Deflate, Brotli}"
    and "set offers' = set offers"
  shows "case identityPreference prefs of (allowed, qi, explicit) \<Rightarrow>
      decide headerValues offers' meta = d
    \<and> de_Vary d = (eligible_offers offers meta \<noteq> [])
    \<and> (de_NotAcceptable d \<longleftrightarrow> good = {} \<and> \<not> allowed)
    \<and> (de_Coding d \<noteq> Identity \<and> \<not> de_NotAcceptable d \<longrightarrow>
        (\<exists>b\<in>good. de_Coding d = of_Coding b \<and> (\<forall>o'\<in>good. ckey (cand prefs o') \<le> ckey (cand prefs b))
           \<and> (explicit \<and> allowed \<longrightarrow> fval qi \<le> fval (ca_q (cand prefs b)))))
    \<and> (de_Coding d = Identity \<longrightarrow> allowed \<and> (good = {} \<or> explicit \<and> (\<forall>o'\<in>good. fval (ca_q (cand prefs o')) \<le> fval qi)))"
proof -
  let ?e = "eligible_offers offers meta"
  define b where "b = best_candidate prefs ?e no_candidate"
  obtain allowed qi explicit where i: "identityPreference prefs = (allowed, qi, explicit)" by (cases "identityPreference prefs")
  have d: "final_choice (allowed, qi, explicit) (?e \<noteq> []) b = d"
    unfolding d_def b_def prefs_def by (simp add: decide_final[OF assms(4,5)] i[unfolded prefs_def])
  have good: "good = {o' \<in> set ?e. acceptable prefs o'}" by (simp add: good_def good_offers_def prefs_def)
  have set: "ca_set b \<longleftrightarrow> good \<noteq> {}"
    using best_candidate_spec[of ?e prefs, folded b_def] by (auto simp: good no_candidate_def split: if_splits)
  have max: "\<exists>o'\<in>good. b = cand prefs o'" "\<forall>o'\<in>good. ckey (cand prefs o') \<le> ckey b" if "ca_set b"
    using best_candidate_spec[of ?e prefs, folded b_def] that by (auto simp: good no_candidate_def split: if_splits)
  have coding: "ca_coding b \<noteq> Identity" if "ca_set b"
    using max(1)[OF that] by (auto simp: good eligible_offers_def cand_def)
  have below: "\<forall>o'\<in>good. fval (ca_q (cand prefs o')) \<le> fval (ca_q b)" if "ca_set b"
    using max(2)[OF that] by (auto simp: ckey_def less_eq_prod_def)
  have order: "decide headerValues offers' meta = d"
    unfolding d_def using decide_order assms(4-7) by blast
  have chosen: "\<exists>b'\<in>good. de_Coding d = of_Coding b' \<and> (\<forall>o'\<in>good. ckey (cand prefs o') \<le> ckey (cand prefs b'))
      \<and> (explicit \<and> allowed \<longrightarrow> fval qi \<le> fval (ca_q (cand prefs b')))"
    if "de_Coding d \<noteq> Identity \<and> \<not> de_NotAcceptable d"
  proof -
    have b: "ca_set b" "de_Coding d = ca_coding b" "explicit \<and> allowed \<longrightarrow> fval qi \<le> fval (ca_q b)"
      using final_choice_spec[OF d coding] that by auto
    from max[OF b(1)] obtain b' where "b' \<in> good" "b = cand prefs b'" by blast
    then show ?thesis using b max(2)[OF b(1)] by (auto simp: cand_def)
  qed
  have identity: "allowed \<and> (good = {} \<or> explicit \<and> (\<forall>o'\<in>good. fval (ca_q (cand prefs o')) \<le> fval qi))"
    if "de_Coding d = Identity"
  proof -
    have "allowed" "ca_set b \<Longrightarrow> explicit \<and> fval (ca_q b) \<le> fval qi"
      using final_choice_spec[OF d coding] that by blast+
    then show ?thesis using below set order_trans by blast
  qed
  have "de_Vary d = (?e \<noteq> [])" "de_NotAcceptable d \<longleftrightarrow> good = {} \<and> \<not> allowed"
    using final_choice_spec[OF d coding] set by blast+
  then show ?thesis unfolding i prod.case using order chosen identity by blast
qed

text \<open>Gzip is offered before brotli, but the client weights brotli higher.\<close>

lemma prefer_brotli:
  "de_Coding (decide [''gzip;q=0.5, br'']
     [\<lparr>of_Coding = Gzip, of_Rank = 1, of_Eligible = None\<rparr>, \<lparr>of_Coding = Brotli, of_Rank = 0, of_Eligible = None\<rparr>]
     \<lparr>rm_Method = ''GET'', rm_Status = 200, rm_Header = []\<rparr>) = Brotli"
  by code_simp

text \<open>Here the order of the offers is turned round as well.\<close>

lemma decide_best_offer_witness:
  "de_Coding (decide [''gzip;q=0.5, br'']
      [\<lparr>of_Coding = Brotli, of_Rank = 0, of_Eligible = None\<rparr>, \<lparr>of_Coding = Gzip, of_Rank = 1, of_Eligible = None\<rparr>]
      \<lparr>rm_Method = ''GET'', rm_Status = 200, rm_Header = []\<rparr>) = Brotli"
proof -
  let ?m = "\<lparr>rm_Method = ''GET'', rm_Status = 200, rm_Header = []\<rparr>"
  have "decide [''gzip;q=0.5, br'']
      [\<lparr>of_Coding = Brotli, of_Rank = 0, of_Eligible = None\<rparr>, \<lparr>of_Coding = Gzip, of_Rank = 1, of_Eligible = None\<rparr>] ?m =
    decide [''gzip;q=0.5, br'']
      [\<lparr>of_Coding = Gzip, of_Rank = 1, of_Eligible = None\<rparr>, \<lparr>of_Coding = Brotli, of_Rank = 0, of_Eligible = None\<rparr>] ?m"
    using decide_best_offer[of ?m "[\<lparr>of_Coding = Gzip, of_Rank = 1, of_Eligible = None\<rparr>, \<lparr>of_Coding = Brotli, of_Rank = 0, of_Eligible = None\<rparr>]"
        "[\<lparr>of_Coding = Brotli, of_Rank = 0, of_Eligible = None\<rparr>, \<lparr>of_Coding = Gzip, of_Rank = 1, of_Eligible = None\<rparr>]"
        "[''gzip;q=0.5, br'']"]
    by (simp add: insert_commute split: prod.splits)
  then show ?thesis using prefer_brotli by simp
qed

text \<open>The state makes the decision once: later registrations and later responses do not change it.\<close>

lemma Decide_frozen:
  assumes "Decide (Some s) meta = (s', d)"
  shows "Decide s' meta' = (s', d) \<and> s' = Some (Register h s' offers)"
  using assms by (auto simp: Decide_def Register_def Let_def split: if_splits)

end
