(* ===== verification/Go_Heap.thy ===== *)
theory Go_Heap
  imports Go_Prelude "HOL-Library.Multiset"
begin

text \<open>
  The binary heap of the standard library, \<open>container/heap\<close>, on a slice with a \<open>Less\<close> method: \<open>up\<close>,
  \<open>down\<close>, \<open>Push\<close>, \<open>Pop\<close> and \<open>Init\<close> as the library documents and implements them. The locale
  \<open>heap_order\<close> is the contract of \<open>Less\<close>, a strict weak order.
\<close>

definition swap :: "nat \<Rightarrow> nat \<Rightarrow> 'a list \<Rightarrow> 'a list" where
  "swap i j h = h[i := h ! j, j := h ! i]"

function heap_up :: "('a \<Rightarrow> 'a \<Rightarrow> bool) \<Rightarrow> nat \<Rightarrow> 'a list \<Rightarrow> 'a list" where
  "heap_up Less j h =
     (let i = (j - 1) div 2
      in if i = j \<or> \<not> Less (h ! j) (h ! i) then h else heap_up Less i (swap i j h))"
  by pat_completeness auto
termination
  by (relation "measure (\<lambda>(Less, j, h). j)") auto

declare heap_up.simps [simp del]

text \<open>The smaller child of \<open>i\<close> whose left child \<open>2 * i + 1\<close> is below \<open>n\<close>.\<close>

definition smaller_child :: "('a \<Rightarrow> 'a \<Rightarrow> bool) \<Rightarrow> nat \<Rightarrow> nat \<Rightarrow> 'a list \<Rightarrow> nat" where
  "smaller_child Less i n h =
     (if 2 * i + 2 < n \<and> Less (h ! (2 * i + 2)) (h ! (2 * i + 1)) then 2 * i + 2 else 2 * i + 1)"

function heap_down :: "('a \<Rightarrow> 'a \<Rightarrow> bool) \<Rightarrow> nat \<Rightarrow> nat \<Rightarrow> 'a list \<Rightarrow> 'a list" where
  "heap_down Less i n h =
     (if 2 * i + 1 \<ge> n then h
      else let j = smaller_child Less i n h
           in if \<not> Less (h ! j) (h ! i) then h else heap_down Less j n (swap i j h))"
  by pat_completeness auto
termination
  by (relation "measure (\<lambda>(Less, i, n, h). n - i)") (auto simp: smaller_child_def)

declare heap_down.simps [simp del]

definition heap_push :: "('a \<Rightarrow> 'a \<Rightarrow> bool) \<Rightarrow> 'a \<Rightarrow> 'a list \<Rightarrow> 'a list" where
  "heap_push Less x h = heap_up Less (length h) (h @ [x])"

text \<open>\<open>Pop\<close> of an empty heap indexes the slice with -1 and panics.\<close>

definition heap_pop :: "('a \<Rightarrow> 'a \<Rightarrow> bool) \<Rightarrow> 'a list \<Rightarrow> ('a \<times> 'a list) option" where
  "heap_pop Less h =
     (if h = [] then None
      else let n = length h - 1; h' = heap_down Less 0 n (swap 0 n h) in Some (last h', butlast h'))"

fun heapify :: "('a \<Rightarrow> 'a \<Rightarrow> bool) \<Rightarrow> nat \<Rightarrow> 'a list \<Rightarrow> 'a list" where
  "heapify Less 0 h = h"
| "heapify Less (Suc i) h = heapify Less i (heap_down Less i (length h) h)"

definition heap_init :: "('a \<Rightarrow> 'a \<Rightarrow> bool) \<Rightarrow> 'a list \<Rightarrow> 'a list" where
  "heap_init Less h = heapify Less (length h div 2) h"

section \<open>Elements are kept\<close>

lemma length_swap [simp]: "length (swap i j h) = length h"
  by (simp add: swap_def)

lemma mset_swap_heap [simp]: "i < length h \<Longrightarrow> j < length h \<Longrightarrow> mset (swap i j h) = mset h"
  using mset_swap[of j h i] by (simp add: swap_def)

lemma nth_swap:
  "i < length h \<Longrightarrow> j < length h \<Longrightarrow> swap i j h ! k = (if k = j then h ! i else if k = i then h ! j else h ! k)"
  by (auto simp: swap_def nth_list_update)

lemma smaller_child_bounds: "2 * i + 1 < n \<Longrightarrow> i < smaller_child Less i n h \<and> smaller_child Less i n h < n"
  by (auto simp: smaller_child_def)

lemma heap_up_mset: "j < length h \<Longrightarrow> mset (heap_up Less j h) = mset h \<and> length (heap_up Less j h) = length h"
proof (induction Less j h rule: heap_up.induct)
  case (1 Less j h)
  let ?i = "(j - 1) div 2"
  have "?i < length h" using 1 by linarith
  then show ?case
    using 1 by (subst (1 2) heap_up.simps) (auto simp: Let_def)
qed

lemma heap_down_mset:
  "n \<le> length h \<Longrightarrow> mset (heap_down Less i n h) = mset h \<and> length (heap_down Less i n h) = length h"
proof (induction Less i n h rule: heap_down.induct)
  case (1 Less i n h)
  show ?case
  proof (cases "2 * i + 1 < n \<and> Less (h ! smaller_child Less i n h) (h ! i)")
    case True
    have c: "i < smaller_child Less i n h" "smaller_child Less i n h < n"
      using smaller_child_bounds True by blast+
    then show ?thesis using 1 True by (subst (1 2) heap_down.simps) (simp add: Let_def)
  next
    case False
    then show ?thesis by (subst (1 2) heap_down.simps) (auto simp: Let_def)
  qed
qed

lemma heap_down_beyond: "n \<le> length h \<Longrightarrow> n \<le> k \<Longrightarrow> heap_down Less i n h ! k = h ! k"
proof (induction Less i n h rule: heap_down.induct)
  case (1 Less i n h)
  show ?case
  proof (cases "2 * i + 1 < n \<and> Less (h ! smaller_child Less i n h) (h ! i)")
    case True
    have c: "i < smaller_child Less i n h" "smaller_child Less i n h < n"
      using smaller_child_bounds True by blast+
    then show ?thesis using 1 True by (subst heap_down.simps) (simp add: Let_def nth_swap)
  next
    case False
    then show ?thesis by (subst heap_down.simps) (auto simp: Let_def)
  qed
qed

lemma heapify_mset: "mset (heapify Less i h) = mset h \<and> length (heapify Less i h) = length h"
  by (induction i arbitrary: h) (simp_all add: heap_down_mset)

lemma heap_push_mset [simp]: "mset (heap_push Less x h) = add_mset x (mset h)"
  "length (heap_push Less x h) = Suc (length h)"
  using heap_up_mset[of "length h" "h @ [x]" Less] by (simp_all add: heap_push_def)

lemma heap_init_mset [simp]: "mset (heap_init Less h) = mset h" "length (heap_init Less h) = length h"
  by (simp_all add: heap_init_def heapify_mset)

lemma heap_pop_mset:
  assumes "heap_pop Less h = Some (x, h')"
  shows "x = h ! 0 \<and> mset h = add_mset x (mset h') \<and> length h = Suc (length h')"
proof -
  let ?n = "length h - 1"
  let ?d = "heap_down Less 0 ?n (swap 0 ?n h)"
  have ne: "h \<noteq> []" and x: "x = last ?d" and h': "h' = butlast ?d"
    using assms by (auto simp: heap_pop_def Let_def split: if_splits)
  have pos: "0 < length h" using ne by simp
  have d: "mset ?d = mset h" "length ?d = length h"
    using heap_down_mset[of ?n "swap 0 ?n h" Less 0] pos by simp_all
  then have dne: "?d \<noteq> []" using ne by auto
  have "x = ?d ! ?n" using x dne d(2) by (simp add: last_conv_nth)
  also have "\<dots> = h ! 0" using heap_down_beyond[of ?n "swap 0 ?n h" ?n Less 0] pos by (simp add: nth_swap)
  finally have "x = h ! 0" .
  moreover have "mset h = add_mset x (mset h')"
    using d(1) append_butlast_last_id[OF dne] x h' by (metis mset_append add_mset_add_single mset.simps(1) mset.simps(2))
  moreover have "length h = Suc (length h')" using h' d(2) pos by simp
  ultimately show ?thesis by blast
qed

section \<open>The heap order\<close>

abbreviation parent :: "nat \<Rightarrow> nat" where
  "parent j \<equiv> (j - 1) div 2"

text \<open>Below \<open>n\<close>, every child of a node from \<open>k\<close> on is not less than its parent.\<close>

definition heap_from :: "('a \<Rightarrow> 'a \<Rightarrow> bool) \<Rightarrow> nat \<Rightarrow> nat \<Rightarrow> 'a list \<Rightarrow> bool" where
  "heap_from Less k n h \<longleftrightarrow> (\<forall>j<n. 0 < j \<and> k \<le> parent j \<longrightarrow> \<not> Less (h ! j) (h ! parent j))"

abbreviation is_heap :: "('a \<Rightarrow> 'a \<Rightarrow> bool) \<Rightarrow> 'a list \<Rightarrow> bool" where
  "is_heap Less h \<equiv> heap_from Less 0 (length h) h"

text \<open>The order holds but for the children of \<open>x\<close>, which still respect the parent of \<open>x\<close>.\<close>

definition heap_hole :: "('a \<Rightarrow> 'a \<Rightarrow> bool) \<Rightarrow> nat \<Rightarrow> nat \<Rightarrow> nat \<Rightarrow> 'a list \<Rightarrow> bool" where
  "heap_hole Less k n x h \<longleftrightarrow>
     (\<forall>j<n. 0 < j \<and> k \<le> parent j \<and> parent j \<noteq> x \<longrightarrow> \<not> Less (h ! j) (h ! parent j))
   \<and> (\<forall>j<n. 0 < j \<and> parent j = x \<and> 0 < x \<and> k \<le> parent x \<longrightarrow> \<not> Less (h ! j) (h ! parent x))"

text \<open>The order holds but for the node \<open>x\<close>, whose children still respect the parent of \<open>x\<close>.\<close>

definition heap_bump :: "('a \<Rightarrow> 'a \<Rightarrow> bool) \<Rightarrow> nat \<Rightarrow> 'a list \<Rightarrow> bool" where
  "heap_bump Less x h \<longleftrightarrow>
     (\<forall>j<length h. 0 < j \<and> j \<noteq> x \<longrightarrow> \<not> Less (h ! j) (h ! parent j))
   \<and> (\<forall>j<length h. 0 < j \<and> parent j = x \<and> 0 < x \<longrightarrow> \<not> Less (h ! j) (h ! parent x))"

lemma parent_less: "0 < j \<Longrightarrow> parent j < j"
  by linarith

lemma parent_eq_iff: "0 < j \<Longrightarrow> parent j = i \<longleftrightarrow> j = 2 * i + 1 \<or> j = 2 * i + 2"
  by linarith

locale heap_order =
  fixes Less :: "'a \<Rightarrow> 'a \<Rightarrow> bool"
  assumes asym: "Less x y \<Longrightarrow> \<not> Less y x"
    and negtrans: "\<not> Less x y \<Longrightarrow> \<not> Less y z \<Longrightarrow> \<not> Less x z"
begin

lemma irrefl: "\<not> Less x x"
  using asym by blast

lemma smaller_child_min:
  assumes "j < n" and "0 < j" and "parent j = i"
  shows "\<not> Less (h ! j) (h ! smaller_child Less i n h)"
proof -
  consider "j = 2 * i + 1" | "j = 2 * i + 2" using parent_eq_iff[OF assms(2), of i] assms(3) by blast
  then show ?thesis
  proof cases
    case 1
    then show ?thesis unfolding smaller_child_def using irrefl asym by (simp split: if_split)
  next
    case 2
    then show ?thesis unfolding smaller_child_def using irrefl assms(1) by (simp split: if_split)
  qed
qed

lemma heap_down_step:
  assumes "heap_hole Less k n i h" and "n \<le> length h" and "2 * i + 1 < n"
    and "Less (h ! smaller_child Less i n h) (h ! i)"
  shows "heap_hole Less k n (smaller_child Less i n h) (swap i (smaller_child Less i n h) h)"
proof -
  define c where "c = smaller_child Less i n h"
  have c: "i < c" "c < n" "parent c = i" "0 < c"
    using assms(3) unfolding c_def smaller_child_def by (auto split: if_splits)
  have len: "i < length h" "c < length h" using c assms(2) by linarith+
  have sibling: "\<not> Less (h ! j) (h ! c)" if "j < n" "0 < j" "parent j = i" for j
    unfolding c_def using smaller_child_min that by blast
  have hole: "\<not> Less (h ! j) (h ! parent j)" if "j < n" "0 < j" "k \<le> parent j" "parent j \<noteq> i" for j
    using assms(1) that unfolding heap_hole_def by blast
  have up: "\<not> Less (h ! c) (h ! parent i)" if "0 < i" "k \<le> parent i"
    using assms(1) that c unfolding heap_hole_def by blast
  have "\<not> Less (swap i c h ! j) (swap i c h ! parent j)" if j: "j < n" "0 < j" "k \<le> parent j" "parent j \<noteq> c" for j
  proof -
    consider "j = i" | "j = c" | "j \<noteq> i" "j \<noteq> c" "parent j = i" | "j \<noteq> i" "j \<noteq> c" "parent j \<noteq> i" by blast
    then show ?thesis
    proof cases
      case 1
      then show ?thesis using up j len parent_less[of j] by (auto simp: nth_swap)
    next
      case 2
      then show ?thesis using asym[OF assms(4)[folded c_def]] len c by (auto simp: nth_swap)
    next
      case 3
      then show ?thesis using sibling j len by (auto simp: nth_swap)
    next
      case 4
      then show ?thesis using hole j len by (auto simp: nth_swap)
    qed
  qed
  moreover have "\<not> Less (swap i c h ! j) (swap i c h ! parent c)"
    if "j < n" "0 < j" "parent j = c" "k \<le> parent c" for j
    using hole[of j] that c len parent_less[of j] by (auto simp: nth_swap)
  ultimately show ?thesis unfolding heap_hole_def c_def by blast
qed

lemma heap_down_from:
  "heap_hole Less k n i h \<Longrightarrow> n \<le> length h \<Longrightarrow> heap_from Less k n (heap_down Less i n h)"
proof (induction "n - i" arbitrary: i h rule: less_induct)
  case (less i h)
  show ?case
  proof (cases "2 * i + 1 < n")
    case False
    then have "\<not> (j < n \<and> 0 < j \<and> parent j = i)" for j using parent_eq_iff[of j i] by auto
    then show ?thesis
      using less(2) False by (subst heap_down.simps) (auto simp: heap_hole_def heap_from_def)
  next
    case True
    let ?c = "smaller_child Less i n h"
    show ?thesis
    proof (cases "Less (h ! ?c) (h ! i)")
      case lt: True
      have "n - ?c < n - i" using smaller_child_bounds[OF True, of Less h] True by linarith
      then have "heap_from Less k n (heap_down Less ?c n (swap i ?c h))"
        using less(1) heap_down_step[OF less(2,3) True lt] less(3) by simp
      then show ?thesis using True lt by (subst heap_down.simps) (simp add: Let_def)
    next
      case False
      have "\<not> Less (h ! j) (h ! i)" if "j < n" "0 < j" "parent j = i" for j
      proof -
        have "\<not> Less (h ! j) (h ! ?c)" using smaller_child_min that by blast
        then show ?thesis using False negtrans by blast
      qed
      then show ?thesis using less(2) True False
        by (subst heap_down.simps) (auto simp: Let_def heap_hole_def heap_from_def)
    qed
  qed
qed

end

context heap_order
begin

lemma heap_up_step:
  assumes "heap_bump Less j h" and "j < length h" and "0 < j" and "Less (h ! j) (h ! parent j)"
  shows "heap_bump Less (parent j) (swap (parent j) j h)"
proof -
  define i where "i = parent j"
  have i: "i < j" "parent j = i" using assms(3) parent_less i_def by auto
  have len: "i < length h" "j < length h" using i assms(2) by linarith+
  have lt: "Less (h ! j) (h ! i)" using assms(4) i(2) by simp
  have ord: "\<not> Less (h ! l) (h ! parent l)" if "l < length h" "0 < l" "l \<noteq> j" for l
    using assms(1) that unfolding heap_bump_def by blast
  have kids: "\<not> Less (h ! l) (h ! i)" if "l < length h" "0 < l" "parent l = j" for l
    using assms(1,3) that unfolding heap_bump_def i_def by blast
  have "\<not> Less (swap i j h ! l) (swap i j h ! parent l)" if l: "l < length h" "0 < l" "l \<noteq> i" for l
  proof -
    consider "l = j" | "l \<noteq> j" "parent l = j" | "l \<noteq> j" "parent l = i" | "l \<noteq> j" "parent l \<noteq> j" "parent l \<noteq> i" by blast
    then show ?thesis
    proof cases
      case 1
      then show ?thesis using asym[OF lt] len i by (simp add: nth_swap)
    next
      case 2
      then show ?thesis using kids[OF l(1,2)] l len by (simp add: nth_swap)
    next
      case 3
      have "\<not> Less (h ! l) (h ! i)" using ord[OF l(1,2)] 3 by simp
      then have "\<not> Less (h ! l) (h ! j)" using asym[OF lt] negtrans by blast
      then show ?thesis using 3 l i(1) len by (simp add: nth_swap)
    next
      case 4
      then show ?thesis using ord[OF l(1,2)] l len by (simp add: nth_swap)
    qed
  qed
  moreover have "\<not> Less (swap i j h ! l) (swap i j h ! parent i)"
    if l: "l < length h" "0 < l" "parent l = i" "0 < i" for l
  proof -
    have p: "parent i < i" using that(4) parent_less by blast
    have up: "\<not> Less (h ! i) (h ! parent i)" using ord[of i] len i(1) that(4) by simp
    show ?thesis
    proof (cases "l = j")
      case True
      then show ?thesis using up p i(1) len by (simp add: nth_swap)
    next
      case False
      have "\<not> Less (h ! l) (h ! i)" using ord[OF l(1,2) False] l(3) by simp
      then have "\<not> Less (h ! l) (h ! parent i)" using up negtrans by blast
      moreover have "l \<noteq> i" using parent_less[OF l(2)] l(3) by simp
      ultimately show ?thesis using False p i(1) len by (simp add: nth_swap)
    qed
  qed
  ultimately show ?thesis unfolding heap_bump_def i_def[symmetric] length_swap by blast
qed

lemma heap_up_heap: "heap_bump Less j h \<Longrightarrow> j < length h \<Longrightarrow> is_heap Less (heap_up Less j h)"
proof (induction j arbitrary: h rule: less_induct)
  case (less j h)
  show ?case
  proof (cases "0 < j \<and> Less (h ! j) (h ! parent j)")
    case True
    then have "is_heap Less (heap_up Less (parent j) (swap (parent j) j h))"
      using less.IH[of "parent j"] heap_up_step[OF less.prems] parent_less[of j] less.prems(2) by simp
    moreover have "parent j \<noteq> j" using True by linarith
    ultimately show ?thesis using True by (simp add: heap_up.simps[of Less j h] Let_def)
  next
    case False
    have "heap_up Less j h = h" using False by (subst heap_up.simps) (auto simp: Let_def irrefl)
    moreover have "is_heap Less h"
      using less.prems(1) False unfolding heap_bump_def heap_from_def by metis
    ultimately show ?thesis by simp
  qed
qed

lemma heap_push_heap:
  assumes "is_heap Less h"
  shows "is_heap Less (heap_push Less x h)"
proof -
  have "heap_bump Less (length h) (h @ [x])"
    unfolding heap_bump_def
  proof (intro conjI allI impI)
    fix j assume "j < length (h @ [x])" "0 < j \<and> j \<noteq> length h"
    then show "\<not> Less ((h @ [x]) ! j) ((h @ [x]) ! parent j)"
      using assms parent_less[of j] by (simp add: heap_from_def nth_append)
  next
    fix j assume "j < length (h @ [x])" "0 < j \<and> parent j = length h \<and> 0 < length h"
    then show "\<not> Less ((h @ [x]) ! j) ((h @ [x]) ! parent (length h))"
      using parent_less[of j] by simp
  qed
  then show ?thesis by (simp add: heap_push_def heap_up_heap)
qed

lemma heap_pop_heap:
  assumes "is_heap Less h" and "heap_pop Less h = Some (x, h')"
  shows "is_heap Less h'"
proof -
  let ?n = "length h - 1"
  let ?d = "heap_down Less 0 ?n (swap 0 ?n h)"
  have pos: "0 < length h" and h': "h' = butlast ?d"
    using assms(2) by (auto simp: heap_pop_def Let_def split: if_splits)
  have "heap_hole Less 0 ?n 0 (swap 0 ?n h)"
    unfolding heap_hole_def
  proof (intro conjI allI impI)
    fix j assume j: "j < ?n" "0 < j \<and> 0 \<le> parent j \<and> parent j \<noteq> 0"
    have "parent j < ?n" using parent_less[of j] j by linarith
    then show "\<not> Less (swap 0 ?n h ! j) (swap 0 ?n h ! parent j)"
      using assms(1) j pos by (simp add: heap_from_def nth_swap)
  qed simp
  then have "heap_from Less 0 ?n ?d" using heap_down_from pos by simp
  moreover have "length ?d = length h" using heap_down_mset[of ?n "swap 0 ?n h"] by simp
  ultimately show ?thesis
    unfolding h' heap_from_def using parent_less by (auto simp: nth_butlast)
qed

lemma heapify_heap:
  "heap_from Less i (length h) h \<Longrightarrow> heap_from Less 0 (length h) (heapify Less i h)"
proof (induction i arbitrary: h)
  case (Suc i)
  have "heap_hole Less i (length h) i h"
    unfolding heap_hole_def
  proof (intro conjI allI impI)
    fix j assume "j < length h" "0 < j \<and> i \<le> parent j \<and> parent j \<noteq> i"
    then show "\<not> Less (h ! j) (h ! parent j)" using Suc.prems by (simp add: heap_from_def)
  next
    fix j assume "j < length h" "0 < j \<and> parent j = i \<and> 0 < i \<and> i \<le> parent i"
    then show "\<not> Less (h ! j) (h ! parent i)" using parent_less[of i] by simp
  qed
  then have "heap_from Less i (length h) (heap_down Less i (length h) h)" using heap_down_from by blast
  then show ?case using Suc.IH[of "heap_down Less i (length h) h"] by (simp add: heap_down_mset)
qed simp

lemma heap_init_heap: "is_heap Less (heap_init Less h)"
proof -
  have "heap_from Less (length h div 2) (length h) h"
    unfolding heap_from_def
  proof (intro allI impI)
    fix j assume j: "j < length h" "0 < j \<and> length h div 2 \<le> parent j"
    then have False by linarith
    then show "\<not> Less (h ! j) (h ! parent j)" ..
  qed
  then show ?thesis using heapify_heap by (simp add: heap_init_def heapify_mset)
qed

text \<open>The root is a least element.\<close>

lemma heap_root_least: "is_heap Less h \<Longrightarrow> i < length h \<Longrightarrow> \<not> Less (h ! i) (h ! 0)"
proof (induction i rule: less_induct)
  case (less i)
  show ?case
  proof (cases "i = 0")
    case True
    then show ?thesis using irrefl by simp
  next
    case False
    then have p: "parent i < i" using parent_less by blast
    then have "\<not> Less (h ! parent i) (h ! 0)" using less by simp
    moreover have "\<not> Less (h ! i) (h ! parent i)" using less.prems False by (simp add: heap_from_def)
    ultimately show ?thesis using negtrans by blast
  qed
qed

lemma heap_pop_least:
  assumes "is_heap Less h" and "heap_pop Less h = Some (x, h')" and "y \<in> set h"
  shows "\<not> Less y x"
  using heap_root_least[OF assms(1)] heap_pop_mset[OF assms(2)] assms(3) by (auto simp: in_set_conv_nth)

end

end
