(* ===== verification/Bounded_Map.thy ===== *)
theory Bounded_Map
  imports Go_Heap
begin

text \<open>
  The bounded map with expiring entries, \<open>pkg/plugin/cacheutil/bounded_map.go\<close>, on the heap of the
  standard library. The heap keeps stale entries, which are skipped when they surface and swept
  when they outnumber the live ones. Every operation refines a map without a heap that drops what
  has expired and, beyond its capacity, the entry that expires first. Each operation holds the
  mutex of the map, so a run is a sequence of operations; the readings of the clock are inputs.
\<close>

section \<open>The map\<close>

record 'v ttlEntry =
  te_key :: string
  te_value :: 'v
  te_expiresAt :: int
  te_seq :: nat

definition ttl_Less :: "'v ttlEntry \<Rightarrow> 'v ttlEntry \<Rightarrow> bool" where
  "ttl_Less a b =
     (if te_expiresAt a \<noteq> te_expiresAt b then te_expiresAt a < te_expiresAt b else te_seq a < te_seq b)"

record 'v BoundedTTLMap =
  bm_cap :: int
  bm_seq :: nat
  bm_entries :: "(string, 'v ttlEntry) gomap"
  bm_order :: "'v ttlEntry list"

definition NewBoundedTTLMap :: "int \<Rightarrow> 'v BoundedTTLMap" where
  "NewBoundedTTLMap capacity = \<lparr>bm_cap = capacity, bm_seq = 0, bm_entries = [], bm_order = []\<rparr>"

text \<open>\<open>live, ok := m.entries[top.key]; !ok || live.seq != top.seq\<close>.\<close>

definition stale :: "(string, 'v ttlEntry) gomap \<Rightarrow> 'v ttlEntry \<Rightarrow> bool" where
  "stale entries first = (case map_of entries (te_key first) of None \<Rightarrow> True | Some live \<Rightarrow> te_seq live \<noteq> te_seq first)"

definition popped :: "'v ttlEntry list \<Rightarrow> 'v ttlEntry list" where
  "popped order = (case heap_pop ttl_Less order of None \<Rightarrow> [] | Some (_, order') \<Rightarrow> order')"

lemma heap_pop_cases:
  "heap_pop Less h = (if h = [] then None else heap_pop Less h)"
  "h \<noteq> [] \<Longrightarrow> \<exists>x h'. heap_pop Less h = Some (x, h')"
  by (auto simp: heap_pop_def Let_def)

lemma length_popped: "order \<noteq> [] \<Longrightarrow> Suc (length (popped order)) = length order"
  using heap_pop_cases(2)[of order ttl_Less] heap_pop_mset[of ttl_Less order] by (auto simp: popped_def)

function evictExpiredLocked ::
    "int \<Rightarrow> (string, 'v ttlEntry) gomap \<Rightarrow> 'v ttlEntry list \<Rightarrow> nat \<Rightarrow> (string, 'v ttlEntry) gomap \<times> 'v ttlEntry list \<times> nat" where
  "evictExpiredLocked now entries order evicted =
     (if order = [] then (entries, order, evicted)
      else let first = order ! 0
           in if stale entries first then evictExpiredLocked now entries (popped order) evicted
              else if now < te_expiresAt first then (entries, order, evicted)
              else evictExpiredLocked now (mdel (te_key first) entries) (popped order) (evicted + 1))"
  by pat_completeness auto
termination
  by (relation "measure (\<lambda>(now, entries, order, evicted). length order)")
    (auto simp flip: length_popped)

text \<open>The loop that evicts down to the capacity; \<open>None\<close> is the panic of \<open>Pop\<close> on an empty heap.\<close>

function evict_over ::
    "int \<Rightarrow> (string, 'v ttlEntry) gomap \<Rightarrow> 'v ttlEntry list \<Rightarrow> ((string, 'v ttlEntry) gomap \<times> 'v ttlEntry list) option" where
  "evict_over cap entries order =
     (if int (length entries) > cap then
        (case heap_pop ttl_Less order of
           None \<Rightarrow> None
         | Some (first, order') \<Rightarrow>
             if stale entries first then evict_over cap entries order'
             else evict_over cap (mdel (te_key first) entries) order')
      else Some (entries, order))"
  by pat_completeness auto
termination
  by (relation "measure (\<lambda>(cap, entries, order). length order)")
    (auto dest!: heap_pop_mset)

declare evictExpiredLocked.simps [simp del] evict_over.simps [simp del]

definition compactOrderLocked :: "(string, 'v ttlEntry) gomap \<Rightarrow> 'v ttlEntry list \<Rightarrow> 'v ttlEntry list" where
  "compactOrderLocked entries order =
     (if length order \<le> length entries * 2 + 64 then order else heap_init ttl_Less (map snd entries))"

definition getLocked :: "string \<Rightarrow> int \<Rightarrow> 'v BoundedTTLMap \<Rightarrow> 'v BoundedTTLMap \<times> 'v option" where
  "getLocked key now m =
     (case map_of (bm_entries m) key of
        None \<Rightarrow> (m\<lparr>bm_entries := mdel key (bm_entries m)\<rparr>, None)
      | Some entry \<Rightarrow>
          if \<not> now < te_expiresAt entry then (m\<lparr>bm_entries := mdel key (bm_entries m)\<rparr>, None)
          else (m, Some (te_value entry)))"

definition bm_Get :: "string \<Rightarrow> int \<Rightarrow> 'v BoundedTTLMap \<Rightarrow> 'v BoundedTTLMap \<times> 'v option" where
  "bm_Get key now m = getLocked key now m"

text \<open>The sequence number is a \<open>uint64\<close>.\<close>

definition next_seq :: "nat \<Rightarrow> nat" where
  "next_seq n = (n + 1) mod 2 ^ 64"

definition bm_Set :: "string \<Rightarrow> 'v \<Rightarrow> int \<Rightarrow> int \<Rightarrow> 'v BoundedTTLMap \<Rightarrow> 'v BoundedTTLMap option" where
  "bm_Set key val ttl now m =
     (let n = next_seq (bm_seq m);
          entry = \<lparr>te_key = key, te_value = val, te_expiresAt = now + ttl, te_seq = n\<rparr>;
          (entries, order, _) =
            evictExpiredLocked now (mput key entry (bm_entries m)) (heap_push ttl_Less entry (bm_order m)) 0
      in case evict_over (bm_cap m) entries order of
           None \<Rightarrow> None
         | Some (entries, order) \<Rightarrow>
             Some (m\<lparr>bm_seq := n, bm_entries := entries, bm_order := compactOrderLocked entries order\<rparr>))"

text \<open>
  \<open>Mutate\<close> reads the clock twice, once for itself and once in \<open>getLocked\<close>. What \<open>fn\<close> writes to the
  variables it captures is the second part of its result. When it stores, the rest is that of \<open>Set\<close>.
\<close>

definition bm_Mutate ::
    "'v \<Rightarrow> string \<Rightarrow> ('v \<Rightarrow> int \<Rightarrow> ('v \<times> int \<times> bool) \<times> 'r) \<Rightarrow> int \<Rightarrow> int \<Rightarrow> 'v BoundedTTLMap \<Rightarrow> ('v BoundedTTLMap \<times> 'r) option" where
  "bm_Mutate zero key fn now now' m =
     (let (m, found) = getLocked key now' m;
          ((nxt, ttl, store), captured) = fn (case found of None \<Rightarrow> zero | Some val \<Rightarrow> val) now
      in if \<not> store then Some (m, captured)
         else map_option (\<lambda>m. (m, captured)) (bm_Set key nxt ttl now m))"

definition bm_Delete :: "string \<Rightarrow> 'v BoundedTTLMap \<Rightarrow> 'v BoundedTTLMap" where
  "bm_Delete key m =
     (let entries = mdel key (bm_entries m)
      in m\<lparr>bm_entries := entries, bm_order := compactOrderLocked entries (bm_order m)\<rparr>)"

definition bm_PurgeExpired :: "int \<Rightarrow> 'v BoundedTTLMap \<Rightarrow> 'v BoundedTTLMap \<times> nat" where
  "bm_PurgeExpired now m =
     (let (entries, order, evicted) = evictExpiredLocked now (bm_entries m) (bm_order m) 0
      in (m\<lparr>bm_entries := entries, bm_order := order\<rparr>, evicted))"

definition bm_Len :: "'v BoundedTTLMap \<Rightarrow> nat" where
  "bm_Len m = length (bm_entries m)"

section \<open>The entries and their heap\<close>

interpretation ttl: heap_order ttl_Less
  by unfold_locales (auto simp: ttl_Less_def split: if_splits)

lemma ttl_Less_total: "te_seq a \<noteq> te_seq b \<Longrightarrow> ttl_Less a b \<or> ttl_Less b a"
  by (auto simp: ttl_Less_def)

text \<open>Every live entry is in the heap, under its key, and no two of the heap share a number.\<close>

definition ttl_ok :: "(string, 'v ttlEntry) gomap \<Rightarrow> 'v ttlEntry list \<Rightarrow> bool" where
  "ttl_ok entries order \<longleftrightarrow> gomap entries \<and> (\<forall>(k, e)\<in>set entries. te_key e = k \<and> e \<in> set order)
     \<and> distinct (map te_seq order) \<and> is_heap ttl_Less order"

lemma ttl_okD:
  assumes "ttl_ok entries order"
  shows "gomap entries" and "(k, e) \<in> set entries \<Longrightarrow> te_key e = k \<and> e \<in> set order"
    and "distinct (map te_seq order)" and "is_heap ttl_Less order"
  using assms by (auto simp: ttl_ok_def)

lemma ttl_ok_Nil: "ttl_ok entries [] \<Longrightarrow> entries = []"
  by (cases entries) (auto simp: ttl_ok_def)

lemma same_seq: "distinct (map te_seq order) \<Longrightarrow> a \<in> set order \<Longrightarrow> b \<in> set order \<Longrightarrow> te_seq a = te_seq b \<Longrightarrow> a = b"
  by (auto simp: distinct_map dest: inj_onD)

lemma stale_iff:
  assumes "ttl_ok entries order" and "x \<in> set order"
  shows "stale entries x \<longleftrightarrow> (te_key x, x) \<notin> set entries"
proof -
  have same: "e = x" if "(te_key x, e) \<in> set entries" "te_seq e = te_seq x" for e
    using same_seq[of order e x] ttl_okD[OF assms(1)] that assms(2) by blast
  have lookup: "map_of entries (te_key x) = Some e \<longleftrightarrow> (te_key x, e) \<in> set entries" for e
    using gomap_map_of_iff[OF ttl_okD(1)[OF assms(1)]] .
  show ?thesis
  proof (cases "map_of entries (te_key x)")
    case None
    then show ?thesis using lookup[of x] by (simp add: stale_def)
  next
    case (Some e)
    have "e = x" if "te_seq e = te_seq x" using same[OF _ that] lookup[of e] Some by blast
    then have "te_seq e \<noteq> te_seq x \<longleftrightarrow> e \<noteq> x" by blast
    then show ?thesis using Some lookup[of x] by (simp add: stale_def)
  qed
qed

text \<open>Taking the root \<open>x\<close> off the heap, where \<open>es\<close> no longer has it.\<close>

lemma ttl_ok_pop:
  assumes "ttl_ok entries order" and "heap_pop ttl_Less order = Some (x, order')"
    and "gomap es" and "set es \<subseteq> set entries" and "(te_key x, x) \<notin> set es"
  shows "ttl_ok es order'" and "set order' \<subseteq> set order" and "Suc (length order') = length order" and "x \<in> set order"
proof -
  have m: "mset order = add_mset x (mset order')" "length order = Suc (length order')"
    using heap_pop_mset[OF assms(2)] by auto
  then have set: "set order = insert x (set order')" by (metis set_mset_mset set_mset_add_mset_insert)
  have "mset (map te_seq order) = mset (te_seq x # map te_seq order')" using m(1) by simp
  from mset_eq_imp_distinct_iff[OF this] have "distinct (map te_seq order')"
    using ttl_okD(3)[OF assms(1)] by simp
  then show "ttl_ok es order'"
    using ttl_okD[OF assms(1)] assms(3-5) set ttl.heap_pop_heap[OF ttl_okD(4)[OF assms(1)] assms(2)]
    unfolding ttl_ok_def by auto
  show "set order' \<subseteq> set order" "Suc (length order') = length order" "x \<in> set order" using set m(2) by auto
qed

section \<open>Eviction\<close>

text \<open>What has not expired, and what an eviction at the capacity leaves: all but the earliest.\<close>

abbreviation unexpired :: "int \<Rightarrow> (string, 'v ttlEntry) gomap \<Rightarrow> (string, 'v ttlEntry) gomap" where
  "unexpired now entries \<equiv> filter (\<lambda>(_, e). now < te_expiresAt e) entries"

definition all_but_earliest :: "(string, 'v ttlEntry) gomap \<Rightarrow> (string, 'v ttlEntry) gomap" where
  "all_but_earliest entries = filter (\<lambda>(_, e). list_ex (\<lambda>(_, e'). ttl_Less e' e) entries) entries"

lemma pop_root: "order \<noteq> [] \<Longrightarrow> heap_pop ttl_Less order = Some (order ! 0, popped order)"
  using heap_pop_cases(2)[of order ttl_Less] heap_pop_mset[of ttl_Less order] by (auto simp: popped_def)

lemma mdel_filter: "mdel k m = filter (\<lambda>(k', _). k \<noteq> k') m"
  by (simp add: AList.delete_eq)

lemma gomap_length_mdel:
  assumes "gomap m" and "(k, v) \<in> set m"
  shows "Suc (length (mdel k m)) = length m"
proof -
  obtain a b where m: "m = a @ (k, v) # b" using assms(2) split_list by fast
  have keys: "k \<notin> fst ` set a" "k \<notin> fst ` set b"
    using assms(1) unfolding gomap_def m by (simp_all del: image_fst_dom)
  have "filter (\<lambda>(k', _). k \<noteq> k') a = a" "filter (\<lambda>(k', _). k \<noteq> k') b = b"
    using keys by (force intro!: filter_True simp del: image_fst_dom)+
  then show ?thesis by (simp add: mdel_filter m)
qed

lemma not_mdel: "(k, v) \<notin> set (mdel k m)"
  by (auto simp: mdel_filter)

lemma mdel_root:
  assumes "ttl_ok entries order" and "(te_key x, x) \<in> set entries"
  shows "mdel (te_key x) entries = filter (\<lambda>(k, e). e \<noteq> x) entries"
proof -
  have "te_key x \<noteq> k \<longleftrightarrow> e \<noteq> x" if "(k, e) \<in> set entries" for k e
  proof -
    have "te_key e = k" using ttl_okD(2)[OF assms(1) that] by blast
    moreover have "e = x" if "te_key x = k"
      using ttl_okD(1)[OF assms(1)] assms(2) \<open>(k, e) \<in> set entries\<close> that
      unfolding gomap_def by (blast intro: eq_key_imp_eq_value)
    ultimately show ?thesis by blast
  qed
  then show ?thesis unfolding mdel_filter by (auto intro!: filter_cong)
qed

lemma evictExpiredLocked_spec:
  assumes "ttl_ok entries order" and "evictExpiredLocked now entries order n = (es, od, k)"
  shows "es = unexpired now entries \<and> k = n + (length entries - length es) \<and> ttl_ok es od
    \<and> set od \<subseteq> set order \<and> length od \<le> length order"
  using assms
proof (induction now entries order n rule: evictExpiredLocked.induct)
  case (1 now entries order n)
  show ?case
  proof (cases "order = []")
    case True
    then have "entries = []" using ttl_ok_Nil "1.prems"(1) by blast
    then show ?thesis using "1.prems" True by (simp add: evictExpiredLocked.simps[of now _ "[]"])
  next
    case False
    note pop = pop_root[OF False]
    let ?x = "order ! 0"
    have x: "?x \<in> set order" using False by simp
    consider (stale) "stale entries ?x" | (live) "\<not> stale entries ?x" "now < te_expiresAt ?x"
      | (expired) "\<not> stale entries ?x" "\<not> now < te_expiresAt ?x" by blast
    then show ?thesis
    proof cases
      case stale
      have ok: "ttl_ok entries (popped order)"
        using ttl_ok_pop(1)[OF "1.prems"(1) pop] stale_iff[OF "1.prems"(1) x] stale ttl_okD(1)[OF "1.prems"(1)] by blast
      have "evictExpiredLocked now entries (popped order) n = (es, od, k)"
        using "1.prems"(2) False stale by (simp add: evictExpiredLocked.simps[of now entries order] Let_def)
      from "1.IH"(1)[OF False refl stale ok this] ttl_ok_pop(2,3)[OF "1.prems"(1) pop ttl_okD(1)[OF "1.prems"(1)]]
        stale_iff[OF "1.prems"(1) x] stale
      show ?thesis by auto
    next
      case live
      have "now < te_expiresAt e" if "(l, e) \<in> set entries" for l e
      proof -
        have "e \<in> set order" using ttl_okD(2)[OF "1.prems"(1) that] by blast
        then have "\<not> ttl_Less e ?x" using ttl.heap_pop_least[OF ttl_okD(4)[OF "1.prems"(1)] pop] by blast
        then show ?thesis using live(2) by (auto simp: ttl_Less_def split: if_splits)
      qed
      then have "unexpired now entries = entries" by (auto intro!: filter_True)
      then show ?thesis
        using "1.prems" False live by (simp add: evictExpiredLocked.simps[of now entries order] Let_def)
    next
      case expired
      have mem: "(te_key ?x, ?x) \<in> set entries" using stale_iff[OF "1.prems"(1) x] expired(1) by blast
      let ?es = "mdel (te_key ?x) entries"
      have sub: "gomap ?es" "set ?es \<subseteq> set entries" "(te_key ?x, ?x) \<notin> set ?es"
        using ttl_okD(1)[OF "1.prems"(1)] by (simp_all add: mdel_filter)
      have ok: "ttl_ok ?es (popped order)" using ttl_ok_pop(1)[OF "1.prems"(1) pop sub] .
      have "evictExpiredLocked now ?es (popped order) (n + 1) = (es, od, k)"
        using "1.prems"(2) False expired by (simp add: evictExpiredLocked.simps[of now entries order] Let_def)
      from "1.IH"(2)[OF False refl expired ok this]
      have IH: "es = unexpired now ?es" "k = n + 1 + (length ?es - length es)" "ttl_ok es od"
        "set od \<subseteq> set (popped order)" "length od \<le> length (popped order)" by blast+
      have "unexpired now ?es = unexpired now entries"
        unfolding mdel_root[OF "1.prems"(1) mem] filter_filter using expired(2) by (auto intro: filter_cong)
      moreover have "Suc (length ?es) = length entries"
        using gomap_length_mdel[OF ttl_okD(1)[OF "1.prems"(1)] mem] .
      moreover have "length (unexpired now ?es) \<le> length ?es" by simp
      ultimately show ?thesis
        using IH ttl_ok_pop(2,3)[OF "1.prems"(1) pop sub] by auto
    qed
  qed
qed

lemma evict_over_spec:
  assumes "ttl_ok entries order" and "0 \<le> cap" and "int (length entries) \<le> cap + 1"
  shows "\<exists>od. evict_over cap entries order =
      Some (if int (length entries) > cap then all_but_earliest entries else entries, od)
    \<and> ttl_ok (if int (length entries) > cap then all_but_earliest entries else entries) od
    \<and> set od \<subseteq> set order \<and> length od \<le> length order
    \<and> (int (length entries) > cap \<longrightarrow> int (length (all_but_earliest entries)) = cap)"
  using assms
proof (induction cap entries order rule: evict_over.induct)
  case (1 cap entries order)
  show ?case
  proof (cases "int (length entries) > cap")
    case False
    then show ?thesis using "1.prems" by (simp add: evict_over.simps[of cap entries order])
  next
    case True
    then have "entries \<noteq> []" using "1.prems"(2) by auto
    then have ne: "order \<noteq> []" using ttl_ok_Nil "1.prems"(1) by blast
    let ?x = "order ! 0" and ?od = "popped order"
    note pop = pop_root[OF ne]
    have x: "?x \<in> set order" using ne by simp
    have gm: "gomap entries" using ttl_okD(1)[OF "1.prems"(1)] .
    show ?thesis
    proof (cases "stale entries ?x")
      case stale: True
      have notin: "(te_key ?x, ?x) \<notin> set entries" using stale_iff[OF "1.prems"(1) x] stale by blast
      note rest = ttl_ok_pop[OF "1.prems"(1) pop gm order_refl notin]
      have "evict_over cap entries order = evict_over cap entries ?od"
        using True pop stale by (simp add: evict_over.simps[of cap entries order])
      with "1.IH"(1)[OF True pop refl stale rest(1) "1.prems"(2,3)] rest(2,3) True show ?thesis by auto
    next
      case live: False
      have mem: "(te_key ?x, ?x) \<in> set entries" using stale_iff[OF "1.prems"(1) x] live by blast
      let ?es = "mdel (te_key ?x) entries"
      have sub: "gomap ?es" "set ?es \<subseteq> set entries" "(te_key ?x, ?x) \<notin> set ?es"
        using gm by (simp_all add: mdel_filter)
      note rest = ttl_ok_pop[OF "1.prems"(1) pop sub]
      have len: "Suc (length ?es) = length entries" using gomap_length_mdel[OF gm mem] .
      have "list_ex (\<lambda>(_, e'). ttl_Less e' e) entries \<longleftrightarrow> e \<noteq> ?x" if e: "(k, e) \<in> set entries" for k e
      proof
        assume "e \<noteq> ?x"
        have in_order: "e \<in> set order" using ttl_okD(2)[OF "1.prems"(1) e] by blast
        then have "te_seq e \<noteq> te_seq ?x" using same_seq[OF ttl_okD(3)[OF "1.prems"(1)] _ x] \<open>e \<noteq> ?x\<close> by blast
        moreover have "\<not> ttl_Less e ?x" using ttl.heap_pop_least[OF ttl_okD(4)[OF "1.prems"(1)] pop in_order] .
        ultimately have "ttl_Less ?x e" using ttl_Less_total by blast
        then show "list_ex (\<lambda>(_, e'). ttl_Less e' e) entries" using mem by (auto simp: list_ex_iff)
      next
        assume "list_ex (\<lambda>(_, e'). ttl_Less e' e) entries"
        then obtain l e' where e': "(l, e') \<in> set entries" "ttl_Less e' e" by (auto simp: list_ex_iff)
        then have "e' \<in> set order" using ttl_okD(2)[OF "1.prems"(1)] by blast
        then have "\<not> ttl_Less e' ?x" using ttl.heap_pop_least[OF ttl_okD(4)[OF "1.prems"(1)] pop] by blast
        then show "e \<noteq> ?x" using e'(2) by blast
      qed
      then have abe: "all_but_earliest entries = ?es"
        unfolding all_but_earliest_def mdel_root[OF "1.prems"(1) mem] by (auto intro!: filter_cong)
      have "evict_over cap entries order = evict_over cap ?es ?od"
        using True pop live by (simp add: evict_over.simps[of cap entries order])
      also have "\<dots> = Some (?es, ?od)" using len "1.prems"(3) by (simp add: evict_over.simps[of cap ?es ?od])
      finally show ?thesis using True rest abe len "1.prems"(3) by auto
    qed
  qed
qed

section \<open>The map without a heap\<close>

text \<open>
  The reference: the entries alone, with the number of the last one. A store drops what has
  expired and, when that leaves too many, the earliest.
\<close>

record 'v ref_map =
  rf_cap :: int
  rf_seq :: nat
  rf_entries :: "(string, 'v ttlEntry) gomap"

definition ref_store :: "string \<Rightarrow> 'v \<Rightarrow> int \<Rightarrow> int \<Rightarrow> 'v ref_map \<Rightarrow> 'v ref_map" where
  "ref_store key val ttl now s =
     (let entry = \<lparr>te_key = key, te_value = val, te_expiresAt = now + ttl, te_seq = Suc (rf_seq s)\<rparr>;
          es = unexpired now (mput key entry (rf_entries s))
      in s\<lparr>rf_seq := Suc (rf_seq s),
            rf_entries := if int (length es) > rf_cap s then all_but_earliest es else es\<rparr>)"

definition ref_get :: "string \<Rightarrow> int \<Rightarrow> 'v ref_map \<Rightarrow> 'v ref_map \<times> 'v option" where
  "ref_get key now s =
     (case map_of (rf_entries s) key of
        Some e \<Rightarrow> if now < te_expiresAt e then (s, Some (te_value e)) else (s\<lparr>rf_entries := mdel key (rf_entries s)\<rparr>, None)
      | None \<Rightarrow> (s, None))"

datatype ('v, 'r) bm_op =
    OpGet string int
  | OpSet string 'v int int
  | OpMutate string "'v \<Rightarrow> int \<Rightarrow> ('v \<times> int \<times> bool) \<times> 'r" int int
  | OpDelete string
  | OpPurge int
  | OpLen

datatype ('v, 'r) bm_out = Found "'v option" | Captured 'r | Count nat | Unit

fun bm_step :: "'v \<Rightarrow> ('v, 'r) bm_op \<Rightarrow> 'v BoundedTTLMap \<Rightarrow> ('v BoundedTTLMap \<times> ('v, 'r) bm_out) option" where
  "bm_step zero (OpGet key now) m = (let (m, found) = bm_Get key now m in Some (m, Found found))"
| "bm_step zero (OpSet key val ttl now) m = map_option (\<lambda>m. (m, Unit)) (bm_Set key val ttl now m)"
| "bm_step zero (OpMutate key fn now now') m = map_option (\<lambda>(m, r). (m, Captured r)) (bm_Mutate zero key fn now now' m)"
| "bm_step zero (OpDelete key) m = Some (bm_Delete key m, Unit)"
| "bm_step zero (OpPurge now) m = (let (m, n) = bm_PurgeExpired now m in Some (m, Count n))"
| "bm_step zero OpLen m = Some (m, Count (bm_Len m))"

fun ref_step :: "'v \<Rightarrow> ('v, 'r) bm_op \<Rightarrow> 'v ref_map \<Rightarrow> 'v ref_map \<times> ('v, 'r) bm_out" where
  "ref_step zero (OpGet key now) s = (let (s, found) = ref_get key now s in (s, Found found))"
| "ref_step zero (OpSet key val ttl now) s = (ref_store key val ttl now s, Unit)"
| "ref_step zero (OpMutate key fn now now') s =
     (let (s, found) = ref_get key now' s;
          ((nxt, ttl, store), r) = fn (case found of None \<Rightarrow> zero | Some val \<Rightarrow> val) now
      in (if store then ref_store key nxt ttl now s else s, Captured r))"
| "ref_step zero (OpDelete key) s = (s\<lparr>rf_entries := mdel key (rf_entries s)\<rparr>, Unit)"
| "ref_step zero (OpPurge now) s =
     (let es = unexpired now (rf_entries s)
      in (s\<lparr>rf_entries := es\<rparr>, Count (length (rf_entries s) - length es)))"
| "ref_step zero OpLen s = (s, Count (length (rf_entries s)))"

section \<open>Refinement\<close>

definition bm_abs :: "'v BoundedTTLMap \<Rightarrow> 'v ref_map" where
  "bm_abs m = \<lparr>rf_cap = bm_cap m, rf_seq = bm_seq m, rf_entries = bm_entries m\<rparr>"

definition bm_inv :: "'v BoundedTTLMap \<Rightarrow> bool" where
  "bm_inv m \<longleftrightarrow> ttl_ok (bm_entries m) (bm_order m) \<and> (\<forall>e\<in>set (bm_order m). te_seq e \<le> bm_seq m)
     \<and> 0 \<le> bm_cap m \<and> int (length (bm_entries m)) \<le> bm_cap m
     \<and> int (length (bm_order m)) \<le> 2 * bm_cap m + 64"

lemma ttl_ok_subset: "ttl_ok entries order \<Longrightarrow> gomap es \<Longrightarrow> set es \<subseteq> set entries \<Longrightarrow> ttl_ok es order"
  unfolding ttl_ok_def by blast

lemma compactOrderLocked_ok:
  assumes "ttl_ok entries order"
  shows "ttl_ok entries (compactOrderLocked entries order)"
    and "set (compactOrderLocked entries order) \<subseteq> set order"
    and "length (compactOrderLocked entries order) \<le> 2 * length entries + 64"
proof -
  let ?h = "heap_init ttl_Less (map snd entries)"
  have set: "set ?h = snd ` set entries" using heap_init_mset(1) by (metis set_map set_mset_mset)
  have sub: "snd ` set entries \<subseteq> set order" using ttl_okD(2)[OF assms] by auto
  have inj: "p = q" if "p \<in> set entries" "q \<in> set entries" "te_seq (snd p) = te_seq (snd q)" for p q
  proof -
    have "snd p \<in> set order" "snd q \<in> set order" using that sub by auto
    then have "snd p = snd q" using same_seq[OF ttl_okD(3)[OF assms]] that(3) by blast
    moreover have "te_key (snd p) = fst p" "te_key (snd q) = fst q"
      using ttl_okD(2)[OF assms] that by (metis prod.collapse)+
    ultimately show ?thesis by (simp add: prod_eq_iff)
  qed
  have "distinct entries" using ttl_okD(1)[OF assms] by (simp add: gomap_def distinct_map)
  then have "distinct (map (te_seq \<circ> snd) entries)" using inj by (auto simp: distinct_map inj_on_def)
  moreover have "mset (map te_seq ?h) = mset (map (te_seq \<circ> snd) entries)"
    by (simp add: image_mset.compositionality)
  ultimately have "distinct (map te_seq ?h)" using mset_eq_imp_distinct_iff by blast
  then have h: "ttl_ok entries ?h"
    using ttl_okD(1,2)[OF assms] set ttl.heap_init_heap[of "map snd entries"] unfolding ttl_ok_def by force
  show "ttl_ok entries (compactOrderLocked entries order)" using h assms by (simp add: compactOrderLocked_def)
  show "set (compactOrderLocked entries order) \<subseteq> set order" using set sub by (simp add: compactOrderLocked_def)
  show "length (compactOrderLocked entries order) \<le> 2 * length entries + 64" by (simp add: compactOrderLocked_def)
qed

lemma ttl_ok_push:
  assumes "ttl_ok entries order" and "\<forall>e\<in>set order. te_seq e < te_seq entry"
  shows "ttl_ok (mput (te_key entry) entry entries) (heap_push ttl_Less entry order)"
    and "set (heap_push ttl_Less entry order) = insert entry (set order)"
proof -
  let ?h = "heap_push ttl_Less entry order"
  have mset: "mset ?h = add_mset entry (mset order)" by simp
  then show set: "set ?h = insert entry (set order)" by (metis set_mset_mset set_mset_add_mset_insert)
  have "mset (map te_seq ?h) = mset (te_seq entry # map te_seq order)" using mset by simp
  from mset_eq_imp_distinct_iff[OF this] have "distinct (map te_seq ?h)"
    using ttl_okD(3)[OF assms(1)] assms(2) by auto
  moreover have "te_key e = k \<and> e \<in> set ?h" if "(k, e) \<in> set (mput (te_key entry) entry entries)" for k e
  proof -
    have "map_of (mput (te_key entry) entry entries) k = Some e"
      using that gomap_map_of_iff[OF gomap_mput[OF ttl_okD(1)[OF assms(1)]]] by blast
    then have "k = te_key entry \<and> e = entry \<or> map_of entries k = Some e" by (auto split: if_splits)
    then show ?thesis using ttl_okD(2)[OF assms(1), of k e] map_of_SomeD set by fastforce
  qed
  ultimately show "ttl_ok (mput (te_key entry) entry entries) ?h"
    using ttl_okD(1)[OF assms(1)] ttl.heap_push_heap[OF ttl_okD(4)[OF assms(1)]] by (auto simp: ttl_ok_def)
qed

lemma length_mput: "length (mput k v m) \<le> Suc (length m)"
  by (induction m) auto

lemma mdel_absent: "map_of m k = None \<Longrightarrow> mdel k m = m"
  unfolding mdel_filter by (rule filter_True) (auto simp: map_of_eq_None_iff simp del: image_fst_dom intro: rev_image_eqI)

lemma bm_Set_refines:
  assumes "bm_inv m" and "Suc (bm_seq m) < 2 ^ 64"
  shows "\<exists>m'. bm_Set key val ttl now m = Some m' \<and> bm_inv m' \<and> bm_abs m' = ref_store key val ttl now (bm_abs m)"
proof -
  let ?entry = "\<lparr>te_key = key, te_value = val, te_expiresAt = now + ttl, te_seq = Suc (bm_seq m)\<rparr>"
  let ?es0 = "mput key ?entry (bm_entries m)" and ?od0 = "heap_push ttl_Less ?entry (bm_order m)"
  have ok: "ttl_ok (bm_entries m) (bm_order m)" and seqs: "\<forall>e\<in>set (bm_order m). te_seq e \<le> bm_seq m"
    and cap: "0 \<le> bm_cap m" and size: "int (length (bm_entries m)) \<le> bm_cap m"
    using assms(1) by (auto simp: bm_inv_def)
  have lt: "\<forall>e\<in>set (bm_order m). te_seq e < te_seq ?entry" using seqs by auto
  note push = ttl_ok_push[OF ok lt, simplified]
  have n: "next_seq (bm_seq m) = Suc (bm_seq m)" using assms(2) by (simp add: next_seq_def)
  obtain es1 od1 k where ev: "evictExpiredLocked now ?es0 ?od0 0 = (es1, od1, k)" by (metis prod_cases3)
  note ev_spec = evictExpiredLocked_spec[OF push(1) ev]
  have "length es1 \<le> length ?es0" using ev_spec by simp
  then have "int (length es1) \<le> bm_cap m + 1"
    using size length_mput[of key ?entry "bm_entries m"] by linarith
  from evict_over_spec[OF _ cap this] ev_spec
  obtain od2 where over: "evict_over (bm_cap m) es1 od1 = Some (if int (length es1) > bm_cap m then all_but_earliest es1 else es1, od2)"
    and ok2: "ttl_ok (if int (length es1) > bm_cap m then all_but_earliest es1 else es1) od2"
    and sub: "set od2 \<subseteq> set od1"
    and len: "int (length es1) > bm_cap m \<longrightarrow> int (length (all_but_earliest es1)) = bm_cap m"
    by blast
  define es2 where "es2 = (if int (length es1) > bm_cap m then all_but_earliest es1 else es1)"
  let ?m' = "m\<lparr>bm_seq := Suc (bm_seq m), bm_entries := es2, bm_order := compactOrderLocked es2 od2\<rparr>"
  have set: "bm_Set key val ttl now m = Some ?m'"
    using ev over by (simp add: bm_Set_def n es2_def)
  have es2: "int (length es2) \<le> bm_cap m" using len by (simp add: es2_def)
  note compact = compactOrderLocked_ok[OF ok2[folded es2_def]]
  have "te_seq e \<le> Suc (bm_seq m)" if "e \<in> set (compactOrderLocked es2 od2)" for e
  proof -
    have "e \<in> set ?od0" using that compact(2) sub ev_spec by blast
    then show ?thesis using push(2) seqs by auto
  qed
  then have "bm_inv ?m'" using compact es2 cap by (auto simp: bm_inv_def)
  moreover have "bm_abs ?m' = ref_store key val ttl now (bm_abs m)"
    using ev_spec by (simp add: bm_abs_def ref_store_def es2_def Let_def)
  ultimately show ?thesis using set by blast
qed

lemma bm_shrink:
  assumes "bm_inv m" and "gomap es" and "set es \<subseteq> set (bm_entries m)" and "length es \<le> length (bm_entries m)"
  shows "bm_inv (m\<lparr>bm_entries := es\<rparr>)"
  using assms ttl_ok_subset by (auto simp: bm_inv_def)

lemma getLocked_refines:
  assumes "bm_inv m" and "getLocked key now m = (m', found)"
  shows "bm_inv m' \<and> bm_seq m' = bm_seq m \<and> ref_get key now (bm_abs m) = (bm_abs m', found)"
proof -
  have gm: "gomap (bm_entries m)" using assms(1) by (simp add: bm_inv_def ttl_ok_def)
  then have "bm_inv (m\<lparr>bm_entries := mdel key (bm_entries m)\<rparr>)"
    by (intro bm_shrink[OF assms(1)]) (auto simp: mdel_filter)
  then show ?thesis
    using assms mdel_absent[of "bm_entries m" key]
    by (auto simp: getLocked_def ref_get_def bm_abs_def split: option.splits if_splits)
qed

lemma bm_step_refines:
  assumes "bm_inv m" and "Suc (bm_seq m) < 2 ^ 64"
  shows "\<exists>m' out. bm_step zero op m = Some (m', out) \<and> bm_inv m' \<and> bm_seq m' \<le> Suc (bm_seq m)
    \<and> ref_step zero op (bm_abs m) = (bm_abs m', out)"
proof -
  have gm: "gomap (bm_entries m)" and ok: "ttl_ok (bm_entries m) (bm_order m)" using assms(1) by (simp_all add: bm_inv_def ttl_ok_def)
  show ?thesis
  proof (cases op)
    case (OpGet key now)
    then show ?thesis using getLocked_refines[OF assms(1)]
      by (cases "getLocked key now m") (auto simp: bm_Get_def Let_def)
  next
    case (OpSet key val ttl now)
    then show ?thesis using bm_Set_refines[OF assms, of key val ttl now] by (auto simp: bm_abs_def ref_store_def Let_def)
  next
    case (OpMutate key fn now now')
    obtain m1 found where g: "getLocked key now' m = (m1, found)" by fastforce
    note r = getLocked_refines[OF assms(1) g]
    obtain nxt ttl store r where f: "fn (case found of None \<Rightarrow> zero | Some val \<Rightarrow> val) now = ((nxt, ttl, store), r)"
      by (metis prod_cases4 prod.collapse)
    obtain m2 where s: "bm_Set key nxt ttl now m1 = Some m2" "bm_inv m2" "bm_abs m2 = ref_store key nxt ttl now (bm_abs m1)"
      using bm_Set_refines[of m1 key nxt ttl now] r assms(2) by auto
    have "bm_seq m2 = Suc (bm_seq m1)" using s(3) by (simp add: bm_abs_def ref_store_def Let_def)
    then show ?thesis using OpMutate g r f s by (cases store) (auto simp: bm_Mutate_def)
  next
    case (OpDelete key)
    have "ttl_ok (mdel key (bm_entries m)) (bm_order m)"
      by (rule ttl_ok_subset[OF ok]) (use gm in \<open>auto simp: mdel_filter\<close>)
    note c = compactOrderLocked_ok[OF this]
    have "length (mdel key (bm_entries m)) \<le> length (bm_entries m)" by (simp add: mdel_filter)
    then have "bm_inv (bm_Delete key m)"
      using assms(1) c unfolding bm_inv_def bm_Delete_def Let_def by fastforce
    then show ?thesis using OpDelete by (auto simp: bm_Delete_def bm_abs_def Let_def)
  next
    case (OpPurge now)
    obtain es od k where ev: "evictExpiredLocked now (bm_entries m) (bm_order m) 0 = (es, od, k)" by (metis prod_cases3)
    note ev_spec = evictExpiredLocked_spec[OF ok ev]
    have "length es \<le> length (bm_entries m)" "length od \<le> length (bm_order m)" "set od \<subseteq> set (bm_order m)" "ttl_ok es od"
      using ev_spec by auto
    then have "bm_inv (m\<lparr>bm_entries := es, bm_order := od\<rparr>)" using assms(1) by (auto simp: bm_inv_def)
    then show ?thesis using OpPurge ev ev_spec by (auto simp: bm_PurgeExpired_def bm_abs_def Let_def)
  next
    case OpLen
    then show ?thesis using assms(1) by (auto simp: bm_Len_def bm_abs_def)
  qed
qed

fun bm_run :: "'v \<Rightarrow> ('v, 'r) bm_op list \<Rightarrow> 'v BoundedTTLMap \<Rightarrow> ('v BoundedTTLMap \<times> ('v, 'r) bm_out list) option" where
  "bm_run zero [] m = Some (m, [])"
| "bm_run zero (op # ops) m =
     (case bm_step zero op m of
        None \<Rightarrow> None
      | Some (m, out) \<Rightarrow> map_option (\<lambda>(m, outs). (m, out # outs)) (bm_run zero ops m))"

fun ref_run :: "'v \<Rightarrow> ('v, 'r) bm_op list \<Rightarrow> 'v ref_map \<Rightarrow> 'v ref_map \<times> ('v, 'r) bm_out list" where
  "ref_run zero [] s = (s, [])"
| "ref_run zero (op # ops) s =
     (let (s, out) = ref_step zero op s; (s, outs) = ref_run zero ops s in (s, out # outs))"

lemma bm_run_refines:
  assumes "bm_inv m" and "bm_seq m + length ops < 2 ^ 64"
  shows "\<exists>m' outs. bm_run zero ops m = Some (m', outs) \<and> bm_inv m' \<and> ref_run zero ops (bm_abs m) = (bm_abs m', outs)"
  using assms
proof (induction ops arbitrary: m)
  case (Cons op ops)
  obtain m1 out where s: "bm_step zero op m = Some (m1, out)" "bm_inv m1" "bm_seq m1 \<le> Suc (bm_seq m)"
    "ref_step zero op (bm_abs m) = (bm_abs m1, out)"
    using bm_step_refines[OF Cons.prems(1)] Cons.prems(2) by force
  then obtain m2 outs where "bm_run zero ops m1 = Some (m2, outs)" "bm_inv m2"
    "ref_run zero ops (bm_abs m1) = (bm_abs m2, outs)"
    using Cons.IH[OF s(2)] Cons.prems(2) by force
  then show ?case using s by simp
qed simp

lemma NewBoundedTTLMap_inv: "0 \<le> cap \<Longrightarrow> bm_inv (NewBoundedTTLMap cap)"
  by (simp add: bm_inv_def NewBoundedTTLMap_def ttl_ok_def heap_from_def)

lemma bm_step_cap: "bm_step zero op m = Some (m', out) \<Longrightarrow> bm_cap m' = bm_cap m"
  by (cases op) (auto simp: bm_Get_def getLocked_def bm_Set_def bm_Mutate_def bm_Delete_def bm_PurgeExpired_def Let_def
      split: option.splits if_splits prod.splits)

lemma bm_run_cap: "bm_run zero ops m = Some (m', outs) \<Longrightarrow> bm_cap m' = bm_cap m"
  by (induction ops arbitrary: m m' outs) (auto split: option.splits dest: bm_step_cap)

text \<open>C36. The bounded map is a map. Whatever operations run on a new map, it never panics, answers exactly
  as the map without a heap does (every entry until it expires, is replaced or deleted, or is the
  earliest to expire when a store exceeds the capacity), holds no more than its capacity, and the
  heap stays within twice the capacity and 64 however many stale entries were pushed.\<close>

theorem bounded_map_refines:
  assumes "0 \<le> cap" and "length ops < 2 ^ 64"
  shows "\<exists>m outs. bm_run zero ops (NewBoundedTTLMap cap) = Some (m, outs)
    \<and> ref_run zero ops \<lparr>rf_cap = cap, rf_seq = 0, rf_entries = []\<rparr> = (bm_abs m, outs)
    \<and> int (bm_Len m) \<le> cap \<and> int (length (bm_order m)) \<le> 2 * cap + 64"
proof -
  obtain m outs where run: "bm_run zero ops (NewBoundedTTLMap cap) = Some (m, outs)" and inv: "bm_inv m"
    and ref: "ref_run zero ops (bm_abs (NewBoundedTTLMap cap)) = (bm_abs m, outs)"
    using bm_run_refines[OF NewBoundedTTLMap_inv[OF assms(1)], of ops zero] assms(2)
    by (auto simp: NewBoundedTTLMap_def)
  have "bm_cap m = cap" using bm_run_cap[OF run] by (simp add: NewBoundedTTLMap_def)
  then show ?thesis using run inv ref by (auto simp: bm_inv_def bm_Len_def bm_abs_def NewBoundedTTLMap_def)
qed

text \<open>A map of two entries gives up the one that expires first, and later the one that has expired.\<close>

lemma bounded_map_refines_witness:
  "map_option snd (bm_run (0::nat) [OpSet ''a'' 1 30 0, OpSet ''b'' 2 20 0, OpSet ''c'' 3 40 0,
      OpGet ''b'' 5, OpGet ''a'' 5, OpGet ''a'' 30, OpLen :: (nat, unit) bm_op] (NewBoundedTTLMap 2)) =
   Some [Unit, Unit, Unit, Found None, Found (Some 1), Found None, Count 1]"
proof -
  let ?ops = "[OpSet ''a'' 1 30 0, OpSet ''b'' 2 20 0, OpSet ''c'' 3 40 0,
      OpGet ''b'' 5, OpGet ''a'' 5, OpGet ''a'' 30, OpLen :: (nat, unit) bm_op]"
  have "snd (ref_run 0 ?ops \<lparr>rf_cap = 2, rf_seq = 0, rf_entries = []\<rparr>) =
      [Unit, Unit, Unit, Found None, Found (Some 1), Found None, Count 1]"
    by code_simp
  moreover have "(0::int) \<le> 2" "length ?ops < 2 ^ 64" by simp_all
  then obtain m outs where "bm_run 0 ?ops (NewBoundedTTLMap 2) = Some (m, outs)"
    "ref_run 0 ?ops \<lparr>rf_cap = 2, rf_seq = 0, rf_entries = []\<rparr> = (bm_abs m, outs)"
    using bounded_map_refines[of 2 ?ops "0::nat"] by blast
  ultimately show ?thesis by simp
qed

end
