(* ===== verification/Limit_Count.thy ===== *)
theory Limit_Count
  imports Bounded_Map Go_Strings
begin

text \<open>
  The fixed-window part of the rate limit plugin, \<open>pkg/plugin/limit_count\<close>: the store of the local
  policy, \<open>local_store.go\<close>, on the bounded map; from \<open>plugin.go\<close> the validation of the limits, the
  scope of a key, the groups that share a store, and the answer to one request; and the header
  names of \<open>pkg/plugin/limitbase/limit.go\<close>. Instants are nanoseconds, the clock readings are inputs.
\<close>

section \<open>The local store\<close>

record localFixedCounter =
  fc_value :: int
  fc_resetAt :: "int option"

text \<open>\<open>limiter.Rate\<close> and \<open>limiter.Context\<close>, the data of the limiter library.\<close>

record rate =
  ra_Period :: int
  ra_Limit :: int

record limit_context =
  cx_Limit :: int
  cx_Remaining :: int
  cx_Reset :: int
  cx_Reached :: bool

type_synonym local_store = "localFixedCounter BoundedTTLMap"

definition zero_counter :: localFixedCounter where
  "zero_counter = \<lparr>fc_value = 0, fc_resetAt = None\<rparr>"

definition defaultLocalStoreCapacity :: int where
  "defaultLocalStoreCapacity = 100000"

definition newLocalFixedWindowStore :: "int \<Rightarrow> local_store" where
  "newLocalFixedWindowStore capacity = NewBoundedTTLMap capacity"

definition contextFromState :: "rate \<Rightarrow> int \<Rightarrow> int \<Rightarrow> limit_context" where
  "contextFromState rate expiration cnt =
     \<lparr>cx_Limit = ra_Limit rate,
      cx_Remaining = (if cnt \<le> ra_Limit rate then wrap64 (ra_Limit rate - cnt) else 0),
      cx_Reset = expiration div second,
      cx_Reached = (\<not> cnt \<le> ra_Limit rate)\<rparr>"

text \<open>The closure of \<open>increment\<close>, with the count and the expiration it captures.\<close>

definition increment_fn ::
    "int \<Rightarrow> rate \<Rightarrow> localFixedCounter \<Rightarrow> int \<Rightarrow> (localFixedCounter \<times> int \<times> bool) \<times> int \<times> int" where
  "increment_fn delta rate current now =
     (let resetAt = (case fc_resetAt current of
                       Some reset \<Rightarrow> if now < reset then reset else now + ra_Period rate
                     | None \<Rightarrow> now + ra_Period rate);
          old = (case fc_resetAt current of Some reset \<Rightarrow> if now < reset then fc_value current else 0 | None \<Rightarrow> 0);
          val = wrap64 (old + delta)
      in ((\<lparr>fc_value = val, fc_resetAt = Some resetAt\<rparr>, max (resetAt - now) 0, True), val, resetAt))"

definition store_increment ::
    "string \<Rightarrow> int \<Rightarrow> rate \<Rightarrow> int \<Rightarrow> int \<Rightarrow> local_store \<Rightarrow> (local_store \<times> limit_context) option" where
  "store_increment key delta rate now now' s =
     map_option (\<lambda>(s, cnt, expiration). (s, contextFromState rate expiration cnt))
       (bm_Mutate zero_counter key (increment_fn delta rate) now now' s)"

definition store_Get :: "string \<Rightarrow> rate \<Rightarrow> int \<Rightarrow> int \<Rightarrow> local_store \<Rightarrow> (local_store \<times> limit_context) option" where
  "store_Get key rate now now' s = store_increment key 1 rate now now' s"

definition store_Increment ::
    "string \<Rightarrow> int \<Rightarrow> rate \<Rightarrow> int \<Rightarrow> int \<Rightarrow> local_store \<Rightarrow> (local_store \<times> limit_context) option" where
  "store_Increment key cnt rate now now' s = store_increment key cnt rate now now' s"

definition store_Peek :: "string \<Rightarrow> rate \<Rightarrow> int \<Rightarrow> int \<Rightarrow> local_store \<Rightarrow> (local_store \<times> limit_context) option" where
  "store_Peek key rate now now' s =
     map_option (\<lambda>(s, cnt, expiration). (s, contextFromState rate expiration cnt))
       (bm_Mutate zero_counter key
         (\<lambda>current now. ((current, 0, False), fc_value current,
            case fc_resetAt current of None \<Rightarrow> now + ra_Period rate | Some reset \<Rightarrow> reset))
         now now' s)"

definition store_Reset :: "string \<Rightarrow> rate \<Rightarrow> int \<Rightarrow> int \<Rightarrow> local_store \<Rightarrow> (local_store \<times> limit_context) option" where
  "store_Reset key rate now now' s =
     map_option (\<lambda>(s, expiration). (bm_Delete key s, contextFromState rate expiration 0))
       (bm_Mutate zero_counter key (\<lambda>current now. ((current, 0, False), now + ra_Period rate)) now now' s)"

section \<open>The limits of a configuration\<close>

text \<open>The dynamic values a limit may have; an integer stands for \<open>int\<close> and \<open>int64\<close>.\<close>

datatype limit_value = LNil | LString string | LInt int | LFloat float64 | LNumber string | LOther

datatype limit_error = Required string | NotInteger string | Unsafe string | NotPositive string | BadType string
  | EmptyRuleKey | DuplicateRuleKey string

definition maxSafeInteger :: int where
  "maxSafeInteger = 2 ^ 53 - 1"

definition validateLimitInt :: "int \<Rightarrow> string \<Rightarrow> limit_error option" where
  "validateLimitInt val name =
     (if val > maxSafeInteger \<or> val < - maxSafeInteger then Some (Unsafe name)
      else if val \<le> 0 then Some (NotPositive name) else None)"

definition checked :: "int \<Rightarrow> string \<Rightarrow> limit_error + int" where
  "checked parsed name = (case validateLimitInt parsed name of Some err \<Rightarrow> Inl err | None \<Rightarrow> Inr parsed)"

definition parseLimitInt :: "string \<Rightarrow> string \<Rightarrow> limit_error + int" where
  "parseLimitInt val name = (case Atoi val of None \<Rightarrow> Inl (NotInteger name) | Some parsed \<Rightarrow> checked parsed name)"

text \<open>\<open>math.Trunc(v) != v\<close>: of the finite values those with a fraction, and NaN.\<close>

fun has_fraction :: "float64 \<Rightarrow> bool" where
  "has_fraction (Finite m e) = (\<not> (0 \<le> e \<or> 2 ^ nat (- e) dvd m))"
| "has_fraction (Infinite _) = False"
| "has_fraction NaN = True"

fun beyond_safe :: "float64 \<Rightarrow> bool" where
  "beyond_safe (Finite m e) = (go_trunc m e > maxSafeInteger \<or> go_trunc m e < - maxSafeInteger)"
| "beyond_safe _ = True"

fun numericLimitValue :: "limit_value \<Rightarrow> string \<Rightarrow> limit_error + int" where
  "numericLimitValue (LInt v) name = checked v name"
| "numericLimitValue (LFloat v) name =
     (if has_fraction v then Inl (NotInteger name)
      else if beyond_safe v then Inl (Unsafe name)
      else checked (int_of_float v) name)"
| "numericLimitValue (LNumber v) name = parseLimitInt v name"
| "numericLimitValue _ name = Inl (BadType name)"

text \<open>The value and whether it is static; an expression with a variable is resolved per request.\<close>

fun staticLimitValue :: "limit_value \<Rightarrow> string \<Rightarrow> limit_error + (int \<times> bool)" where
  "staticLimitValue LNil name = Inl (Required name)"
| "staticLimitValue (LString expr) name =
     (if CHR ''$'' \<in> set expr then Inr (0, False)
      else res_bind (parseLimitInt expr name) (\<lambda>parsed. Inr (parsed, True)))"
| "staticLimitValue val name = res_bind (numericLimitValue val name) (\<lambda>parsed. Inr (parsed, True))"

record limit_rule =
  ru_Count :: limit_value
  ru_TimeWindow :: limit_value
  ru_Key :: string
  ru_HeaderPrefix :: string

fun validate_rules :: "limit_rule list \<Rightarrow> string set \<Rightarrow> limit_error option" where
  "validate_rules [] seenKeys = None"
| "validate_rules (rule # rules) seenKeys =
     (if ru_Key rule = [] then Some EmptyRuleKey
      else if ru_Key rule \<in> seenKeys then Some (DuplicateRuleKey (ru_Key rule))
      else case staticLimitValue (ru_Count rule) ''rule count'' of
             Inl err \<Rightarrow> Some err
           | Inr _ \<Rightarrow>
               (case staticLimitValue (ru_TimeWindow rule) ''rule time_window'' of
                  Inl err \<Rightarrow> Some err
                | Inr _ \<Rightarrow> validate_rules rules (insert (ru_Key rule) seenKeys)))"

definition validateRules :: "limit_rule list \<Rightarrow> limit_error option" where
  "validateRules rules = validate_rules rules {}"

text \<open>The rate \<open>newLimiter\<close> builds: the product with a second is an \<open>int64\<close>.\<close>

definition limiter_rate :: "int \<Rightarrow> int \<Rightarrow> rate" where
  "limiter_rate cnt timeWindow = \<lparr>ra_Period = wrap64 (timeWindow * second), ra_Limit = cnt\<rparr>"

section \<open>Keys, groups and headers\<close>

definition scopedKey :: "string \<Rightarrow> string \<Rightarrow> string \<Rightarrow> string" where
  "scopedKey grp routeID key =
     (if grp \<noteq> [] then ''group:'' @ grp @ '':'' @ key
      else if routeID \<noteq> [] then ''route:'' @ routeID @ '':'' @ key
      else ''route:unknown:'' @ key)"

definition consumerScopedKey :: "bool \<Rightarrow> string \<Rightarrow> string \<Rightarrow> string" where
  "consumerScopedKey overrides consumerName key =
     (if \<not> overrides then key else if consumerName = [] then key else ''consumer:'' @ consumerName @ '':'' @ key)"

record limitCountGroup =
  gr_fingerprint :: string
  gr_store :: nat
  gr_refs :: int

text \<open>The groups, and the next store to be allocated.\<close>

record group_table =
  gt_entries :: "(string, limitCountGroup) gomap"
  gt_next :: nat

record group_plugin =
  gp_group :: string
  gp_fingerprint :: "string option"
  gp_registered :: bool

datatype group_error = MarshalError | GroupMismatch

definition registerGroup :: "group_plugin \<Rightarrow> group_table \<Rightarrow> group_table \<times> group_plugin \<times> group_error option" where
  "registerGroup p t =
     (if gp_group p = [] \<or> gp_registered p then (t, p, None)
      else case gp_fingerprint p of
             None \<Rightarrow> (t, p, Some MarshalError)
           | Some fingerprint \<Rightarrow>
               (case map_of (gt_entries t) (gp_group p) of
                  Some current \<Rightarrow>
                    if gr_fingerprint current \<noteq> fingerprint then (t, p, Some GroupMismatch)
                    else (t\<lparr>gt_entries := mput (gp_group p) (current\<lparr>gr_refs := gr_refs current + 1\<rparr>) (gt_entries t)\<rparr>,
                          p\<lparr>gp_registered := True\<rparr>, None)
                | None \<Rightarrow>
                    (t\<lparr>gt_entries := mput (gp_group p) \<lparr>gr_fingerprint = fingerprint, gr_store = gt_next t, gr_refs = 1\<rparr> (gt_entries t),
                        gt_next := Suc (gt_next t)\<rparr>,
                     p\<lparr>gp_registered := True\<rparr>, None)))"

definition releaseGroup :: "group_plugin \<Rightarrow> group_table \<Rightarrow> group_table \<times> group_plugin" where
  "releaseGroup p t =
     (if \<not> gp_registered p \<or> gp_group p = [] then (t, p)
      else (case map_of (gt_entries t) (gp_group p) of
              None \<Rightarrow> t
            | Some entry \<Rightarrow>
                if gr_refs entry - 1 \<le> 0 then t\<lparr>gt_entries := mdel (gp_group p) (gt_entries t)\<rparr>
                else t\<lparr>gt_entries := mput (gp_group p) (entry\<lparr>gr_refs := gr_refs entry - 1\<rparr>) (gt_entries t)\<rparr>,
            p\<lparr>gp_registered := False\<rparr>))"

record QuotaHeaders =
  qh_Limit :: string
  qh_Remaining :: string
  qh_Reset :: string

definition DefaultQuotaHeaders :: "string \<Rightarrow> string \<Rightarrow> string \<Rightarrow> QuotaHeaders" where
  "DefaultQuotaHeaders limitHeader remainingHeader resetHeader =
     \<lparr>qh_Limit = if limitHeader = [] then ''X-RateLimit-Limit'' else limitHeader,
      qh_Remaining = if remainingHeader = [] then ''X-RateLimit-Remaining'' else remainingHeader,
      qh_Reset = if resetHeader = [] then ''X-RateLimit-Reset'' else resetHeader\<rparr>"

definition RuleQuotaHeaders :: "string \<Rightarrow> int \<Rightarrow> QuotaHeaders" where
  "RuleQuotaHeaders prefix index =
     (let prefix = (if prefix = [] then Itoa (index + 1) else prefix)
      in \<lparr>qh_Limit = ''X-'' @ prefix @ ''-RateLimit-Limit'',
          qh_Remaining = ''X-'' @ prefix @ ''-RateLimit-Remaining'',
          qh_Reset = ''X-'' @ prefix @ ''-RateLimit-Reset''\<rparr>)"

section \<open>The answer to one request\<close>

text \<open>What the handler does to the response writer and the request variables, in order.\<close>

datatype effect =
    AddHeader string string
  | SetHeader string string
  | WriteHeader int
  | WriteBody string
  | HttpError string int
  | RateLimitingInfo string int int int

record limit_config =
  lc_Group :: string
  lc_routeID :: string
  lc_Cost :: int
  lc_AllowDegradation :: bool
  lc_ShowLimitQuotaHeader :: bool
  lc_RejectedCode :: int
  lc_RejectedMsg :: string
  lc_rejectBody :: string

text \<open>The limiter of the library: it has its store and its rate.\<close>

record 's limiter =
  li_Peek :: "string \<Rightarrow> 's \<Rightarrow> 's \<times> (string + limit_context)"
  li_Get :: "string \<Rightarrow> 's \<Rightarrow> 's \<times> (string + limit_context)"
  li_Increment :: "string \<Rightarrow> int \<Rightarrow> 's \<Rightarrow> 's \<times> (string + limit_context)"

definition fixedWindowResetSeconds :: "int \<Rightarrow> int \<Rightarrow> int" where
  "fixedWindowResetSeconds expiration now = max (expiration - now div second) 0"

definition recordRateLimitingInfo :: "limit_config \<Rightarrow> bool \<Rightarrow> string \<Rightarrow> int \<Rightarrow> int \<Rightarrow> int \<Rightarrow> effect list" where
  "recordRateLimitingInfo cfg vars key limit remaining reset =
     (if \<not> vars then [] else [RateLimitingInfo (scopedKey (lc_Group cfg) (lc_routeID cfg) key) limit remaining reset])"

definition quota_headers :: "limit_config \<Rightarrow> QuotaHeaders \<Rightarrow> int \<Rightarrow> int \<Rightarrow> int \<Rightarrow> effect list" where
  "quota_headers cfg headers limit remaining reset =
     (if lc_ShowLimitQuotaHeader cfg
      then [AddHeader (qh_Limit headers) (Itoa limit), AddHeader (qh_Remaining headers) (Itoa remaining),
            AddHeader (qh_Reset headers) (Itoa reset)]
      else [])"

definition reject_response :: "limit_config \<Rightarrow> effect list" where
  "reject_response cfg =
     (if lc_RejectedMsg cfg \<noteq> []
      then [SetHeader ''Content-Type'' ''application/json'', WriteHeader (lc_RejectedCode cfg), WriteBody (lc_rejectBody cfg)]
      else [WriteHeader (lc_RejectedCode cfg)])"

definition runLimit ::
    "limit_config \<Rightarrow> 's limiter \<Rightarrow> int \<Rightarrow> string \<Rightarrow> QuotaHeaders \<Rightarrow> bool \<Rightarrow> int \<Rightarrow> 's \<Rightarrow> 's \<times> effect list \<times> bool" where
  "runLimit cfg lim cnt key headers vars now s =
     (let scoped = scopedKey (lc_Group cfg) (lc_routeID cfg) key;
          (s, res) = (if lc_Cost cfg = 0 then li_Peek lim scoped s
                      else if lc_Cost cfg = 1 then li_Get lim scoped s
                      else li_Increment lim scoped (lc_Cost cfg) s)
      in case res of
           Inl err \<Rightarrow>
             if lc_AllowDegradation cfg then (s, [], True)
             else (s, [HttpError ''failed to limit count'' 500], False)
         | Inr context \<Rightarrow>
             let reset = fixedWindowResetSeconds (cx_Reset context) now;
                 info = recordRateLimitingInfo cfg vars key (cx_Limit context) (cx_Remaining context) reset
             in if cx_Reached context
                then (s, info @ quota_headers cfg headers cnt 0 reset @ reject_response cfg, False)
                else (s, info @ quota_headers cfg headers (cx_Limit context) (cx_Remaining context) reset, True))"

section \<open>The store is a fixed-window counter\<close>

text \<open>
  One call of a store: key, increment, rate and the two clock readings. The reference keeps, for
  each key ever used, the end of its window and the count in it; nothing is bounded or evicted.
\<close>

record call =
  ca_key :: string
  ca_delta :: int
  ca_rate :: rate
  ca_now :: int
  ca_now' :: int

type_synonym windows = "string \<rightharpoonup> int \<times> int"

definition window_of :: "windows \<Rightarrow> call \<Rightarrow> int \<times> int" where
  "window_of W c =
     (case W (ca_key c) of
        Some (reset, n) \<Rightarrow> if ca_now' c < reset then (reset, wrap64 (n + ca_delta c))
                          else (ca_now c + ra_Period (ca_rate c), wrap64 (ca_delta c))
      | None \<Rightarrow> (ca_now c + ra_Period (ca_rate c), wrap64 (ca_delta c)))"

fun fixed_windows :: "windows \<Rightarrow> call list \<Rightarrow> (int \<times> int) list" where
  "fixed_windows W [] = []"
| "fixed_windows W (c # cs) = window_of W c # fixed_windows (W(ca_key c \<mapsto> window_of W c)) cs"

fun store_run :: "call list \<Rightarrow> local_store \<Rightarrow> limit_context list option" where
  "store_run [] s = Some []"
| "store_run (c # cs) s =
     (case store_increment (ca_key c) (ca_delta c) (ca_rate c) (ca_now c) (ca_now' c) s of
        None \<Rightarrow> None
      | Some (s, context) \<Rightarrow> map_option (\<lambda>contexts. context # contexts) (store_run cs s))"

text \<open>The clock does not go back, and a window has a positive length.\<close>

fun clock_ok :: "int \<Rightarrow> call list \<Rightarrow> bool" where
  "clock_ok t [] = True"
| "clock_ok t (c # cs) =
     (t \<le> ca_now c \<and> ca_now c \<le> ca_now' c \<and> 0 < ra_Period (ca_rate c) \<and> clock_ok (ca_now' c) cs)"

definition windows_rel :: "int \<Rightarrow> windows \<Rightarrow> (string, localFixedCounter ttlEntry) gomap \<Rightarrow> bool" where
  "windows_rel t W entries \<longleftrightarrow> gomap entries \<and> finite (dom W) \<and> (\<forall>key.
     case W key of
       None \<Rightarrow> map_of entries key = None
     | Some (reset, n) \<Rightarrow>
         (case map_of entries key of
            None \<Rightarrow> reset \<le> t
          | Some e \<Rightarrow> te_expiresAt e = reset \<and> te_value e = \<lparr>fc_value = n, fc_resetAt = Some reset\<rparr>))"

lemma gomap_length: "gomap m \<Longrightarrow> length m = card (dom (map_of m))"
  unfolding gomap_def by (metis distinct_card image_fst_dom length_map set_map)

lemma windows_relD:
  assumes "windows_rel t W entries"
  shows "W key = None \<Longrightarrow> map_of entries key = None"
    and "W key = Some (reset, n) \<Longrightarrow> (case map_of entries key of None \<Rightarrow> reset \<le> t
      | Some e \<Rightarrow> te_expiresAt e = reset \<and> te_value e = \<lparr>fc_value = n, fc_resetAt = Some reset\<rparr>)"
    and "gomap entries" and "finite (dom W)"
proof -
  have key: "case W key of None \<Rightarrow> map_of entries key = None
     | Some (reset, n) \<Rightarrow>
         (case map_of entries key of
            None \<Rightarrow> reset \<le> t
          | Some e \<Rightarrow> te_expiresAt e = reset \<and> te_value e = \<lparr>fc_value = n, fc_resetAt = Some reset\<rparr>)"
    using assms unfolding windows_rel_def by blast
  show "W key = None \<Longrightarrow> map_of entries key = None" using key by simp
  show "W key = Some (reset, n) \<Longrightarrow> (case map_of entries key of None \<Rightarrow> reset \<le> t
      | Some e \<Rightarrow> te_expiresAt e = reset \<and> te_value e = \<lparr>fc_value = n, fc_resetAt = Some reset\<rparr>)" using key by simp
  show "gomap entries" "finite (dom W)" using assms unfolding windows_rel_def by blast+
qed

lemma windows_rel_length:
  assumes "windows_rel t W entries"
  shows "length entries \<le> card (dom W)"
proof -
  have "dom (map_of entries) \<subseteq> dom W"
  proof
    fix key assume "key \<in> dom (map_of entries)"
    then have "map_of entries key \<noteq> None" by (simp add: domIff)
    then have "W key \<noteq> None" using windows_relD(1)[OF assms, of key] by argo
    then show "key \<in> dom W" by (simp add: domIff)
  qed
  then have "card (dom (map_of entries)) \<le> card (dom W)" using windows_relD(4)[OF assms] card_mono by blast
  then show ?thesis using gomap_length[OF windows_relD(3)[OF assms]] by simp
qed

lemma map_of_filter_value:
  "gomap m \<Longrightarrow> map_of (filter (\<lambda>(_, e). P e) m) k = (case map_of m k of Some e \<Rightarrow> if P e then Some e else None | None \<Rightarrow> None)"
proof (induction m)
  case (Cons p m)
  obtain a b where p: "p = (a, b)" by fastforce
  have gm: "gomap m" and a: "map_of m a = None"
    using Cons.prems unfolding gomap_def p by (auto simp: map_of_eq_None_iff)
  show ?case
  proof (cases "k = a")
    case True
    then show ?thesis using Cons.IH[OF gm] a by (simp add: p)
  next
    case False
    then show ?thesis using Cons.IH[OF gm] by (simp add: p)
  qed
qed simp

text \<open>Dropping what has expired by \<open>now\<close> and removing the key that is stored next keep the relation.\<close>

lemma windows_rel_store:
  assumes "windows_rel t W entries" and "t \<le> now" and "now \<le> t'"
    and "\<And>k. k \<noteq> key \<Longrightarrow> map_of es k = map_of entries k" and "gomap es"
    and "te_expiresAt e = reset" and "te_value e = \<lparr>fc_value = n, fc_resetAt = Some reset\<rparr>"
  shows "windows_rel t' (W(key \<mapsto> (reset, n))) (unexpired now (mput key e es))"
proof -
  have gm: "gomap (mput key e es)" using assms(5) by simp
  have look: "map_of (unexpired now (mput key e es)) k =
      (case map_of (mput key e es) k of Some e' \<Rightarrow> if now < te_expiresAt e' then Some e' else None | None \<Rightarrow> None)" for k
    using map_of_filter_value[OF gm] .
  show ?thesis
    unfolding windows_rel_def
  proof (intro conjI allI)
    fix k
    have old: "case W k of None \<Rightarrow> map_of entries k = None
      | Some (r, n) \<Rightarrow> (case map_of entries k of None \<Rightarrow> r \<le> t
          | Some e \<Rightarrow> te_expiresAt e = r \<and> te_value e = \<lparr>fc_value = n, fc_resetAt = Some r\<rparr>)"
      using assms(1) unfolding windows_rel_def by blast
    show "case (W(key \<mapsto> (reset, n))) k of None \<Rightarrow> map_of (unexpired now (mput key e es)) k = None
      | Some (r, n) \<Rightarrow> (case map_of (unexpired now (mput key e es)) k of None \<Rightarrow> r \<le> t'
          | Some e \<Rightarrow> te_expiresAt e = r \<and> te_value e = \<lparr>fc_value = n, fc_resetAt = Some r\<rparr>)"
    proof (cases "k = key")
      case True
      then show ?thesis using look[of k] assms(2,3,6,7) by simp
    next
      case False
      then have m: "map_of (mput key e es) k = map_of entries k" using assms(4) by simp
      show ?thesis
      proof (cases "W k")
        case None
        then show ?thesis using look[of k] m old False by simp
      next
        case (Some rn)
        then show ?thesis
          using look[of k] m old False assms(2,3) by (cases rn; cases "map_of entries k") auto
      qed
    qed
  qed (use assms(1) gm in \<open>auto simp: windows_rel_def\<close>)
qed

text \<open>What the bounded map finds for the key of a call is the count of the window that is still open.\<close>

lemma window_lookup:
  assumes "windows_rel t W (bm_entries s)" and "t \<le> ca_now c" and "ca_now c \<le> ca_now' c" and "0 < ra_Period (ca_rate c)"
    and "getLocked (ca_key c) (ca_now' c) s = (s1, found)" and "window_of W c = (reset, n)"
  shows "increment_fn (ca_delta c) (ca_rate c) (case found of None \<Rightarrow> zero_counter | Some v \<Rightarrow> v) (ca_now c) =
      ((\<lparr>fc_value = n, fc_resetAt = Some reset\<rparr>, reset - ca_now c, True), n, reset)
    \<and> (\<forall>k. k \<noteq> ca_key c \<longrightarrow> map_of (bm_entries s1) k = map_of (bm_entries s) k) \<and> bm_cap s1 = bm_cap s"
proof -
  have others: "(\<forall>k. k \<noteq> ca_key c \<longrightarrow> map_of (bm_entries s1) k = map_of (bm_entries s) k) \<and> bm_cap s1 = bm_cap s"
    using assms(5) by (auto simp: getLocked_def split: option.splits if_splits)
  show ?thesis
  proof (cases "\<exists>r m. W (ca_key c) = Some (r, m) \<and> ca_now' c < r")
    case True
    then obtain r m where w: "W (ca_key c) = Some (r, m)" "ca_now' c < r" by blast
    then obtain e where e: "map_of (bm_entries s) (ca_key c) = Some e" "te_expiresAt e = r"
      "te_value e = \<lparr>fc_value = m, fc_resetAt = Some r\<rparr>"
      using windows_relD(2)[OF assms(1) w(1)] assms(2,3) by (cases "map_of (bm_entries s) (ca_key c)") auto
    then have "found = Some \<lparr>fc_value = m, fc_resetAt = Some r\<rparr>"
      using assms(5) w(2) by (simp add: getLocked_def)
    moreover have "reset = r" "n = wrap64 (m + ca_delta c)" using assms(6) w by (simp_all add: window_of_def)
    ultimately show ?thesis
      using others w(2) assms(3) by (simp add: increment_fn_def Let_def)
  next
    case False
    have "found = None"
    proof (cases "W (ca_key c)")
      case None
      then show ?thesis using windows_relD(1)[OF assms(1) None] assms(5) by (simp add: getLocked_def)
    next
      case (Some rm)
      then obtain r m where w: "W (ca_key c) = Some (r, m)" "r \<le> ca_now' c" using False by (cases rm) force
      then show ?thesis
        using windows_relD(2)[OF assms(1) w(1)] assms(5)
        by (cases "map_of (bm_entries s) (ca_key c)") (auto simp: getLocked_def split: if_splits)
    qed
    moreover have "reset = ca_now c + ra_Period (ca_rate c)" "n = wrap64 (ca_delta c)"
      using assms(6) False by (auto simp: window_of_def split: option.splits if_splits)
    ultimately show ?thesis
      using others assms(4) by (simp add: increment_fn_def zero_counter_def Let_def)
  qed
qed

lemma window_open:
  assumes "ca_now c \<le> ca_now' c" and "0 < ra_Period (ca_rate c)" and "window_of W c = (reset, n)"
  shows "ca_now c < reset"
  using assms by (auto simp: window_of_def split: option.splits if_splits)

lemma store_increment_window:
  assumes "bm_inv s" and "Suc (bm_seq s) < 2 ^ 64" and "windows_rel t W (bm_entries s)"
    and "t \<le> ca_now c" and "ca_now c \<le> ca_now' c" and "0 < ra_Period (ca_rate c)"
    and "int (card (insert (ca_key c) (dom W))) \<le> bm_cap s" and "window_of W c = (reset, n)"
  shows "\<exists>s'. store_increment (ca_key c) (ca_delta c) (ca_rate c) (ca_now c) (ca_now' c) s =
      Some (s', contextFromState (ca_rate c) reset n)
    \<and> bm_inv s' \<and> bm_seq s' = Suc (bm_seq s) \<and> bm_cap s' = bm_cap s
    \<and> windows_rel (ca_now' c) (W(ca_key c \<mapsto> (reset, n))) (bm_entries s')"
proof -
  obtain s1 found where g: "getLocked (ca_key c) (ca_now' c) s = (s1, found)" by fastforce
  note look = window_lookup[OF assms(3-6) g assms(8)]
  note r1 = getLocked_refines[OF assms(1) g]
  let ?v = "\<lparr>fc_value = n, fc_resetAt = Some reset\<rparr>"
  obtain s2 where set: "bm_Set (ca_key c) ?v (reset - ca_now c) (ca_now c) s1 = Some s2" and inv: "bm_inv s2"
    and abs: "bm_abs s2 = ref_store (ca_key c) ?v (reset - ca_now c) (ca_now c) (bm_abs s1)"
    using bm_Set_refines[of s1 "ca_key c" ?v "reset - ca_now c" "ca_now c"] r1 assms(2) by auto
  let ?e = "\<lparr>te_key = ca_key c, te_value = ?v, te_expiresAt = reset, te_seq = Suc (bm_seq s)\<rparr>"
  let ?es = "unexpired (ca_now c) (mput (ca_key c) ?e (bm_entries s1))"
  have gm: "gomap (bm_entries s1)" using r1 by (simp add: bm_inv_def ttl_ok_def)
  have rel: "windows_rel (ca_now' c) (W(ca_key c \<mapsto> (reset, n))) ?es"
    by (rule windows_rel_store[OF assms(3,4,5) _ gm]) (use look in simp_all)
  have "length ?es \<le> card (insert (ca_key c) (dom W))" using windows_rel_length[OF rel] by simp
  then have "\<not> int (length ?es) > bm_cap s" using assms(7) by linarith
  then have s2: "bm_entries s2 = ?es" "bm_seq s2 = Suc (bm_seq s)" "bm_cap s2 = bm_cap s"
    using abs r1 look by (auto simp: bm_abs_def ref_store_def Let_def)
  have "store_increment (ca_key c) (ca_delta c) (ca_rate c) (ca_now c) (ca_now' c) s =
      Some (s2, contextFromState (ca_rate c) reset n)"
    using look set g by (simp add: store_increment_def bm_Mutate_def)
  then show ?thesis using inv s2 rel by auto
qed

lemma store_run_windows:
  assumes "bm_inv s" and "bm_seq s + length calls < 2 ^ 64" and "windows_rel t W (bm_entries s)"
    and "clock_ok t calls" and "int (card (dom W \<union> ca_key ` set calls)) \<le> bm_cap s"
  shows "store_run calls s =
    Some (map2 (\<lambda>c (reset, n). contextFromState (ca_rate c) reset n) calls (fixed_windows W calls))"
  using assms
proof (induction calls arbitrary: s t W)
  case (Cons c calls)
  obtain reset n where w: "window_of W c = (reset, n)" by fastforce
  have fin: "finite (dom W)" using windows_relD(4)[OF Cons.prems(3)] .
  have "card (insert (ca_key c) (dom W)) \<le> card (dom W \<union> ca_key ` set (c # calls))"
    using fin by (intro card_mono) auto
  then have cap: "int (card (insert (ca_key c) (dom W))) \<le> bm_cap s" using Cons.prems(5) by linarith
  obtain s' where s': "store_increment (ca_key c) (ca_delta c) (ca_rate c) (ca_now c) (ca_now' c) s =
      Some (s', contextFromState (ca_rate c) reset n)" "bm_inv s'" "bm_seq s' = Suc (bm_seq s)" "bm_cap s' = bm_cap s"
    "windows_rel (ca_now' c) (W(ca_key c \<mapsto> (reset, n))) (bm_entries s')"
    using store_increment_window[OF Cons.prems(1) _ Cons.prems(3) _ _ _ cap w] Cons.prems(2,4) by auto
  have "store_run calls s' = Some (map2 (\<lambda>c (reset, n). contextFromState (ca_rate c) reset n) calls
      (fixed_windows (W(ca_key c \<mapsto> (reset, n))) calls))"
  proof (rule Cons.IH[OF s'(2) _ s'(5)])
    have "dom (W(ca_key c \<mapsto> (reset, n))) \<union> ca_key ` set calls = dom W \<union> ca_key ` set (c # calls)" by auto
    then show "int (card (dom (W(ca_key c \<mapsto> (reset, n))) \<union> ca_key ` set calls)) \<le> bm_cap s'"
      using Cons.prems(5) s'(4) by simp
  qed (use s'(3) Cons.prems(2,4) in simp_all)
  then show ?case using s'(1) w by simp
qed simp



section \<open>Limits and groups\<close>

text \<open>A limit that is accepted is positive and exact as a float, but the period in nanoseconds may wrap.\<close>

lemma checked_range: "checked v name = Inr n \<Longrightarrow> n = v \<and> 0 < n \<and> n \<le> maxSafeInteger"
  by (auto simp: checked_def validateLimitInt_def split: option.splits if_splits)

lemma staticLimitValue_range:
  assumes "staticLimitValue v name = Inr (n, True)"
  shows "0 < n \<and> n \<le> maxSafeInteger"
proof -
  have parse: "parseLimitInt x name = Inr n \<Longrightarrow> 0 < n \<and> n \<le> maxSafeInteger" for x
    using checked_range by (auto simp: parseLimitInt_def split: option.splits)
  show ?thesis
    using assms checked_range parse
    by (cases v) (auto simp: res_bind_Inr_iff split: if_splits)
qed

lemma period_positive: "0 < timeWindow \<Longrightarrow> timeWindow \<le> 9223372036 \<Longrightarrow> ra_Period (limiter_rate n timeWindow) = timeWindow * second"
  by (simp add: limiter_rate_def wrap64_id max_int64_def)

lemma period_wraps: "staticLimitValue (LInt 9223372037) name = Inr (9223372037, True)
  \<and> ra_Period (limiter_rate n 9223372037) < 0"
  by (simp add: checked_def validateLimitInt_def maxSafeInteger_def limiter_rate_def wrap64_def)

text \<open>A limit that is reached is answered with the rejection, an error only without degradation.\<close>

lemma runLimit_admits:
  assumes "runLimit cfg lim cnt key headers vars now s = (s', effects, admitted)" and "lc_Cost cfg = 1"
    and "li_Get lim (scopedKey (lc_Group cfg) (lc_routeID cfg) key) s = (s'', res)"
  shows "s' = s'' \<and> (admitted \<longleftrightarrow> (case res of Inl _ \<Rightarrow> lc_AllowDegradation cfg | Inr x \<Rightarrow> \<not> cx_Reached x))"
  using assms by (auto simp: runLimit_def Let_def split: sum.splits if_splits)

text \<open>The groups count their registered plugins and give all of them the store of the first.\<close>

definition members :: "string \<Rightarrow> group_plugin list \<Rightarrow> nat" where
  "members g ps = length (filter (\<lambda>p. gp_registered p \<and> gp_group p = g) ps)"

definition entry_ok :: "limitCountGroup option \<Rightarrow> nat \<Rightarrow> nat \<Rightarrow> bool" where
  "entry_ok entry n fresh =
     (case entry of None \<Rightarrow> n = 0 | Some e \<Rightarrow> 0 < n \<and> gr_refs e = int n \<and> gr_store e < fresh)"

definition group_ok :: "group_plugin list \<Rightarrow> group_table \<Rightarrow> bool" where
  "group_ok ps t \<longleftrightarrow> (\<forall>g. g \<noteq> [] \<longrightarrow> entry_ok (map_of (gt_entries t) g) (members g ps) (gt_next t))"

lemma members_update:
  assumes "i < length ps"
  shows "members g (ps[i := p]) + (if gp_registered (ps ! i) \<and> gp_group (ps ! i) = g then 1 else 0) =
    members g ps + (if gp_registered p \<and> gp_group p = g then 1 else 0)"
proof -
  let ?P = "\<lambda>p. gp_registered p \<and> gp_group p = g"
  have "members g ps = members g (take i ps) + (if ?P (ps ! i) then 1 else 0) + members g (drop (Suc i) ps)"
    unfolding members_def by (subst (1) id_take_nth_drop[OF assms]) simp
  then show ?thesis unfolding members_def upd_conv_take_nth_drop[OF assms] by simp
qed

lemma entry_ok_mono: "entry_ok e n k \<Longrightarrow> k \<le> k' \<Longrightarrow> entry_ok e n k'"
  by (auto simp: entry_ok_def split: option.splits)

lemma group_okI:
  assumes "group_ok ps t" and "gt_next t \<le> gt_next t'"
    and "\<And>g. g \<noteq> gp \<Longrightarrow> map_of (gt_entries t') g = map_of (gt_entries t) g \<and> members g ps' = members g ps"
    and "gp \<noteq> [] \<Longrightarrow> entry_ok (map_of (gt_entries t') gp) (members gp ps') (gt_next t')"
  shows "group_ok ps' t'"
  unfolding group_ok_def
proof (intro allI impI)
  fix g :: string assume "g \<noteq> []"
  then have old: "entry_ok (map_of (gt_entries t) g) (members g ps) (gt_next t)"
    using assms(1) by (simp add: group_ok_def)
  show "entry_ok (map_of (gt_entries t') g) (members g ps') (gt_next t')"
  proof (cases "g = gp")
    case True
    then show ?thesis using assms(4) \<open>g \<noteq> []\<close> by blast
  next
    case False
    then show ?thesis using assms(3)[OF False] entry_ok_mono[OF old assms(2)] by simp
  qed
qed

lemma registerGroup_cases:
  assumes "registerGroup p t = (t', p', err)"
  obtains (same) "t' = t" "p' = p"
  | (join) e where "\<not> gp_registered p" "map_of (gt_entries t) (gp_group p) = Some e" "p' = p\<lparr>gp_registered := True\<rparr>"
      "t' = t\<lparr>gt_entries := mput (gp_group p) (e\<lparr>gr_refs := gr_refs e + 1\<rparr>) (gt_entries t)\<rparr>"
  | (fresh) f where "\<not> gp_registered p" "map_of (gt_entries t) (gp_group p) = None" "p' = p\<lparr>gp_registered := True\<rparr>"
      "t' = t\<lparr>gt_entries := mput (gp_group p) \<lparr>gr_fingerprint = f, gr_store = gt_next t, gr_refs = 1\<rparr> (gt_entries t),
             gt_next := Suc (gt_next t)\<rparr>"
proof (cases "gp_group p = [] \<or> gp_registered p \<or> gp_fingerprint p = None")
  case True
  then have "registerGroup p t = (t, p, if gp_group p = [] \<or> gp_registered p then None else Some MarshalError)"
    by (auto simp: registerGroup_def)
  then show ?thesis using assms same by simp
next
  case False
  then obtain f where f: "gp_fingerprint p = Some f" "gp_group p \<noteq> []" "\<not> gp_registered p" by blast
  show ?thesis
  proof (cases "map_of (gt_entries t) (gp_group p)")
    case None
    then show ?thesis using assms f fresh[of f] by (simp add: registerGroup_def)
  next
    case (Some e)
    show ?thesis
    proof (cases "gr_fingerprint e = f")
      case True
      then show ?thesis using assms f Some join[of e] by (simp add: registerGroup_def)
    next
      case False
      then show ?thesis using assms f Some same by (simp add: registerGroup_def)
    qed
  qed
qed

lemma registerGroup_ok:
  assumes "group_ok ps t" and "i < length ps" and "registerGroup (ps ! i) t = (t', p', err)"
  shows "group_ok (ps[i := p']) t'"
proof -
  note m = members_update[OF assms(2)]
  have old: "entry_ok (map_of (gt_entries t) g) (members g ps) (gt_next t)" if "g \<noteq> []" for g
    using assms(1) that by (simp add: group_ok_def)
  from assms(3) show ?thesis
  proof (cases rule: registerGroup_cases)
    case same
    then show ?thesis using assms(1) by simp
  next
    case (join e)
    have n: "members g (ps[i := p']) = members g ps + (if g = gp_group (ps ! i) then 1 else 0)" for g
      using m[of g p'] join by auto
    show ?thesis
      by (rule group_okI[OF assms(1), of t' "gp_group (ps ! i)"])
        (use join(2,4) old[of "gp_group (ps ! i)"] in \<open>simp_all add: n entry_ok_def\<close>)
  next
    case (fresh f)
    have n: "members g (ps[i := p']) = members g ps + (if g = gp_group (ps ! i) then 1 else 0)" for g
      using m[of g p'] fresh by auto
    show ?thesis
      by (rule group_okI[OF assms(1), of t' "gp_group (ps ! i)"])
        (use fresh(2,4) old[of "gp_group (ps ! i)"] in \<open>simp_all add: n entry_ok_def\<close>)
  qed
qed

lemma releaseGroup_ok:
  assumes "group_ok ps t" and "i < length ps" and "releaseGroup (ps ! i) t = (t', p')"
  shows "group_ok (ps[i := p']) t'"
proof (cases "gp_registered (ps ! i) \<and> gp_group (ps ! i) \<noteq> []")
  case False
  then show ?thesis using assms by (auto simp: releaseGroup_def)
next
  case True
  let ?g = "gp_group (ps ! i)"
  have p': "p' = (ps ! i)\<lparr>gp_registered := False\<rparr>" using assms(3) True by (simp add: releaseGroup_def)
  have n: "members g ps = members g (ps[i := p']) + (if g = ?g then 1 else 0)" for g
    using members_update[OF assms(2), of g p'] p' True by auto
  have old: "entry_ok (map_of (gt_entries t) ?g) (members ?g ps) (gt_next t)"
    using assms(1) True by (simp add: group_ok_def)
  then obtain e where e: "map_of (gt_entries t) ?g = Some e" "gr_refs e = int (members ?g (ps[i := p'])) + 1" "gr_store e < gt_next t"
    using n[of ?g] by (cases "map_of (gt_entries t) ?g") (auto simp: entry_ok_def)
  show ?thesis
  proof (cases "members ?g (ps[i := p']) = 0")
    case True
    then have "t' = t\<lparr>gt_entries := mdel ?g (gt_entries t)\<rparr>"
      using assms(3) e p' \<open>gp_registered (ps ! i) \<and> ?g \<noteq> []\<close> by (simp add: releaseGroup_def)
    then show ?thesis
      by (intro group_okI[OF assms(1), of t' ?g]) (use True n in \<open>simp_all add: entry_ok_def\<close>)
  next
    case False
    then have "t' = t\<lparr>gt_entries := mput ?g (e\<lparr>gr_refs := gr_refs e - 1\<rparr>) (gt_entries t)\<rparr>"
      using assms(3) e p' \<open>gp_registered (ps ! i) \<and> ?g \<noteq> []\<close> by (simp add: releaseGroup_def)
    then show ?thesis
      by (intro group_okI[OF assms(1), of t' ?g]) (use False e n in \<open>simp_all add: entry_ok_def\<close>)
  qed
qed

end
