(* ===== verification/Delayed_Sync.thy ===== *)
theory Delayed_Sync
  imports Go_Prelude
begin

text \<open>
  The delayed synchronisation of rate limit counters, \<open>pkg/plugin/limit_count/delayed_sync.go\<close>.
  Requests are admitted against a local count while a goroutine commits the counts to a remote
  backend. Every critical section of the syncer's mutex is one step, as is a receive from the
  queue; the backend answers at will, and the answers are inputs of the steps. Counts stay far
  below the width of an \<open>int64\<close> and are integers.
\<close>

section \<open>The syncer\<close>

text \<open>The zero time is \<open>None\<close>; no instant is before it.\<close>

record delayedSyncState =
  dy_remoteRemaining :: int
  dy_localDelta :: int
  dy_reservationAt :: "int option"
  dy_resetAt :: "int option"
  dy_initialized :: bool
  dy_inFlight :: bool

record delayedSyncer =
  sy_window :: int
  sy_queueSize :: nat
  sy_maxStates :: int
  sy_queue :: "string list"
  sy_states :: "(string, delayedSyncState) gomap"
  sy_retry :: "string list"
  sy_retryNext :: "string list"

definition maxDelayedSyncStates :: int where
  "maxDelayedSyncStates = 10000"

definition newDelayedSyncer :: "int \<Rightarrow> nat \<Rightarrow> delayedSyncer" where
  "newDelayedSyncer window queueSize =
     \<lparr>sy_window = window, sy_queueSize = queueSize, sy_maxStates = maxDelayedSyncStates, sy_queue = [],
      sy_states = [], sy_retry = [], sy_retryNext = []\<rparr>"

definition zero_state :: delayedSyncState where
  "zero_state = \<lparr>dy_remoteRemaining = 0, dy_localDelta = 0, dy_reservationAt = None, dy_resetAt = None,
     dy_initialized = False, dy_inFlight = False\<rparr>"

definition before :: "int \<Rightarrow> int option \<Rightarrow> bool" where
  "before now t = (case t of None \<Rightarrow> False | Some t \<Rightarrow> now < t)"

definition stateCapacity :: "delayedSyncer \<Rightarrow> int" where
  "stateCapacity s = (if sy_maxStates s > 0 then sy_maxStates s else maxDelayedSyncStates)"

definition cleanupExpiredLocked :: "int \<Rightarrow> delayedSyncer \<Rightarrow> delayedSyncer" where
  "cleanupExpiredLocked now s =
     s\<lparr>sy_states := filter (\<lambda>(key, state).
        \<not> dy_initialized state \<or> before now (dy_resetAt state) \<or> dy_localDelta state \<noteq> 0 \<or> dy_inFlight state
        \<or> key \<in> set (sy_retry s) \<or> key \<in> set (sy_retryNext s)) (sy_states s)\<rparr>"

text \<open>
  One turn of the loop of \<open>incoming\<close>, which holds the mutex: the answers of the backend to the
  commit of an expired window and to the query of the current one are inputs. It waits for a
  commit that is in flight, fails, rejects, or accepts. The last component is what it committed.
\<close>

datatype incoming_result = Wait | Failed string | Rejected int int | Accepted int int

type_synonym answer = "string + int \<times> int"

abbreviation put_state :: "string \<Rightarrow> delayedSyncState \<Rightarrow> delayedSyncer \<Rightarrow> delayedSyncer" where
  "put_state key state s \<equiv> s\<lparr>sy_states := mput key state (sy_states s)\<rparr>"

definition incoming_admit ::
    "string \<Rightarrow> int \<Rightarrow> int \<Rightarrow> delayedSyncState \<Rightarrow> delayedSyncer \<Rightarrow> delayedSyncer \<times> incoming_result" where
  "incoming_admit key cost now state s =
     (let remaining = dy_remoteRemaining state - dy_localDelta state - cost;
          reset = (case dy_resetAt state of None \<Rightarrow> 0 | Some t \<Rightarrow> max (t - now) 0)
      in if remaining < 0 then (put_state key state s, Rejected remaining reset)
         else (put_state key (state\<lparr>dy_localDelta := dy_localDelta state + cost\<rparr>) s, Accepted remaining reset))"

definition pristine :: "delayedSyncState \<Rightarrow> bool" where
  "pristine state \<longleftrightarrow> \<not> dy_initialized state \<and> \<not> dy_inFlight state \<and> dy_localDelta state = 0
     \<and> dy_remoteRemaining state = 0 \<and> dy_reservationAt state = None \<and> dy_resetAt state = None"

definition incoming_refresh ::
    "string \<Rightarrow> int \<Rightarrow> int \<Rightarrow> answer \<Rightarrow> bool \<Rightarrow> delayedSyncState \<Rightarrow> delayedSyncer \<Rightarrow> delayedSyncer \<times> incoming_result" where
  "incoming_refresh key cost now query created state s =
     (if \<not> dy_initialized state \<or> \<not> before now (dy_resetAt state) then
        (case query of
           Inl err \<Rightarrow>
             (if created \<and> pristine state then s\<lparr>sy_states := mdel key (sy_states s)\<rparr> else put_state key state s, Failed err)
         | Inr (remoteRemaining, remoteReset) \<Rightarrow>
             incoming_admit key cost now
               (state\<lparr>dy_remoteRemaining := remoteRemaining, dy_localDelta := 0, dy_reservationAt := Some now,
                  dy_resetAt := Some (now + remoteReset), dy_initialized := True\<rparr>) s)
      else incoming_admit key cost now state s)"

definition incoming_found ::
    "string \<Rightarrow> int \<Rightarrow> int \<Rightarrow> answer \<Rightarrow> answer \<Rightarrow> bool \<Rightarrow> delayedSyncState \<Rightarrow> delayedSyncer \<Rightarrow> delayedSyncer \<times> incoming_result \<times> int" where
  "incoming_found key cost now commit query created state s =
     (if dy_initialized state \<and> \<not> before now (dy_resetAt state) \<and> dy_inFlight state then (s, Wait, 0)
      else if dy_initialized state \<and> \<not> before now (dy_resetAt state) \<and> dy_localDelta state > 0 then
        (case commit of
           Inl err \<Rightarrow> (s, Failed err, 0)
         | Inr _ \<Rightarrow>
             let (s, res) = incoming_refresh key cost now query created
                   (state\<lparr>dy_localDelta := 0, dy_initialized := False\<rparr>) s
             in (s, res, dy_localDelta state))
      else let (s, res) = incoming_refresh key cost now query created state s in (s, res, 0))"

definition incoming ::
    "string \<Rightarrow> int \<Rightarrow> int \<Rightarrow> answer \<Rightarrow> answer \<Rightarrow> delayedSyncer \<Rightarrow> delayedSyncer \<times> incoming_result \<times> int" where
  "incoming key cost now commit query s =
     (case map_of (sy_states s) key of
        Some state \<Rightarrow> incoming_found key cost now commit query False state s
      | None \<Rightarrow>
          let s = cleanupExpiredLocked now s
          in if int (length (sy_states s)) \<ge> stateCapacity s then (s, Rejected 0 (sy_window s), 0)
             else incoming_found key cost now commit query True zero_state (put_state key zero_state s))"

definition scheduleRetry :: "string \<Rightarrow> delayedSyncer \<Rightarrow> delayedSyncer" where
  "scheduleRetry key s = s\<lparr>sy_retryNext := List.insert key (sy_retryNext s)\<rparr>"

text \<open>The key goes to the channel, or to the next retry when the channel is full.\<close>

definition enqueue :: "string \<Rightarrow> delayedSyncer \<Rightarrow> delayedSyncer" where
  "enqueue key s =
     (if length (sy_queue s) < sy_queueSize s then s\<lparr>sy_queue := sy_queue s @ [key]\<rparr> else scheduleRetry key s)"

section \<open>The flush\<close>

text \<open>The pending mutation of a key: the amount and the reservation time it is committed at.\<close>

type_synonym pending = "(string, int \<times> int option) gomap"

definition reserve_key :: "string \<Rightarrow> delayedSyncer \<times> pending \<Rightarrow> delayedSyncer \<times> pending" where
  "reserve_key key = (\<lambda>(s, pending).
     (case map_of (sy_states s) key of
        None \<Rightarrow> (s, pending)
      | Some state \<Rightarrow>
          if dy_localDelta state = 0 \<or> dy_inFlight state then (s, pending)
          else (put_state key (state\<lparr>dy_localDelta := 0, dy_inFlight := True\<rparr>) s,
                mput key (dy_localDelta state, dy_reservationAt state) pending)))"

definition reserve_keys :: "string list \<Rightarrow> delayedSyncer \<Rightarrow> delayedSyncer \<times> pending" where
  "reserve_keys keys s = fold reserve_key keys (s, [])"

text \<open>The end of the commit of one key; \<open>None\<close> is the dereference of a state that is not there.\<close>

definition complete_key :: "bool \<Rightarrow> string \<Rightarrow> int \<Rightarrow> answer \<Rightarrow> delayedSyncer \<Rightarrow> delayedSyncer option" where
  "complete_key retryFailures key delta answer s =
     (case map_of (sy_states s) key of
        None \<Rightarrow> None
      | Some state \<Rightarrow>
          (case answer of
             Inl err \<Rightarrow>
               let s = put_state key (state\<lparr>dy_localDelta := dy_localDelta state + delta, dy_inFlight := False\<rparr>) s
               in Some (if retryFailures then scheduleRetry key s else s)
           | Inr (remaining, _) \<Rightarrow>
               Some (put_state key (state\<lparr>dy_remoteRemaining := remaining, dy_inFlight := False\<rparr>) s)))"

definition dirty_keys :: "delayedSyncer \<Rightarrow> string list" where
  "dirty_keys s = map fst (filter (\<lambda>(_, state). dy_localDelta state > 0) (sy_states s))"

definition finish_flush :: "int \<Rightarrow> delayedSyncer \<Rightarrow> delayedSyncer" where
  "finish_flush now s =
     cleanupExpiredLocked now (s\<lparr>sy_retry := fold List.insert (sy_retryNext s) (sy_retry s), sy_retryNext := []\<rparr>)"

text \<open>
  The goroutine \<open>run\<close>: idle, receiving from the queue in \<open>drainQueue\<close>, about to add the retries,
  in \<open>flushKeys\<close> before the reservation or with the keys still to commit, at the end of \<open>flushNow\<close>,
  stopped, or panicked. The flag says whether failures are retried, which a shutdown does not.
\<close>

datatype flusher =
    Idle
  | Draining "string list"
  | Collecting "string list"
  | Reserving "string list" bool
  | Committing "string list" pending bool
  | Finishing
  | Stopped
  | Panicked

text \<open>A run, with the keys that requests have yet to enqueue and, for each key, what was accepted and committed.\<close>

record run =
  rn_syncer :: delayedSyncer
  rn_flusher :: flusher
  rn_toEnqueue :: "string list"
  rn_accepted :: "string \<Rightarrow> int"
  rn_committed :: "string \<Rightarrow> int"

definition start :: "int \<Rightarrow> nat \<Rightarrow> run" where
  "start window queueSize =
     \<lparr>rn_syncer = newDelayedSyncer window queueSize, rn_flusher = Idle, rn_toEnqueue = [],
      rn_accepted = (\<lambda>_. 0), rn_committed = (\<lambda>_. 0)\<rparr>"

definition add_to :: "string \<Rightarrow> int \<Rightarrow> (string \<Rightarrow> int) \<Rightarrow> string \<Rightarrow> int" where
  "add_to key n f = f(key := f key + n)"

text \<open>A request of a non-negative cost; \<open>lo.Uniq\<close> is the function \<open>uniq\<close>.\<close>

inductive ds_step :: "(string list \<Rightarrow> string list) \<Rightarrow> run \<Rightarrow> run \<Rightarrow> bool" for uniq where
  request: "\<lbrakk>0 \<le> cost; incoming key cost now commit query (rn_syncer r) = (s, res, committed)\<rbrakk> \<Longrightarrow>
    ds_step uniq r
      (case res of
         Accepted _ _ \<Rightarrow> r\<lparr>rn_syncer := s, rn_committed := add_to key committed (rn_committed r),
           rn_accepted := add_to key cost (rn_accepted r), rn_toEnqueue := key # rn_toEnqueue r\<rparr>
       | _ \<Rightarrow> r\<lparr>rn_syncer := s, rn_committed := add_to key committed (rn_committed r)\<rparr>)"
| enqueued: "key \<in> set (rn_toEnqueue r) \<Longrightarrow>
    ds_step uniq r (r\<lparr>rn_syncer := enqueue key (rn_syncer r), rn_toEnqueue := remove1 key (rn_toEnqueue r)\<rparr>)"
| tick: "rn_flusher r = Idle \<Longrightarrow> ds_step uniq r (r\<lparr>rn_flusher := Draining []\<rparr>)"
| receive: "\<lbrakk>rn_flusher r = Draining keys; sy_queue (rn_syncer r) = key # queue\<rbrakk> \<Longrightarrow>
    ds_step uniq r (r\<lparr>rn_syncer := (rn_syncer r)\<lparr>sy_queue := queue\<rparr>, rn_flusher := Draining (keys @ [key])\<rparr>)"
| drained: "\<lbrakk>rn_flusher r = Draining keys; sy_queue (rn_syncer r) = []\<rbrakk> \<Longrightarrow>
    ds_step uniq r (r\<lparr>rn_flusher := Collecting (uniq keys)\<rparr>)"
| collect: "rn_flusher r = Collecting keys \<Longrightarrow>
    ds_step uniq r (r\<lparr>rn_syncer := (rn_syncer r)\<lparr>sy_retry := []\<rparr>,
      rn_flusher := Reserving (uniq (keys @ sy_retry (rn_syncer r))) True\<rparr>)"
| reserve: "\<lbrakk>rn_flusher r = Reserving keys retryFailures; reserve_keys keys (rn_syncer r) = (s, pending)\<rbrakk> \<Longrightarrow>
    ds_step uniq r (r\<lparr>rn_syncer := s, rn_flusher := Committing keys pending retryFailures\<rparr>)"
| skip: "\<lbrakk>rn_flusher r = Committing (key # keys) pending retryFailures; map_of pending key = None\<rbrakk> \<Longrightarrow>
    ds_step uniq r (r\<lparr>rn_flusher := Committing keys pending retryFailures\<rparr>)"
| commit: "\<lbrakk>rn_flusher r = Committing (key # keys) pending retryFailures; map_of pending key = Some (delta, at);
     complete_key retryFailures key delta answer (rn_syncer r) = Some s\<rbrakk> \<Longrightarrow>
    ds_step uniq r (r\<lparr>rn_syncer := s, rn_flusher := Committing keys pending retryFailures,
      rn_committed := (case answer of Inl _ \<Rightarrow> rn_committed r | Inr _ \<Rightarrow> add_to key delta (rn_committed r))\<rparr>)"
| panic: "\<lbrakk>rn_flusher r = Committing (key # keys) pending retryFailures; map_of pending key = Some (delta, at);
     complete_key retryFailures key delta answer (rn_syncer r) = None\<rbrakk> \<Longrightarrow>
    ds_step uniq r (r\<lparr>rn_flusher := Panicked\<rparr>)"
| flushed: "rn_flusher r = Committing [] pending True \<Longrightarrow> ds_step uniq r (r\<lparr>rn_flusher := Finishing\<rparr>)"
| finish: "rn_flusher r = Finishing \<Longrightarrow>
    ds_step uniq r (r\<lparr>rn_syncer := finish_flush now (rn_syncer r), rn_flusher := Idle\<rparr>)"
| stop: "rn_flusher r = Idle \<Longrightarrow> ds_step uniq r (r\<lparr>rn_flusher := Reserving (dirty_keys (rn_syncer r)) False\<rparr>)"
| stopped: "rn_flusher r = Committing [] pending False \<Longrightarrow> ds_step uniq r (r\<lparr>rn_flusher := Stopped\<rparr>)"

text \<open>The documented behaviour of \<open>lo.Uniq\<close>: the same elements, each once.\<close>

definition uniq_law :: "(string list \<Rightarrow> string list) \<Rightarrow> bool" where
  "uniq_law uniq \<longleftrightarrow> (\<forall>xs. distinct (uniq xs) \<and> set (uniq xs) = set xs)"

section \<open>What a step keeps of one key\<close>

definition localDelta_of :: "delayedSyncer \<Rightarrow> string \<Rightarrow> int" where
  "localDelta_of s key = (case map_of (sy_states s) key of None \<Rightarrow> 0 | Some state \<Rightarrow> dy_localDelta state)"

text \<open>The state of a key of which a commit is in flight or not.\<close>

definition state_ok :: "bool \<Rightarrow> delayedSyncState \<Rightarrow> bool" where
  "state_ok flying state \<longleftrightarrow> 0 \<le> dy_localDelta state \<and> (dy_inFlight state \<longleftrightarrow> flying)
     \<and> (\<not> dy_initialized state \<longrightarrow> dy_localDelta state = 0 \<and> \<not> flying)"

definition key_ok :: "delayedSyncer \<Rightarrow> string \<Rightarrow> bool \<Rightarrow> bool" where
  "key_ok s key flying \<longleftrightarrow> (case map_of (sy_states s) key of None \<Rightarrow> \<not> flying | Some state \<Rightarrow> state_ok flying state)"

text \<open>Nothing changes for the key but that an idle state may go.\<close>

definition key_kept :: "delayedSyncer \<Rightarrow> delayedSyncer \<Rightarrow> string \<Rightarrow> bool" where
  "key_kept s s' key \<longleftrightarrow> (\<forall>flying. key_ok s key flying \<longrightarrow> key_ok s' key flying) \<and> localDelta_of s' key = localDelta_of s key"

lemma key_kept_same: "map_of (sy_states s') key = map_of (sy_states s) key \<Longrightarrow> key_kept s s' key"
  by (simp add: key_kept_def key_ok_def localDelta_of_def)

lemma key_kept_trans: "key_kept s s' key \<Longrightarrow> key_kept s' s'' key \<Longrightarrow> key_kept s s'' key"
  by (simp add: key_kept_def)

lemma cleanup_kept:
  assumes "gomap (sy_states s)"
  shows "gomap (sy_states (cleanupExpiredLocked now s)) \<and> key_kept s (cleanupExpiredLocked now s) key"
proof -
  let ?P = "\<lambda>(key, state). \<not> dy_initialized state \<or> before now (dy_resetAt state) \<or> dy_localDelta state \<noteq> 0 \<or> dy_inFlight state
        \<or> key \<in> set (sy_retry s) \<or> key \<in> set (sy_retryNext s)"
  have m: "map_of (filter ?P (sy_states s)) key = Some state \<longleftrightarrow> map_of (sy_states s) key = Some state \<and> ?P (key, state)" for state
    using gomap_map_of_iff[OF assms, of key state] gomap_map_of_iff[OF gomap_filter[OF assms], of ?P key state]
    by (simp only: set_filter mem_Collect_eq)
  have gm: "gomap (filter ?P (sy_states s))" using assms by simp
  show ?thesis
  proof (cases "map_of (filter ?P (sy_states s)) key")
    case (Some state)
    then have "map_of (sy_states s) key = Some state" using m by blast
    then show ?thesis using gm Some by (simp add: cleanupExpiredLocked_def key_kept_same)
  next
    case None
    have "dy_localDelta state = 0 \<and> \<not> dy_inFlight state" if "map_of (sy_states s) key = Some state" for state
      using m[of state] None that by auto
    then show ?thesis
      using gm None
      by (auto simp: cleanupExpiredLocked_def key_kept_def key_ok_def state_ok_def localDelta_of_def split: option.splits)
  qed
qed

definition accepted_cost :: "incoming_result \<Rightarrow> int \<Rightarrow> int" where
  "accepted_cost res cost = (case res of Accepted _ _ \<Rightarrow> cost | _ \<Rightarrow> 0)"

lemma incoming_admit_ok:
  assumes "incoming_admit key cost now state s = (s', res)" and "state_ok flying state" and "dy_initialized state"
    and "0 \<le> cost" and "gomap (sy_states s)"
  shows "key_ok s' key flying \<and> localDelta_of s' key = dy_localDelta state + accepted_cost res cost
    \<and> gomap (sy_states s') \<and> (\<forall>k. k \<noteq> key \<longrightarrow> key_kept s s' k)"
  using assms
  by (auto simp: incoming_admit_def Let_def key_ok_def state_ok_def localDelta_of_def accepted_cost_def
      intro!: key_kept_same split: if_splits)

lemma incoming_refresh_ok:
  assumes "incoming_refresh key cost now query created state s = (s', res)" and "state_ok flying state"
    and "dy_initialized state \<and> \<not> before now (dy_resetAt state) \<longrightarrow> dy_localDelta state = 0"
    and "0 \<le> cost" and "gomap (sy_states s)"
  shows "key_ok s' key flying \<and> localDelta_of s' key = dy_localDelta state + accepted_cost res cost
    \<and> gomap (sy_states s') \<and> (\<forall>k. k \<noteq> key \<longrightarrow> key_kept s s' k)"
proof (cases "\<not> dy_initialized state \<or> \<not> before now (dy_resetAt state)")
  case False
  then show ?thesis
    using assms incoming_admit_ok[of key cost now state s s' res flying] by (simp add: incoming_refresh_def)
next
  case True
  then have zero: "dy_localDelta state = 0" using assms(2,3) by (auto simp: state_ok_def)
  show ?thesis
  proof (cases query)
    case (Inl err)
    then show ?thesis
      using assms(1,2,5) True zero
      by (auto simp: incoming_refresh_def key_ok_def state_ok_def localDelta_of_def accepted_cost_def pristine_def
          intro!: key_kept_same split: if_splits)
  next
    case (Inr rr)
    obtain remaining reset where rr: "rr = (remaining, reset)" by fastforce
    let ?st = "state\<lparr>dy_remoteRemaining := remaining, dy_localDelta := 0, dy_reservationAt := Some now,
                  dy_resetAt := Some (now + reset), dy_initialized := True\<rparr>"
    have "state_ok flying ?st" using assms(2) by (auto simp: state_ok_def)
    then show ?thesis
      using assms(1,4,5) True zero Inr rr incoming_admit_ok[of key cost now ?st s s' res flying]
      by (simp add: incoming_refresh_def)
  qed
qed

lemma incoming_found_ok:
  assumes "incoming_found key cost now commit query created state s = (s', res, committed)"
    and "map_of (sy_states s) key = Some state" and "state_ok flying state" and "0 \<le> cost" and "gomap (sy_states s)"
  shows "key_ok s' key flying \<and> localDelta_of s' key + committed = dy_localDelta state + accepted_cost res cost
    \<and> gomap (sy_states s') \<and> (\<forall>k. k \<noteq> key \<longrightarrow> key_kept s s' k)"
proof -
  let ?expired = "dy_initialized state \<and> \<not> before now (dy_resetAt state)"
  have idle: "key_ok s key flying \<and> localDelta_of s key = dy_localDelta state \<and> (\<forall>k. k \<noteq> key \<longrightarrow> key_kept s s k)"
    using assms(2,3) by (simp add: key_ok_def localDelta_of_def key_kept_same)
  consider (wait) "?expired \<and> dy_inFlight state"
    | (commit) "?expired \<and> \<not> dy_inFlight state \<and> dy_localDelta state > 0"
    | (plain) "\<not> (?expired \<and> dy_inFlight state)" "\<not> (?expired \<and> dy_localDelta state > 0)" by blast
  then show ?thesis
  proof cases
    case wait
    then show ?thesis using assms(1,5) idle by (simp add: incoming_found_def accepted_cost_def)
  next
    case commit
    show ?thesis
    proof (cases commit)
      case (Inl err)
      then show ?thesis using assms(1,5) \<open>?expired \<and> \<not> dy_inFlight state \<and> _\<close> idle
        by (auto simp: incoming_found_def accepted_cost_def)
    next
      case (Inr x)
      let ?st = "state\<lparr>dy_localDelta := 0, dy_initialized := False\<rparr>"
      obtain s1 res1 where r: "incoming_refresh key cost now query created ?st s = (s1, res1)" by fastforce
      have "state_ok flying ?st" using assms(3) \<open>?expired \<and> \<not> dy_inFlight state \<and> _\<close> by (auto simp: state_ok_def)
      from incoming_refresh_ok[OF r this _ assms(4,5)] show ?thesis
        using assms(1) Inr r \<open>?expired \<and> \<not> dy_inFlight state \<and> _\<close> by (simp add: incoming_found_def)
    qed
  next
    case plain
    obtain s1 res1 where r: "incoming_refresh key cost now query created state s = (s1, res1)" by fastforce
    have "?expired \<longrightarrow> dy_localDelta state = 0" using plain(2) assms(3) by (auto simp: state_ok_def)
    from incoming_refresh_ok[OF r assms(3) this assms(4,5)] show ?thesis
      using assms(1) r plain by (auto simp: incoming_found_def)
  qed
qed

lemma incoming_ok:
  assumes "incoming key cost now commit query s = (s', res, committed)" and "key_ok s key flying"
    and "0 \<le> cost" and "gomap (sy_states s)"
  shows "key_ok s' key flying \<and> localDelta_of s' key + committed = localDelta_of s key + accepted_cost res cost
    \<and> gomap (sy_states s') \<and> (\<forall>k. k \<noteq> key \<longrightarrow> key_kept s s' k)"
proof (cases "map_of (sy_states s) key")
  case (Some state)
  then show ?thesis
    using assms incoming_found_ok[of key cost now commit query False state s s' res committed flying]
    by (simp add: incoming_def key_ok_def localDelta_of_def)
next
  case None
  let ?c = "cleanupExpiredLocked now s"
  have c: "gomap (sy_states ?c)" "key_kept s ?c k" for k using cleanup_kept[OF assms(4)] by blast+
  have fl: "\<not> flying" using assms(2) None by (simp add: key_ok_def)
  show ?thesis
  proof (cases "int (length (sy_states ?c)) \<ge> stateCapacity ?c")
    case True
    then show ?thesis using assms(1,2) None c by (auto simp: incoming_def Let_def key_kept_def accepted_cost_def)
  next
    case False
    let ?s = "put_state key zero_state ?c"
    have found: "incoming_found key cost now commit query True zero_state ?s = (s', res, committed)"
      using assms(1) None False by (simp add: incoming_def Let_def)
    have "state_ok flying zero_state" using fl by (simp add: state_ok_def zero_state_def)
    from incoming_found_ok[OF found _ this assms(3)] c(1)
    have r: "key_ok s' key flying" "localDelta_of s' key + committed = accepted_cost res cost" "gomap (sy_states s')"
      "\<forall>k. k \<noteq> key \<longrightarrow> key_kept ?s s' k" by (simp_all add: zero_state_def)
    have "key_kept s s' k" if "k \<noteq> key" for k
    proof -
      have "key_kept ?c ?s k" using that by (intro key_kept_same) simp
      then show ?thesis using c(2)[of k] r(4) that key_kept_trans by blast
    qed
    moreover have "localDelta_of s key = 0" using None by (simp add: localDelta_of_def)
    ultimately show ?thesis using r by simp
  qed
qed

section \<open>What a flush keeps of one key\<close>

definition pending_delta :: "pending \<Rightarrow> string \<Rightarrow> int" where
  "pending_delta pending key = (case map_of pending key of None \<Rightarrow> 0 | Some (delta, _) \<Rightarrow> delta)"

text \<open>The keys reserved so far fly, and what was local is local or reserved.\<close>

definition reserved :: "delayedSyncer \<Rightarrow> delayedSyncer \<times> pending \<Rightarrow> bool" where
  "reserved s0 = (\<lambda>(s, pending). gomap (sy_states s)
     \<and> (\<forall>k. key_ok s k (k \<in> dom (map_of pending)) \<and> 0 \<le> pending_delta pending k
          \<and> localDelta_of s k + pending_delta pending k = localDelta_of s0 k
          \<and> (k \<in> dom (map_of pending) \<longrightarrow> localDelta_of s k = 0))
     \<and> sy_queue s = sy_queue s0 \<and> sy_retry s = sy_retry s0 \<and> sy_retryNext s = sy_retryNext s0)"

lemma reserve_key_ok:
  assumes "reserved s0 (s, pending)" and "reserve_key key (s, pending) = (s', pending')"
  shows "reserved s0 (s', pending') \<and> localDelta_of s' key = 0 \<and> dom (map_of pending') \<subseteq> insert key (dom (map_of pending))
    \<and> (\<forall>k. localDelta_of s k = 0 \<longrightarrow> localDelta_of s' k = 0)"
proof (cases "\<exists>state. map_of (sy_states s) key = Some state \<and> dy_localDelta state \<noteq> 0 \<and> \<not> dy_inFlight state")
  case True
  then obtain state where st: "map_of (sy_states s) key = Some state" "dy_localDelta state \<noteq> 0" "\<not> dy_inFlight state" by blast
  have r: "s' = put_state key (state\<lparr>dy_localDelta := 0, dy_inFlight := True\<rparr>) s"
    "pending' = mput key (dy_localDelta state, dy_reservationAt state) pending"
    using assms(2) st by (auto simp: reserve_key_def)
  have ok: "key_ok s key (key \<in> dom (map_of pending))" "localDelta_of s key + pending_delta pending key = localDelta_of s0 key"
    using assms(1) by (simp_all add: reserved_def)
  then have "key \<notin> dom (map_of pending)" "0 \<le> dy_localDelta state" "dy_initialized state"
    using st by (auto simp: key_ok_def state_ok_def)
  then have p: "pending_delta pending key = 0" by (cases "map_of pending key") (auto simp: pending_delta_def)
  have "key_ok s' k (k \<in> dom (map_of pending')) \<and> 0 \<le> pending_delta pending' k
      \<and> localDelta_of s' k + pending_delta pending' k = localDelta_of s0 k
      \<and> (k \<in> dom (map_of pending') \<longrightarrow> localDelta_of s' k = 0)" for k
  proof (cases "k = key")
    case True
    then show ?thesis
      using r st ok(2) p \<open>0 \<le> dy_localDelta state\<close> \<open>dy_initialized state\<close>
      by (simp add: key_ok_def state_ok_def pending_delta_def localDelta_of_def)
  next
    case False
    have "key_ok s k (k \<in> dom (map_of pending)) \<and> 0 \<le> pending_delta pending k
      \<and> localDelta_of s k + pending_delta pending k = localDelta_of s0 k
      \<and> (k \<in> dom (map_of pending) \<longrightarrow> localDelta_of s k = 0)" using assms(1) by (simp add: reserved_def)
    then show ?thesis using r False by (simp add: key_ok_def pending_delta_def localDelta_of_def)
  qed
  then show ?thesis using assms(1) r by (auto simp: reserved_def localDelta_of_def)
next
  case False
  have same: "s' = s \<and> pending' = pending"
    using assms(2) False by (auto simp: reserve_key_def split: option.splits if_splits)
  have "localDelta_of s key = 0"
  proof (cases "map_of (sy_states s) key")
    case (Some state)
    have "key_ok s key (key \<in> dom (map_of pending))" "key \<in> dom (map_of pending) \<longrightarrow> localDelta_of s key = 0"
      using assms(1) by (simp_all add: reserved_def)
    then show ?thesis using Some False by (auto simp: key_ok_def state_ok_def localDelta_of_def)
  qed (simp add: localDelta_of_def)
  then show ?thesis using assms(1) same by auto
qed

lemma reserve_fold_ok:
  assumes "reserved s0 (s, pending)" and "fold reserve_key keys (s, pending) = (s', pending')"
  shows "reserved s0 (s', pending') \<and> (\<forall>k\<in>set keys. localDelta_of s' k = 0)
    \<and> dom (map_of pending') \<subseteq> set keys \<union> dom (map_of pending) \<and> (\<forall>k. localDelta_of s k = 0 \<longrightarrow> localDelta_of s' k = 0)"
  using assms
proof (induction keys arbitrary: s pending)
  case (Cons key keys)
  obtain s1 p1 where r: "reserve_key key (s, pending) = (s1, p1)" by fastforce
  note k = reserve_key_ok[OF Cons.prems(1) r]
  have "fold reserve_key keys (s1, p1) = (s', pending')" using Cons.prems(2) r by simp
  from Cons.IH[OF conjunct1[OF k] this] k show ?case unfolding list.set(2) by blast
qed simp

lemma reserve_keys_ok:
  assumes "reserve_keys keys s = (s', pending)" and "gomap (sy_states s)" and "\<And>k. key_ok s k False"
  shows "reserved s (s', pending) \<and> (\<forall>k\<in>set keys. localDelta_of s' k = 0) \<and> dom (map_of pending) \<subseteq> set keys
    \<and> (\<forall>k. localDelta_of s k = 0 \<longrightarrow> localDelta_of s' k = 0)"
proof -
  have "reserved s (s, [])" using assms(2,3) by (simp add: reserved_def pending_delta_def)
  from reserve_fold_ok[OF this] assms(1) show ?thesis by (fastforce simp: reserve_keys_def)
qed

lemma complete_key_ok:
  assumes "key_ok s key True" and "0 \<le> delta" and "gomap (sy_states s)"
  shows "\<exists>s'. complete_key retryFailures key delta answer s = Some s' \<and> key_ok s' key False \<and> gomap (sy_states s')
    \<and> localDelta_of s' key = localDelta_of s key + (case answer of Inl _ \<Rightarrow> delta | Inr _ \<Rightarrow> 0)
    \<and> (\<forall>k. k \<noteq> key \<longrightarrow> key_kept s s' k) \<and> sy_queue s' = sy_queue s \<and> sy_retry s' = sy_retry s
    \<and> set (sy_retryNext s) \<subseteq> set (sy_retryNext s')
    \<and> (retryFailures \<longrightarrow> (case answer of Inl _ \<Rightarrow> key \<in> set (sy_retryNext s') | Inr _ \<Rightarrow> True))"
proof -
  obtain state where st: "map_of (sy_states s) key = Some state" "state_ok True state"
    using assms(1) by (auto simp: key_ok_def split: option.splits)
  show ?thesis
  proof (cases answer)
    case (Inl err)
    then show ?thesis
      using st assms(2,3)
      by (auto simp: complete_key_def Let_def scheduleRetry_def key_ok_def state_ok_def localDelta_of_def intro!: key_kept_same)
  next
    case (Inr x)
    then show ?thesis
      using st assms(2,3)
      by (cases x) (auto simp: complete_key_def key_ok_def state_ok_def localDelta_of_def intro!: key_kept_same)
  qed
qed

section \<open>No accepted cost is lost or committed twice\<close>

text \<open>The keys whose commit is in flight, and the amount.\<close>

fun flying :: "flusher \<Rightarrow> string \<Rightarrow> bool" where
  "flying (Committing keys pending _) key \<longleftrightarrow> key \<in> set keys \<and> key \<in> dom (map_of pending)"
| "flying _ key \<longleftrightarrow> False"

fun in_flight :: "flusher \<Rightarrow> string \<Rightarrow> int" where
  "in_flight (Committing keys pending _) key = (if key \<in> set keys then pending_delta pending key else 0)"
| "in_flight _ key = 0"

text \<open>The keys a flush has taken from the queue and has not reserved yet.\<close>

fun taken :: "flusher \<Rightarrow> string set" where
  "taken (Draining keys) = set keys"
| "taken (Collecting keys) = set keys"
| "taken (Reserving keys _) = set keys"
| "taken _ = {}"

fun shutting_down :: "flusher \<Rightarrow> bool" where
  "shutting_down (Reserving _ retryFailures) \<longleftrightarrow> \<not> retryFailures"
| "shutting_down (Committing _ _ retryFailures) \<longleftrightarrow> \<not> retryFailures"
| "shutting_down Stopped \<longleftrightarrow> True"
| "shutting_down _ \<longleftrightarrow> False"

fun keys_distinct :: "flusher \<Rightarrow> bool" where
  "keys_distinct (Reserving keys _) = distinct keys"
| "keys_distinct (Committing keys pending _) = (distinct keys \<and> (\<forall>k. 0 \<le> pending_delta pending k))"
| "keys_distinct Panicked = False"
| "keys_distinct _ = True"

definition scheduled :: "run \<Rightarrow> string set" where
  "scheduled r = set (rn_toEnqueue r) \<union> set (sy_queue (rn_syncer r)) \<union> set (sy_retry (rn_syncer r))
     \<union> set (sy_retryNext (rn_syncer r)) \<union> taken (rn_flusher r)"

definition key_inv :: "run \<Rightarrow> string \<Rightarrow> bool" where
  "key_inv r key \<longleftrightarrow> key_ok (rn_syncer r) key (flying (rn_flusher r) key)
     \<and> rn_accepted r key = rn_committed r key + localDelta_of (rn_syncer r) key + in_flight (rn_flusher r) key
     \<and> (\<not> shutting_down (rn_flusher r) \<and> localDelta_of (rn_syncer r) key \<noteq> 0 \<longrightarrow> key \<in> scheduled r)"

definition ds_inv :: "run \<Rightarrow> bool" where
  "ds_inv r \<longleftrightarrow> gomap (sy_states (rn_syncer r)) \<and> keys_distinct (rn_flusher r) \<and> (\<forall>key. key_inv r key)"

definition same_queues :: "delayedSyncer \<Rightarrow> delayedSyncer \<Rightarrow> bool" where
  "same_queues s s' \<longleftrightarrow> sy_queue s' = sy_queue s \<and> sy_retry s' = sy_retry s \<and> sy_retryNext s' = sy_retryNext s"

lemma same_queues_states [simp]: "same_queues s (s\<lparr>sy_states := states\<rparr>)"
  by (simp add: same_queues_def)

lemma same_queues_refl [simp]: "same_queues s s"
  by (simp add: same_queues_def)

lemma same_queues_trans: "same_queues s s' \<Longrightarrow> same_queues s' s'' \<Longrightarrow> same_queues s s''"
  by (simp add: same_queues_def)

lemma incoming_admit_queues: "same_queues s (fst (incoming_admit key cost now state s))"
  by (simp add: incoming_admit_def Let_def)

lemma incoming_refresh_queues: "same_queues s (fst (incoming_refresh key cost now query created state s))"
  by (auto simp: incoming_refresh_def incoming_admit_queues split: sum.split)

lemma incoming_found_queues: "same_queues s (fst (incoming_found key cost now commit query created state s))"
  using incoming_refresh_queues[of s key cost now query created "state\<lparr>dy_localDelta := 0, dy_initialized := False\<rparr>"]
    incoming_refresh_queues[of s key cost now query created state]
  by (simp add: incoming_found_def Let_def case_prod_beta split: sum.split)

lemma incoming_queues: "same_queues s (fst (incoming key cost now commit query s))"
proof (cases "map_of (sy_states s) key")
  case (Some state)
  then show ?thesis by (simp add: incoming_def incoming_found_queues)
next
  case None
  let ?c = "cleanupExpiredLocked now s"
  have c: "same_queues s ?c" by (simp add: cleanupExpiredLocked_def)
  have "same_queues s (fst (incoming_found key cost now commit query True zero_state (put_state key zero_state ?c)))"
    using same_queues_trans[OF c same_queues_trans[OF same_queues_states incoming_found_queues]] .
  then show ?thesis using None c by (simp add: incoming_def Let_def)
qed

text \<open>Steps of the flusher that leave the states alone: it is enough that no key is dropped from the schedule.\<close>

lemma key_inv_flusher:
  assumes "key_inv r key" and "\<not> flying fl key" and "in_flight fl key = 0" and "\<not> flying (rn_flusher r) key"
    and "in_flight (rn_flusher r) key = 0"
    and "rn_accepted r' = rn_accepted r" and "rn_committed r' = rn_committed r" and "rn_flusher r' = fl"
    and "key_kept (rn_syncer r) (rn_syncer r') key"
    and "\<not> shutting_down fl \<Longrightarrow> \<not> shutting_down (rn_flusher r) \<and> (key \<in> scheduled r \<longrightarrow> key \<in> scheduled r')"
  shows "key_inv r' key"
  using assms unfolding key_inv_def key_kept_def by simp

lemma incoming_committed:
  assumes "incoming key cost now commit query s = (s', res, committed)"
  shows "0 \<le> committed"
proof -
  have found: "0 \<le> snd (snd (incoming_found key cost now commit query created state s))" for created state s
    by (simp add: incoming_found_def Let_def case_prod_beta split: sum.split)
  have "0 \<le> snd (snd (incoming key cost now commit query s))"
    by (simp add: incoming_def Let_def found split: option.split)
  then show ?thesis using assms by simp
qed

text \<open>The run after a request.\<close>

definition after_request :: "run \<Rightarrow> string \<Rightarrow> int \<Rightarrow> delayedSyncer \<Rightarrow> incoming_result \<Rightarrow> int \<Rightarrow> run" where
  "after_request r key cost s res committed =
     r\<lparr>rn_syncer := s, rn_committed := add_to key committed (rn_committed r),
       rn_accepted := add_to key (accepted_cost res cost) (rn_accepted r),
       rn_toEnqueue := (case res of Accepted _ _ \<Rightarrow> key # rn_toEnqueue r | _ \<Rightarrow> rn_toEnqueue r)\<rparr>"

lemma add_to_0 [simp]: "add_to key 0 f = f"
  by (simp add: add_to_def)

lemma add_to_apply: "add_to key n f k = f k + (if k = key then n else 0)"
  by (simp add: add_to_def)

lemma request_inv:
  assumes "ds_inv r" and "0 \<le> cost" and "incoming key cost now commit query (rn_syncer r) = (s, res, committed)"
  shows "ds_inv (after_request r key cost s res committed)"
proof -
  let ?r = "after_request r key cost s res committed"
  have gm: "gomap (sy_states (rn_syncer r))" and inv: "key_inv r k" for k using assms(1) by (simp_all add: ds_inv_def)
  have ok: "key_ok s key (flying (rn_flusher r) key)"
    and local: "localDelta_of s key + committed = localDelta_of (rn_syncer r) key + accepted_cost res cost"
    and gm': "gomap (sy_states s)" and others: "\<And>k. k \<noteq> key \<Longrightarrow> key_kept (rn_syncer r) s k"
    using incoming_ok[OF assms(3) _ assms(2) gm, of "flying (rn_flusher r) key"] inv[of key] by (auto simp: key_inv_def)
  have q: "same_queues (rn_syncer r) s" using incoming_queues[of "rn_syncer r" key cost now commit query] assms(3) by simp
  then have sched: "scheduled r \<subseteq> scheduled ?r"
    by (auto simp: scheduled_def after_request_def same_queues_def split: incoming_result.splits)
  have fl: "rn_flusher ?r = rn_flusher r" "rn_syncer ?r = s" by (simp_all add: after_request_def)
  have "key_inv ?r k" for k
  proof (cases "k = key")
    case False
    then show ?thesis
      using inv[of k] others[OF False] sched fl
      by (auto simp: key_inv_def key_kept_def after_request_def add_to_apply)
  next
    case True
    have "key \<in> scheduled ?r" if "\<not> shutting_down (rn_flusher r)" "localDelta_of s key \<noteq> 0"
    proof (cases "\<exists>a b. res = Accepted a b")
      case True
      then show ?thesis by (auto simp: scheduled_def after_request_def)
    next
      case False
      then have "accepted_cost res cost = 0" by (auto simp: accepted_cost_def split: incoming_result.splits)
      moreover have "0 \<le> localDelta_of s key"
        using ok by (auto simp: key_ok_def state_ok_def localDelta_of_def split: option.splits)
      ultimately have "localDelta_of (rn_syncer r) key \<noteq> 0" using local incoming_committed[OF assms(3)] that(2) by linarith
      then show ?thesis using inv[of key] that(1) sched by (auto simp: key_inv_def)
    qed
    then show ?thesis
      using True inv[of key] ok local fl by (simp add: key_inv_def after_request_def add_to_apply)
  qed
  then show ?thesis using assms(1) gm' fl by (simp add: ds_inv_def)
qed

lemma enqueued_inv:
  assumes "ds_inv r" and "key \<in> set (rn_toEnqueue r)"
  shows "ds_inv (r\<lparr>rn_syncer := enqueue key (rn_syncer r), rn_toEnqueue := remove1 key (rn_toEnqueue r)\<rparr>)"
proof -
  let ?r = "r\<lparr>rn_syncer := enqueue key (rn_syncer r), rn_toEnqueue := remove1 key (rn_toEnqueue r)\<rparr>"
  have states: "sy_states (enqueue key (rn_syncer r)) = sy_states (rn_syncer r)"
    by (simp add: enqueue_def scheduleRetry_def)
  have "scheduled r \<subseteq> scheduled ?r"
  proof
    fix k assume k: "k \<in> scheduled r"
    show "k \<in> scheduled ?r"
    proof (cases "k = key")
      case True
      then show ?thesis by (simp add: scheduled_def enqueue_def scheduleRetry_def)
    next
      case False
      then show ?thesis using k in_set_remove1[OF False]
        by (auto simp: scheduled_def enqueue_def scheduleRetry_def)
    qed
  qed
  then show ?thesis
    using assms(1) states by (auto simp: ds_inv_def key_inv_def key_ok_def localDelta_of_def)
qed

lemma commit_inv:
  assumes "ds_inv r" and fl: "rn_flusher r = Committing (key # keys) pending retryFailures"
    and "map_of pending key = Some (delta, at)" and "complete_key retryFailures key delta answer (rn_syncer r) = Some s"
  shows "ds_inv (r\<lparr>rn_syncer := s, rn_flusher := Committing keys pending retryFailures,
      rn_committed := (case answer of Inl _ \<Rightarrow> rn_committed r | Inr _ \<Rightarrow> add_to key delta (rn_committed r))\<rparr>)"
    (is "ds_inv ?r")
proof -
  have gm: "gomap (sy_states (rn_syncer r))" and inv: "key_inv r k" for k using assms(1) by (simp_all add: ds_inv_def)
  have dist: "distinct (key # keys)" and nonneg: "\<And>k. 0 \<le> pending_delta pending k"
    using assms(1) fl by (simp_all add: ds_inv_def)
  have delta: "pending_delta pending key = delta" using assms(3) by (simp add: pending_delta_def)
  have "flying (rn_flusher r) key = True" using fl assms(3) by (simp add: domIff)
  then have "key_ok (rn_syncer r) key True" using inv[of key] unfolding key_inv_def by metis
  from complete_key_ok[OF this _ gm, of delta retryFailures answer] nonneg[of key] delta assms(4)
  have s: "key_ok s key False" "gomap (sy_states s)"
    "localDelta_of s key = localDelta_of (rn_syncer r) key + (case answer of Inl _ \<Rightarrow> delta | Inr _ \<Rightarrow> 0)"
    "\<And>k. k \<noteq> key \<Longrightarrow> key_kept (rn_syncer r) s k" "sy_queue s = sy_queue (rn_syncer r)" "sy_retry s = sy_retry (rn_syncer r)"
    "set (sy_retryNext (rn_syncer r)) \<subseteq> set (sy_retryNext s)"
    "retryFailures \<longrightarrow> (case answer of Inl _ \<Rightarrow> key \<in> set (sy_retryNext s) | Inr _ \<Rightarrow> True)"
    by auto
  have sched: "scheduled r \<subseteq> scheduled ?r" using s(5-7) fl by (auto simp: scheduled_def)
  have "key_inv ?r k" for k
  proof (cases "k = key")
    case True
    have "key \<in> scheduled ?r" if "retryFailures" "localDelta_of s key \<noteq> 0"
    proof (cases answer)
      case (Inl e)
      then show ?thesis using s(8) that(1) by (simp add: scheduled_def)
    next
      case (Inr x)
      then show ?thesis using s(3) that inv[of key] fl sched by (auto simp: key_inv_def)
    qed
    then show ?thesis
      using True inv[of key] s(1,3) fl dist delta
      by (cases answer) (auto simp: key_inv_def add_to_apply)
  next
    case False
    have "(case answer of Inl _ \<Rightarrow> rn_committed r | Inr _ \<Rightarrow> add_to key delta (rn_committed r)) k = rn_committed r k"
      using False by (simp add: add_to_apply split: sum.split)
    then show ?thesis
      using False inv[of k] s(4)[OF False] sched fl by (auto simp: key_inv_def key_kept_def)
  qed
  then show ?thesis using s(2) dist nonneg by (simp add: ds_inv_def)
qed

lemma reserve_inv:
  assumes "ds_inv r" and fl: "rn_flusher r = Reserving keys retryFailures" and "reserve_keys keys (rn_syncer r) = (s, pending)"
  shows "ds_inv (r\<lparr>rn_syncer := s, rn_flusher := Committing keys pending retryFailures\<rparr>)" (is "ds_inv ?r")
proof -
  have gm: "gomap (sy_states (rn_syncer r))" and inv: "key_inv r k" for k using assms(1) by (simp_all add: ds_inv_def)
  have "key_ok (rn_syncer r) k False" for k using inv[of k] fl by (simp add: key_inv_def)
  from reserve_keys_ok[OF assms(3) gm this]
  have res: "reserved (rn_syncer r) (s, pending)" and zero: "\<And>k. k \<in> set keys \<Longrightarrow> localDelta_of s k = 0"
    and dom: "dom (map_of pending) \<subseteq> set keys" and mono: "\<And>k. localDelta_of (rn_syncer r) k = 0 \<Longrightarrow> localDelta_of s k = 0"
    by blast+
  have k: "key_ok s k (k \<in> dom (map_of pending))" "0 \<le> pending_delta pending k"
    "localDelta_of s k + pending_delta pending k = localDelta_of (rn_syncer r) k" "gomap (sy_states s)"
    "sy_queue s = sy_queue (rn_syncer r)" "sy_retry s = sy_retry (rn_syncer r)" "sy_retryNext s = sy_retryNext (rn_syncer r)" for k
    using res by (simp_all add: reserved_def)
  have "key_inv ?r k" for k
  proof -
    have fly: "flying (rn_flusher ?r) k \<longleftrightarrow> k \<in> dom (map_of pending)" using dom by auto
    have "pending_delta pending k = 0" if "k \<notin> set keys"
      using that dom by (cases "map_of pending k") (auto simp: pending_delta_def)
    then have "in_flight (rn_flusher ?r) k = pending_delta pending k" by simp
    moreover have "k \<in> scheduled ?r" if "retryFailures" "localDelta_of s k \<noteq> 0"
    proof -
      have "k \<in> scheduled r" using inv[of k] fl that mono[of k] by (auto simp: key_inv_def)
      then show ?thesis using zero[of k] that(2) fl k(5-7) by (auto simp: scheduled_def)
    qed
    ultimately show ?thesis using inv[of k] fl k(1,3)[of k] fly by (simp add: key_inv_def)
  qed
  then show ?thesis using assms(1) fl k(2,4) by (simp add: ds_inv_def)
qed

lemma ds_inv_flusher:
  assumes "ds_inv r" and "\<And>key. \<not> flying fl key" and "\<And>key. in_flight fl key = 0" and "\<And>key. \<not> flying (rn_flusher r) key"
    and "\<And>key. in_flight (rn_flusher r) key = 0" and "keys_distinct fl" and "gomap (sy_states s)"
    and "\<And>key. key_kept (rn_syncer r) s key"
    and "\<not> shutting_down fl \<Longrightarrow> \<not> shutting_down (rn_flusher r) \<and> scheduled r \<subseteq> scheduled (r\<lparr>rn_syncer := s, rn_flusher := fl\<rparr>)"
  shows "ds_inv (r\<lparr>rn_syncer := s, rn_flusher := fl\<rparr>)"
proof -
  have "key_inv (r\<lparr>rn_syncer := s, rn_flusher := fl\<rparr>) key" for key
    by (rule key_inv_flusher[where r = r and fl = fl]) (use assms in \<open>auto simp: ds_inv_def\<close>)
  then show ?thesis using assms(6,7) by (simp add: ds_inv_def)
qed

lemma set_fold_insert: "set (fold List.insert xs ys) = set xs \<union> set ys"
  by (induction xs arbitrary: ys) auto

lemma dirty_keys_distinct: "gomap (sy_states s) \<Longrightarrow> distinct (dirty_keys s)"
  unfolding dirty_keys_def gomap_def by (rule distinct_map_filter)

lemma finish_kept:
  assumes "gomap (sy_states s)"
  shows "gomap (sy_states (finish_flush now s)) \<and> key_kept s (finish_flush now s) key"
proof -
  let ?s = "s\<lparr>sy_retry := fold List.insert (sy_retryNext s) (sy_retry s), sy_retryNext := []\<rparr>"
  have "gomap (sy_states (cleanupExpiredLocked now ?s)) \<and> key_kept ?s (cleanupExpiredLocked now ?s) key"
    using cleanup_kept[of ?s now key] assms by simp
  moreover have "key_kept s ?s key" by (simp add: key_kept_same)
  ultimately show ?thesis using key_kept_trans unfolding finish_flush_def by blast
qed

lemma ds_step_inv:
  assumes "uniq_law uniq" and "ds_inv r" and "ds_step uniq r r'"
  shows "ds_inv r'"
  using assms(3)
proof cases
  case (request cost key now commit query s res committed)
  have "r' = after_request r key cost s res committed"
    using request(1) by (cases res) (simp_all add: after_request_def accepted_cost_def)
  then show ?thesis using request_inv[OF assms(2) request(2,3)] by simp
next
  case (enqueued key)
  then show ?thesis using enqueued_inv[OF assms(2)] by simp
next
  case tick
  then show ?thesis using ds_inv_flusher[OF assms(2), of "Draining []" "rn_syncer r"] assms(2)
    by (simp add: key_kept_same ds_inv_def scheduled_def)
next
  case (receive keys key queue)
  let ?s = "(rn_syncer r)\<lparr>sy_queue := queue\<rparr>"
  have "scheduled r \<subseteq> scheduled (r\<lparr>rn_syncer := ?s, rn_flusher := Draining (keys @ [key])\<rparr>)"
    using receive by (auto simp: scheduled_def)
  then show ?thesis
    using ds_inv_flusher[OF assms(2), of "Draining (keys @ [key])" ?s] assms(2) receive
    by (simp add: key_kept_same ds_inv_def)
next
  case (drained keys)
  have "scheduled r \<subseteq> scheduled (r\<lparr>rn_flusher := Collecting (uniq keys)\<rparr>)"
    using drained assms(1) by (auto simp: scheduled_def uniq_law_def)
  then show ?thesis
    using ds_inv_flusher[OF assms(2), of "Collecting (uniq keys)" "rn_syncer r"] assms(2) drained
    by (simp add: key_kept_same ds_inv_def)
next
  case (collect keys)
  let ?s = "(rn_syncer r)\<lparr>sy_retry := []\<rparr>" and ?fl = "Reserving (uniq (keys @ sy_retry (rn_syncer r))) True"
  have "scheduled r \<subseteq> scheduled (r\<lparr>rn_syncer := ?s, rn_flusher := ?fl\<rparr>)"
    using collect assms(1) by (auto simp: scheduled_def uniq_law_def)
  then show ?thesis
    using ds_inv_flusher[OF assms(2), of ?fl ?s] assms(1,2) collect
    by (simp add: key_kept_same ds_inv_def uniq_law_def)
next
  case (reserve keys retryFailures s pending)
  then show ?thesis using reserve_inv[OF assms(2)] by simp
next
  case (skip key keys pending retryFailures)
  have none: "pending_delta pending key = 0" using skip(3) by (simp add: pending_delta_def)
  have "key_inv r' k" for k
  proof -
    have "key_inv r k" using assms(2) by (simp add: ds_inv_def)
    moreover have "flying (Committing (key # keys) pending retryFailures) k = flying (Committing keys pending retryFailures) k"
      using skip(3) by (cases "k = key") (auto simp: domIff)
    moreover have "in_flight (Committing (key # keys) pending retryFailures) k = in_flight (Committing keys pending retryFailures) k"
      using none by auto
    moreover have "scheduled r = scheduled r'" using skip by (simp add: scheduled_def)
    ultimately show ?thesis using skip(1,2) by (simp add: key_inv_def del: flying.simps in_flight.simps)
  qed
  then show ?thesis using assms(2) skip(1,2) by (simp add: ds_inv_def)
next
  case (commit key keys pending retryFailures delta at answer s)
  then show ?thesis using commit_inv[OF assms(2)] by simp
next
  case (panic key keys pending retryFailures delta at answer)
  have "flying (rn_flusher r) key = True" using panic by (simp add: domIff)
  then have "key_ok (rn_syncer r) key True" using assms(2) unfolding ds_inv_def key_inv_def by metis
  moreover have "0 \<le> delta" using assms(2) panic by (auto simp: ds_inv_def pending_delta_def split: option.splits dest!: spec[of _ key])
  ultimately show ?thesis using complete_key_ok[of "rn_syncer r" key delta retryFailures answer] assms(2) panic
    by (auto simp: ds_inv_def)
next
  case (flushed pending)
  then show ?thesis using ds_inv_flusher[OF assms(2), of Finishing "rn_syncer r"] assms(2)
    by (simp add: key_kept_same ds_inv_def scheduled_def)
next
  case (finish now)
  have "scheduled r \<subseteq> scheduled (r\<lparr>rn_syncer := finish_flush now (rn_syncer r), rn_flusher := Idle\<rparr>)"
    using finish by (auto simp: scheduled_def finish_flush_def cleanupExpiredLocked_def set_fold_insert)
  then show ?thesis
    using ds_inv_flusher[OF assms(2), of Idle "finish_flush now (rn_syncer r)"] assms(2) finish
      finish_kept[of "rn_syncer r" now]
    by (simp add: ds_inv_def)
next
  case stop
  then show ?thesis
    using ds_inv_flusher[OF assms(2), of "Reserving (dirty_keys (rn_syncer r)) False" "rn_syncer r"] assms(2)
    by (simp add: key_kept_same ds_inv_def dirty_keys_distinct)
next
  case (stopped pending)
  then show ?thesis using ds_inv_flusher[OF assms(2), of Stopped "rn_syncer r"] assms(2)
    by (simp add: key_kept_same ds_inv_def)
qed

lemma start_inv: "ds_inv (start window queueSize)"
  by (simp add: ds_inv_def key_inv_def key_ok_def localDelta_of_def start_def newDelayedSyncer_def)

lemma ds_reachable_inv: "(ds_step uniq)\<^sup>*\<^sup>* (start window queueSize) r \<Longrightarrow> uniq_law uniq \<Longrightarrow> ds_inv r"
  by (induction rule: rtranclp_induct) (auto simp: start_inv intro: ds_step_inv)

text \<open>C38. No accepted cost is lost or committed twice. However requests, retries, expiries and flushes
  interleave and whatever the backend answers, the cost accepted for a key is what was committed
  to the backend, what is still counted locally and what is being committed, each of them
  non-negative; the flusher never finds a state gone; and until the shutdown every key with a
  local count is in the queue, among the retries or in the hands of a request or the flusher, so
  that a later flush will commit it.\<close>

theorem delayed_sync_conserves:
  assumes "uniq_law uniq" and "(ds_step uniq)\<^sup>*\<^sup>* (start window queueSize) r"
  shows "rn_flusher r \<noteq> Panicked \<and> (\<forall>key.
      rn_accepted r key = rn_committed r key + localDelta_of (rn_syncer r) key + in_flight (rn_flusher r) key
    \<and> 0 \<le> localDelta_of (rn_syncer r) key \<and> 0 \<le> in_flight (rn_flusher r) key
    \<and> (\<not> shutting_down (rn_flusher r) \<and> localDelta_of (rn_syncer r) key \<noteq> 0 \<longrightarrow> key \<in> scheduled r))"
proof -
  have inv: "ds_inv r" using ds_reachable_inv[OF assms(2,1)] .
  then have key: "key_inv r key" and fl: "keys_distinct (rn_flusher r)" for key by (simp_all add: ds_inv_def)
  have "rn_flusher r \<noteq> Panicked" using fl by auto
  moreover have "0 \<le> localDelta_of (rn_syncer r) key" for key
    using key[of key] by (auto simp: key_inv_def key_ok_def state_ok_def localDelta_of_def split: option.splits)
  moreover have "0 \<le> in_flight (rn_flusher r) key" for key
    using fl by (cases "rn_flusher r") auto
  ultimately show ?thesis using key unfolding key_inv_def by blast
qed

text \<open>A request of cost one against a remaining quota of two.\<close>

lemma one_request:
  "ds_step uniq (start 60 10) (after_request (start 60 10) ''k'' 1
     ((newDelayedSyncer 60 10)\<lparr>sy_states := [(''k'', \<lparr>dy_remoteRemaining = 2, dy_localDelta = 1, dy_reservationAt = Some 0,
        dy_resetAt = Some 100, dy_initialized = True, dy_inFlight = False\<rparr>)]\<rparr>) (Accepted 1 100) 0)"
  using ds_step.request[of 1 "''k''" 0 "Inl []" "Inr (2, 100)" "start 60 10"]
  by (simp add: incoming_def incoming_found_def incoming_refresh_def incoming_admit_def cleanupExpiredLocked_def
      stateCapacity_def maxDelayedSyncStates_def start_def newDelayedSyncer_def zero_state_def before_def Let_def
      after_request_def accepted_cost_def)

lemma delayed_sync_conserves_witness:
  "\<exists>r. (ds_step remdups)\<^sup>*\<^sup>* (start 60 10) r \<and> rn_accepted r ''k'' = 1 \<and> ''k'' \<in> scheduled r
     \<and> rn_committed r ''k'' + localDelta_of (rn_syncer r) ''k'' + in_flight (rn_flusher r) ''k'' = 1"
proof -
  define r where "r = after_request (start 60 10) ''k'' 1
     ((newDelayedSyncer 60 10)\<lparr>sy_states := [(''k'', \<lparr>dy_remoteRemaining = 2, dy_localDelta = 1, dy_reservationAt = Some 0,
        dy_resetAt = Some 100, dy_initialized = True, dy_inFlight = False\<rparr>)]\<rparr>) (Accepted 1 100) 0"
  have reach: "(ds_step remdups)\<^sup>*\<^sup>* (start 60 10) r" unfolding r_def using one_request by blast
  have law: "uniq_law remdups" by (simp add: uniq_law_def)
  have "rn_accepted r ''k'' = 1" "localDelta_of (rn_syncer r) ''k'' \<noteq> 0" "\<not> shutting_down (rn_flusher r)"
    by (simp_all add: r_def after_request_def accepted_cost_def start_def add_to_def localDelta_of_def)
  then show ?thesis using delayed_sync_conserves[OF law reach] reach by metis
qed

text \<open>
  The amount in flight is not counted against the quota: within the window a request is judged by
  the remaining quota of the last answer and the local count alone. With a quota of two and both
  units in flight a third request is accepted.
\<close>

lemma in_flight_not_counted:
  "fst (snd (incoming ''k'' 1 1 commit query (fst (reserve_keys [''k'']
     ((newDelayedSyncer 60 10)\<lparr>sy_states := [(''k'', \<lparr>dy_remoteRemaining = 2, dy_localDelta = 2, dy_reservationAt = Some 0,
        dy_resetAt = Some 100, dy_initialized = True, dy_inFlight = False\<rparr>)]\<rparr>))))) = Accepted 1 99"
  by (simp add: incoming_def incoming_found_def incoming_refresh_def incoming_admit_def before_def Let_def
      reserve_keys_def reserve_key_def)

end
