(* ===== verification/Spec2Isabelle.thy ===== *)
theory Spec2Isabelle
  imports Registry Timeout Mqtt_Stream Api_Breaker Compression Limit_Count Delayed_Sync
begin

text \<open>
  Verification of the upstream runtime of apisix-go, a Go implementation of the APISIX gateway.
\<close>

end
